(* ===== verification/Dp_Prelude.thy ===== *)
theory Dp_Prelude
  imports Main "HOL-Library.Word" "HOL-Library.Monad_Syntax" "HOL-Library.Multiset"
begin

unbundle bit_operations_syntax

text \<open>
  What every component shares: the machine-integer types, the errno values the C files
  return, the byte-addressed memory of a packet buffer with its bounds-checked accesses
  (\<open>None\<close> is an access outside the buffer), the byte order conversions, and the
  collections of facts (\<open>mem_simps\<close>, \<open>errno_simps\<close>) the component proofs use.
\<close>

section \<open>Machine integers and errno\<close>

type_synonym u8 = "8 word"
type_synonym u16 = "16 word"
type_synonym u32 = "32 word"
type_synonym u64 = "64 word"

named_theorems errno_simps \<open>the numeric values of the errno constants\<close>
named_theorems mem_simps \<open>reads and writes of packet memory\<close>

definition EIO :: int where [errno_simps]: "EIO = 5"
definition ENOMEM :: int where [errno_simps]: "ENOMEM = 12"
definition EBUSY :: int where [errno_simps]: "EBUSY = 16"
definition EEXIST :: int where [errno_simps]: "EEXIST = 17"
definition EXDEV :: int where [errno_simps]: "EXDEV = 18"
definition ENODEV :: int where [errno_simps]: "ENODEV = 19"
definition EINVAL :: int where [errno_simps]: "EINVAL = 22"
definition ENOSPC :: int where [errno_simps]: "ENOSPC = 28"
definition ENOTSUP :: int where [errno_simps]: "ENOTSUP = 95"
definition EALREADY :: int where [errno_simps]: "EALREADY = 114"

lemma errno_pos [simp]:
  "0 < EIO" "0 < ENOMEM" "0 < EBUSY" "0 < EEXIST" "0 < EXDEV" "0 < ENODEV"
  "0 < EINVAL" "0 < ENOSPC" "0 < ENOTSUP" "0 < EALREADY"
  by (simp_all add: errno_simps)

lemma errno_nonzero [simp]:
  "EIO \<noteq> 0" "ENOMEM \<noteq> 0" "EBUSY \<noteq> 0" "EEXIST \<noteq> 0" "EXDEV \<noteq> 0" "ENODEV \<noteq> 0"
  "EINVAL \<noteq> 0" "ENOSPC \<noteq> 0" "ENOTSUP \<noteq> 0" "EALREADY \<noteq> 0"
  by (simp_all add: errno_simps)

section \<open>Options as computations that may fault\<close>

lemmas fault_splits = Option.bind_splits option.splits if_splits

lemma bind_eq_SomeD: "Option.bind x f = Some y \<Longrightarrow> \<exists>v. x = Some v \<and> f v = Some y"
  by (cases x) auto

section \<open>Byte order\<close>

text \<open>The number a big-endian byte pair (or pair of halves) denotes, and its bytes.\<close>

lemma unat_lt: "unat (b::u8) < 256" "unat (h::u16) < 65536" "unat (w::u32) < 4294967296"
    "unat (d::u64) < 18446744073709551616"
  using unsigned_less [of b, where 'a = nat] unsigned_less [of h, where 'a = nat]
    unsigned_less [of w, where 'a = nat] unsigned_less [of d, where 'a = nat]
  by simp_all

lemma unat_ucast_mod: "unat (ucast (w :: 'a::len word) :: 'b::len word) = unat w mod 2 ^ LENGTH('b)"
  by (simp add: unsigned_ucast_eq take_bit_eq_mod)

definition be16 :: "u8 \<Rightarrow> u8 \<Rightarrow> u16" where
  "be16 h l = ucast h * 256 + ucast l"

definition hi16 :: "u16 \<Rightarrow> u8" where
  "hi16 v = ucast (drop_bit 8 v)"

definition lo16 :: "u16 \<Rightarrow> u8" where
  "lo16 v = ucast v"

definition be32 :: "u16 \<Rightarrow> u16 \<Rightarrow> u32" where
  "be32 h l = ucast h * 65536 + ucast l"

definition hi32 :: "u32 \<Rightarrow> u16" where
  "hi32 v = ucast (drop_bit 16 v)"

definition lo32 :: "u32 \<Rightarrow> u16" where
  "lo32 v = ucast v"

lemma unat_be16: "unat (be16 h l) = 256 * unat h + unat l"
proof -
  have "unat h < 256" "unat l < 256"
    by (rule unat_lt)+
  then show ?thesis
    by (simp add: be16_def unat_word_ariths unat_ucast_mod)
qed

lemma unat_be32: "unat (be32 h l) = 65536 * unat h + unat l"
proof -
  have "unat h < 65536" "unat l < 65536"
    by (rule unat_lt)+
  then show ?thesis
    by (simp add: be32_def unat_word_ariths unat_ucast_mod)
qed

lemma unat_hi16: "unat (hi16 v) = unat v div 256"
proof -
  have "unat v < 65536" by (rule unat_lt)
  then have "unat v div 256 < 256" by simp
  then show ?thesis by (simp add: hi16_def unat_ucast_mod drop_bit_eq_div unat_div)
qed

lemma unat_lo16: "unat (lo16 v) = unat v mod 256"
  by (simp add: lo16_def unat_ucast_mod)

lemma unat_hi32: "unat (hi32 v) = unat v div 65536"
proof -
  have "unat v < 4294967296" by (rule unat_lt)
  then have "unat v div 65536 < 65536" by simp
  then show ?thesis by (simp add: hi32_def unat_ucast_mod drop_bit_eq_div unat_div)
qed

lemma unat_lo32: "unat (lo32 v) = unat v mod 65536"
  by (simp add: lo32_def unat_ucast_mod)

lemma be16_split [simp]: "be16 (hi16 v) (lo16 v) = v"
  by (rule word_unat_eq_iff [THEN iffD2]) (simp add: unat_be16 unat_hi16 unat_lo16)

lemma be32_split [simp]: "be32 (hi32 v) (lo32 v) = v"
  by (rule word_unat_eq_iff [THEN iffD2]) (simp add: unat_be32 unat_hi32 unat_lo32)

lemma hi16_be16 [simp]: "hi16 (be16 h l) = h"
proof -
  have "unat l < 256" by (rule unat_lt)
  then show ?thesis by (intro word_unat_eq_iff [THEN iffD2]) (simp add: unat_be16 unat_hi16)
qed

lemma lo16_be16 [simp]: "lo16 (be16 h l) = l"
proof -
  have "unat l < 256" by (rule unat_lt)
  then show ?thesis by (intro word_unat_eq_iff [THEN iffD2]) (simp add: unat_be16 unat_lo16)
qed

lemma hi32_be32 [simp]: "hi32 (be32 h l) = h"
proof -
  have "unat l < 65536" by (rule unat_lt)
  then show ?thesis by (intro word_unat_eq_iff [THEN iffD2]) (simp add: unat_be32 unat_hi32)
qed

lemma lo32_be32 [simp]: "lo32 (be32 h l) = l"
proof -
  have "unat l < 65536" by (rule unat_lt)
  then show ?thesis by (intro word_unat_eq_iff [THEN iffD2]) (simp add: unat_be32 unat_lo32)
qed

section \<open>Bounds-checked byte memory\<close>

type_synonym bytes = "u8 list"

definition rd8 :: "bytes \<Rightarrow> nat \<Rightarrow> u8 option" where
  "rd8 m a = (if a < length m then Some (m ! a) else None)"

definition rd16be :: "bytes \<Rightarrow> nat \<Rightarrow> u16 option" where
  "rd16be m a = do { h \<leftarrow> rd8 m a; l \<leftarrow> rd8 m (a + 1); Some (be16 h l) }"

definition rd32be :: "bytes \<Rightarrow> nat \<Rightarrow> u32 option" where
  "rd32be m a = do { h \<leftarrow> rd16be m a; l \<leftarrow> rd16be m (a + 2); Some (be32 h l) }"

definition wr8 :: "bytes \<Rightarrow> nat \<Rightarrow> u8 \<Rightarrow> bytes option" where
  "wr8 m a v = (if a < length m then Some (m[a := v]) else None)"

definition wr16be :: "bytes \<Rightarrow> nat \<Rightarrow> u16 \<Rightarrow> bytes option" where
  "wr16be m a v = do { m1 \<leftarrow> wr8 m a (hi16 v); wr8 m1 (a + 1) (lo16 v) }"

definition wr32be :: "bytes \<Rightarrow> nat \<Rightarrow> u32 \<Rightarrow> bytes option" where
  "wr32be m a v = do { m1 \<leftarrow> wr16be m a (hi32 v); wr16be m1 (a + 2) (lo32 v) }"

text \<open>
  The same accesses without the check, for the values they yield where the check passes.
\<close>

definition get16 :: "bytes \<Rightarrow> nat \<Rightarrow> u16" where
  "get16 m a = be16 (m ! a) (m ! (a + 1))"

definition get32 :: "bytes \<Rightarrow> nat \<Rightarrow> u32" where
  "get32 m a = be32 (get16 m a) (get16 m (a + 2))"

definition put16 :: "bytes \<Rightarrow> nat \<Rightarrow> u16 \<Rightarrow> bytes" where
  "put16 m a v = m[a := hi16 v, a + 1 := lo16 v]"

definition put32 :: "bytes \<Rightarrow> nat \<Rightarrow> u32 \<Rightarrow> bytes" where
  "put32 m a v = put16 (put16 m a (hi32 v)) (a + 2) (lo32 v)"

lemma rd8_Some [mem_simps]: "a < length m \<Longrightarrow> rd8 m a = Some (m ! a)"
  by (simp add: rd8_def)

lemma rd16be_Some [mem_simps]: "a + 1 < length m \<Longrightarrow> rd16be m a = Some (get16 m a)"
  by (simp add: rd16be_def rd8_def get16_def)

lemma rd32be_Some [mem_simps]: "a + 3 < length m \<Longrightarrow> rd32be m a = Some (get32 m a)"
  by (simp add: rd32be_def rd16be_Some get32_def)

lemma wr8_Some [mem_simps]: "a < length m \<Longrightarrow> wr8 m a v = Some (m[a := v])"
  by (simp add: wr8_def)

lemma wr16be_Some [mem_simps]: "a + 1 < length m \<Longrightarrow> wr16be m a v = Some (put16 m a v)"
  by (simp add: wr16be_def wr8_def put16_def)

lemma wr32be_Some [mem_simps]: "a + 3 < length m \<Longrightarrow> wr32be m a v = Some (put32 m a v)"
  by (simp add: wr32be_def wr16be_Some put16_def put32_def)

lemma length_put16 [simp]: "length (put16 m a v) = length m"
  by (simp add: put16_def)

lemma length_put32 [simp]: "length (put32 m a v) = length m"
  by (simp add: put32_def)

lemma put16_nth: "i < length m \<Longrightarrow> put16 m a v ! i =
    (if i = a then hi16 v else if i = a + 1 then lo16 v else m ! i)"
  by (auto simp: put16_def nth_list_update)

lemma put16_nth_other [simp]: "i \<noteq> a \<Longrightarrow> i \<noteq> a + 1 \<Longrightarrow> put16 m a v ! i = m ! i"
  by (simp add: put16_def)

lemma put32_nth_other [simp]: "i < a \<or> a + 4 \<le> i \<Longrightarrow> put32 m a v ! i = m ! i"
  by (auto simp: put32_def put16_def)

lemma get16_put16 [simp]: "a + 1 < length m \<Longrightarrow> get16 (put16 m a v) a = v"
  by (simp add: get16_def put16_nth)

lemma get16_put16_other [simp]:
  "a + 2 \<le> b \<or> b + 2 \<le> a \<Longrightarrow> get16 (put16 m a v) b = get16 m b"
  by (auto simp: get16_def)

lemma get16_put32_other [simp]:
  "a + 4 \<le> b \<or> b + 2 \<le> a \<Longrightarrow> get16 (put32 m a v) b = get16 m b"
  by (auto simp: put32_def)

lemma get32_put32 [simp]: "a + 3 < length m \<Longrightarrow> get32 (put32 m a v) a = v"
  by (simp add: get32_def put32_def)

lemma get32_put16_other [simp]:
  "a + 2 \<le> b \<or> b + 4 \<le> a \<Longrightarrow> get32 (put16 m a v) b = get32 m b"
  by (auto simp: get32_def)

lemma get32_put32_other [simp]:
  "a + 4 \<le> b \<or> b + 4 \<le> a \<Longrightarrow> get32 (put32 m a v) b = get32 m b"
  by (auto simp: get32_def)

section \<open>Bounds-checked arrays\<close>

definition idx :: "'a list \<Rightarrow> nat \<Rightarrow> 'a option" where
  "idx xs i = (if i < length xs then Some (xs ! i) else None)"

definition set_idx :: "'a list \<Rightarrow> nat \<Rightarrow> 'a \<Rightarrow> 'a list option" where
  "set_idx xs i v = (if i < length xs then Some (xs[i := v]) else None)"

lemma idx_Some [mem_simps]: "i < length xs \<Longrightarrow> idx xs i = Some (xs ! i)"
  by (simp add: idx_def)

lemma set_idx_Some [mem_simps]: "i < length xs \<Longrightarrow> set_idx xs i v = Some (xs[i := v])"
  by (simp add: set_idx_def)

lemma idx_eq_Some: "idx xs i = Some v \<longleftrightarrow> i < length xs \<and> xs ! i = v"
  by (auto simp: idx_def)

lemma set_idx_eq_Some: "set_idx xs i v = Some ys \<longleftrightarrow> i < length xs \<and> ys = xs[i := v]"
  by (auto simp: set_idx_def)

end
