(* ===== verification/Dp_Api.thy ===== *)
theory Dp_Api
  imports Dp_Prelude
begin

text \<open>
  The data of the native boundary (\<open>dp_api.h\<close>, \<open>dp_packet.h\<close>): one record per C struct,
  one field per member, each integer at its C width. Field names carry a short prefix per
  struct, because several structs share member names. \<open>struct dp_stats\<close> repeats the members
  of \<open>struct dp_packet_stats\<close> at its top level, so its record extends that record. An action
  type is the \<open>uint8_t\<close> the struct holds, not an enumeration, since the code must handle
  values outside the enum.
\<close>

section \<open>Workers and their counters\<close>

definition DP_MAX_WORKERS :: nat where
  "DP_MAX_WORKERS = 4"

record dp_worker_info =
  wi_worker_id :: u32
  wi_lcore_id :: u32
  wi_rx_queue_id :: u16
  wi_tx_queue_id :: u16

record dp_runtime_info =
  ri_initialized :: int
  ri_main_lcore :: u32
  ri_lcore_count :: u32
  ri_version :: "string option"
  ri_rx_port :: u16
  ri_tx_port :: u16
  ri_rx_desc :: u16
  ri_tx_desc :: u16
  ri_nb_mbuf :: u32
  ri_cache_size :: u32
  ri_socket_id :: int
  ri_worker_count :: u32
  ri_workers :: "dp_worker_info list"

record dp_packet_stats =
  ps_rx :: u64
  ps_parse_ok :: u64
  ps_parse_unsupported :: u64
  ps_parse_malformed :: u64
  ps_flow_hit :: u64
  ps_route_hit :: u64
  ps_lookup_miss :: u64
  ps_action_drop :: u64
  ps_action_forward :: u64
  ps_action_rewrite :: u64
  ps_tx_accepted :: u64
  ps_tx_unsent :: u64
  ps_drop :: u64
  ps_rx_bursts :: u64
  ps_rx_empty_polls :: u64
  ps_tx_bursts :: u64

record dp_worker_stats =
  ws_info :: dp_worker_info
  ws_packets :: dp_packet_stats

record dp_stats = dp_packet_stats +
  st_worker_count :: u32
  st_workers :: "dp_worker_stats list"
  st_rules_generation :: u64
  st_rules_publish_success :: u64
  st_rules_publish_failed :: u64
  st_rules_reclaimed :: u64
  st_ports_closed :: u32
  st_pool_in_use :: u32
  st_pool_freed :: int
  st_flow_table_freed :: int
  st_route_table_freed :: int
  st_action_store_freed :: int
  st_snapshot_freed :: int
  st_qsbr_freed :: int

section \<open>Rules and actions\<close>

definition DP_MAX_FLOW_RULES :: nat where
  "DP_MAX_FLOW_RULES = 1024"

definition DP_MAX_ROUTE_RULES :: nat where
  "DP_MAX_ROUTE_RULES = 1024"

definition DP_ACTION_DROP :: u8 where
  "DP_ACTION_DROP = 0"

definition DP_ACTION_FORWARD :: u8 where
  "DP_ACTION_FORWARD = 1"

definition DP_ACTION_REWRITE :: u8 where
  "DP_ACTION_REWRITE = 2"

definition DP_REWRITE_SRC_IPV4 :: u8 where
  "DP_REWRITE_SRC_IPV4 = push_bit 0 1"

definition DP_REWRITE_DST_IPV4 :: u8 where
  "DP_REWRITE_DST_IPV4 = push_bit 1 1"

definition DP_REWRITE_SRC_PORT :: u8 where
  "DP_REWRITE_SRC_PORT = push_bit 2 1"

definition DP_REWRITE_DST_PORT :: u8 where
  "DP_REWRITE_DST_PORT = push_bit 3 1"

lemmas action_consts = DP_ACTION_DROP_def DP_ACTION_FORWARD_def DP_ACTION_REWRITE_def

lemmas rewrite_consts =
  DP_REWRITE_SRC_IPV4_def DP_REWRITE_DST_IPV4_def DP_REWRITE_SRC_PORT_def DP_REWRITE_DST_PORT_def

record dp_rule_action =
  ra_type :: u8
  ra_rewrite_mask :: u8
  ra_reserved :: u16
  ra_src_ipv4 :: u32
  ra_dst_ipv4 :: u32
  ra_src_port :: u16
  ra_dst_port :: u16

text \<open>\<open>uint8_t reserved[3]\<close> is a triple, so its three elements always exist.\<close>

record dp_flow_rule =
  fr_src_ipv4 :: u32
  fr_dst_ipv4 :: u32
  fr_src_port :: u16
  fr_dst_port :: u16
  fr_l4_proto :: u8
  fr_reserved :: "u8 \<times> u8 \<times> u8"
  fr_action :: dp_rule_action

record dp_route_rule =
  rr_prefix :: u32
  rr_depth :: u8
  rr_reserved :: "u8 \<times> u8 \<times> u8"
  rr_action :: dp_rule_action

text \<open>What \<open>memset\<close> and zeroing allocators produce.\<close>

definition zero_action :: dp_rule_action where
  "zero_action = \<lparr>ra_type = 0, ra_rewrite_mask = 0, ra_reserved = 0, ra_src_ipv4 = 0,
     ra_dst_ipv4 = 0, ra_src_port = 0, ra_dst_port = 0\<rparr>"

definition zero_flow_rule :: dp_flow_rule where
  "zero_flow_rule = \<lparr>fr_src_ipv4 = 0, fr_dst_ipv4 = 0, fr_src_port = 0, fr_dst_port = 0,
     fr_l4_proto = 0, fr_reserved = (0, 0, 0), fr_action = zero_action\<rparr>"

definition zero_route_rule :: dp_route_rule where
  "zero_route_rule = \<lparr>rr_prefix = 0, rr_depth = 0, rr_reserved = (0, 0, 0),
     rr_action = zero_action\<rparr>"

definition zero_packet_stats :: dp_packet_stats where
  "zero_packet_stats = \<lparr>ps_rx = 0, ps_parse_ok = 0, ps_parse_unsupported = 0,
     ps_parse_malformed = 0, ps_flow_hit = 0, ps_route_hit = 0, ps_lookup_miss = 0,
     ps_action_drop = 0, ps_action_forward = 0, ps_action_rewrite = 0, ps_tx_accepted = 0,
     ps_tx_unsent = 0, ps_drop = 0, ps_rx_bursts = 0, ps_rx_empty_polls = 0, ps_tx_bursts = 0\<rparr>"

section \<open>Packet metadata\<close>

record dp_packet_meta =
  pm_ether_type :: u16
  pm_src_ipv4 :: u32
  pm_dst_ipv4 :: u32
  pm_l4_proto :: u8
  pm_src_port :: u16
  pm_dst_port :: u16
  pm_l2_len :: u16
  pm_l3_len :: u16
  pm_l4_len :: u16
  pm_l4_offset :: u16

definition zero_meta :: dp_packet_meta where
  "zero_meta = \<lparr>pm_ether_type = 0, pm_src_ipv4 = 0, pm_dst_ipv4 = 0, pm_l4_proto = 0,
     pm_src_port = 0, pm_dst_port = 0, pm_l2_len = 0, pm_l3_len = 0, pm_l4_len = 0,
     pm_l4_offset = 0\<rparr>"

datatype dp_parse_result = DP_PARSE_OK | DP_PARSE_UNSUPPORTED | DP_PARSE_MALFORMED

section \<open>Packet buffers\<close>

text \<open>
  The members of DPDK's \<open>struct rte_mbuf\<close> the code reads, with the bytes from
  \<open>rte_pktmbuf_mtod\<close> to the end of the buffer's room. \<open>mbuf_wf\<close> is DPDK's documented
  invariant of a received mbuf: its \<open>data_len\<close> bytes lie inside the buffer.
\<close>

record rte_mbuf =
  nb_segs :: u16
  pkt_len :: u32
  data_len :: u16
  mbuf_data :: bytes

definition mbuf_wf :: "rte_mbuf \<Rightarrow> bool" where
  "mbuf_wf m \<longleftrightarrow> unat (data_len m) \<le> length (mbuf_data m)"

end
