(* ===== verification/Dp_Parser.thy ===== *)
theory Dp_Parser
  imports Dp_Api
begin

text \<open>
  The packet parser (\<open>dp_parser.c\<close>). Each C function is a definition over the frame's bytes
  and the metadata struct it fills; every header read goes through a bounds-checked access,
  so \<open>None\<close> is a read outside the mbuf's buffer and the absence of \<open>None\<close> is memory safety.
  The result pairs the return code with the metadata as the function leaves it. The offsets
  are those of the Ethernet, IPv4 (RFC 791), TCP (RFC 793) and UDP (RFC 768) headers, which
  the packed DPDK header structs lay out and \<open>dp_parser_test.c\<close> writes byte by byte.
\<close>

section \<open>Wire format\<close>

definition sizeof_ether_hdr :: nat where "sizeof_ether_hdr = 14"
definition sizeof_ipv4_hdr :: nat where "sizeof_ipv4_hdr = 20"
definition sizeof_tcp_hdr :: nat where "sizeof_tcp_hdr = 20"
definition sizeof_udp_hdr :: nat where "sizeof_udp_hdr = 8"

lemmas sizeof_defs = sizeof_ether_hdr_def sizeof_ipv4_hdr_def sizeof_tcp_hdr_def
  sizeof_udp_hdr_def

abbreviation (input) ether_type_off :: nat where "ether_type_off \<equiv> 12"
abbreviation (input) ipv4_total_length_off :: nat where "ipv4_total_length_off \<equiv> 2"
abbreviation (input) ipv4_fragment_offset_off :: nat where "ipv4_fragment_offset_off \<equiv> 6"
abbreviation (input) ipv4_next_proto_id_off :: nat where "ipv4_next_proto_id_off \<equiv> 9"
abbreviation (input) ipv4_hdr_checksum_off :: nat where "ipv4_hdr_checksum_off \<equiv> 10"
abbreviation (input) ipv4_src_addr_off :: nat where "ipv4_src_addr_off \<equiv> 12"
abbreviation (input) ipv4_dst_addr_off :: nat where "ipv4_dst_addr_off \<equiv> 16"
abbreviation (input) l4_src_port_off :: nat where "l4_src_port_off \<equiv> 0"
abbreviation (input) l4_dst_port_off :: nat where "l4_dst_port_off \<equiv> 2"
abbreviation (input) tcp_data_off_off :: nat where "tcp_data_off_off \<equiv> 12"
abbreviation (input) tcp_cksum_off :: nat where "tcp_cksum_off \<equiv> 16"
abbreviation (input) udp_dgram_len_off :: nat where "udp_dgram_len_off \<equiv> 4"
abbreviation (input) udp_dgram_cksum_off :: nat where "udp_dgram_cksum_off \<equiv> 6"

definition RTE_ETHER_TYPE_IPV4 :: u16 where "RTE_ETHER_TYPE_IPV4 = 0x0800"
definition RTE_IPV4_HDR_MF_FLAG :: u16 where "RTE_IPV4_HDR_MF_FLAG = 0x2000"
definition RTE_IPV4_HDR_OFFSET_MASK :: u16 where "RTE_IPV4_HDR_OFFSET_MASK = 0x1fff"
definition IPPROTO_TCP :: u8 where "IPPROTO_TCP = 6"
definition IPPROTO_UDP :: u8 where "IPPROTO_UDP = 17"

lemmas wire_consts = RTE_ETHER_TYPE_IPV4_def RTE_IPV4_HDR_MF_FLAG_def
  RTE_IPV4_HDR_OFFSET_MASK_def IPPROTO_TCP_def IPPROTO_UDP_def

section \<open>The parser\<close>

definition dp_parse_tcp ::
  "bytes \<Rightarrow> nat \<Rightarrow> u16 \<Rightarrow> dp_packet_meta \<Rightarrow> (dp_parse_result \<times> dp_packet_meta) option" where
  "dp_parse_tcp mem tcp payload_len meta =
     (if unat payload_len < sizeof_tcp_hdr then Some (DP_PARSE_MALFORMED, meta)
      else do {
        data_off \<leftarrow> rd8 mem (tcp + tcp_data_off_off);
        let data_offset_words = drop_bit 4 data_off;
        if data_offset_words < 5 then Some (DP_PARSE_MALFORMED, meta)
        else do {
          let header_len = (ucast data_offset_words * 4 :: u16);
          if header_len > payload_len then Some (DP_PARSE_MALFORMED, meta)
          else do {
            src_port \<leftarrow> rd16be mem (tcp + l4_src_port_off);
            dst_port \<leftarrow> rd16be mem (tcp + l4_dst_port_off);
            Some (DP_PARSE_OK, meta\<lparr>pm_src_port := src_port, pm_dst_port := dst_port,
                                   pm_l4_len := header_len\<rparr>)
          }
        }
      })"

definition dp_parse_udp ::
  "bytes \<Rightarrow> nat \<Rightarrow> u16 \<Rightarrow> dp_packet_meta \<Rightarrow> (dp_parse_result \<times> dp_packet_meta) option" where
  "dp_parse_udp mem udp payload_len meta =
     (if unat payload_len < sizeof_udp_hdr then Some (DP_PARSE_MALFORMED, meta)
      else do {
        datagram_len \<leftarrow> rd16be mem (udp + udp_dgram_len_off);
        if unat datagram_len < sizeof_udp_hdr \<or> datagram_len > payload_len
        then Some (DP_PARSE_MALFORMED, meta)
        else do {
          src_port \<leftarrow> rd16be mem (udp + l4_src_port_off);
          dst_port \<leftarrow> rd16be mem (udp + l4_dst_port_off);
          Some (DP_PARSE_OK, meta\<lparr>pm_src_port := src_port, pm_dst_port := dst_port,
                                 pm_l4_len := word_of_nat sizeof_udp_hdr\<rparr>)
        }
      })"

text \<open>
  \<open>frame_len - meta->l2_len\<close> is computed in \<open>int\<close> after the promotion of both operands, so
  the two comparisons with it are on integers.
\<close>

definition dp_parse_ipv4 ::
  "bytes \<Rightarrow> u16 \<Rightarrow> dp_packet_meta \<Rightarrow> (dp_parse_result \<times> dp_packet_meta) option" where
  "dp_parse_ipv4 mem frame_len meta =
     (if unat frame_len < unat (pm_l2_len meta) + sizeof_ipv4_hdr
      then Some (DP_PARSE_MALFORMED, meta)
      else do {
        let ipv4 = unat (pm_l2_len meta);
        version_ihl \<leftarrow> rd8 mem ipv4;
        let version = drop_bit 4 version_ihl;
        let ihl_words = version_ihl AND 0x0f;
        if version \<noteq> 4 \<or> ihl_words < 5 then Some (DP_PARSE_MALFORMED, meta)
        else do {
          let ihl_bytes = (ucast ihl_words * 4 :: u16);
          if uint ihl_bytes > uint frame_len - uint (pm_l2_len meta)
          then Some (DP_PARSE_MALFORMED, meta)
          else do {
            total_len \<leftarrow> rd16be mem (ipv4 + ipv4_total_length_off);
            if total_len < ihl_bytes \<or> uint total_len > uint frame_len - uint (pm_l2_len meta)
            then Some (DP_PARSE_MALFORMED, meta)
            else do {
              fragment \<leftarrow> rd16be mem (ipv4 + ipv4_fragment_offset_off);
              if fragment AND (RTE_IPV4_HDR_MF_FLAG OR RTE_IPV4_HDR_OFFSET_MASK) \<noteq> 0
              then Some (DP_PARSE_UNSUPPORTED, meta)
              else do {
                src \<leftarrow> rd32be mem (ipv4 + ipv4_src_addr_off);
                dst \<leftarrow> rd32be mem (ipv4 + ipv4_dst_addr_off);
                proto \<leftarrow> rd8 mem (ipv4 + ipv4_next_proto_id_off);
                let meta = meta\<lparr>pm_src_ipv4 := src, pm_dst_ipv4 := dst, pm_l4_proto := proto,
                  pm_l3_len := ihl_bytes, pm_l4_offset := pm_l2_len meta + ihl_bytes\<rparr>;
                let payload_len = total_len - ihl_bytes;
                let l4 = unat (pm_l4_offset meta);
                if pm_l4_proto meta = IPPROTO_TCP then dp_parse_tcp mem l4 payload_len meta
                else if pm_l4_proto meta = IPPROTO_UDP then dp_parse_udp mem l4 payload_len meta
                else Some (DP_PARSE_UNSUPPORTED, meta)
              }
            }
          }
        }
      })"

text \<open>
  The two pointer arguments are options, \<open>None\<close> for \<open>NULL\<close>. Where the function returns
  before \<open>memset\<close>, the metadata it was given is left as it was.
\<close>

definition dp_parse_packet ::
  "rte_mbuf option \<Rightarrow> dp_packet_meta option \<Rightarrow> (dp_parse_result \<times> dp_packet_meta option) option"
where
  "dp_parse_packet mbuf meta =
     (case (mbuf, meta) of
        (Some m, Some mt) \<Rightarrow>
          if nb_segs m \<noteq> 1 then Some (DP_PARSE_UNSUPPORTED, meta)
          else if pkt_len m \<noteq> ucast (data_len m) \<or> pkt_len m > 0xffff
          then Some (DP_PARSE_MALFORMED, meta)
          else do {
            let mt = zero_meta;
            if unat (data_len m) < sizeof_ether_hdr then Some (DP_PARSE_MALFORMED, Some mt)
            else do {
              let mem = mbuf_data m;
              ether_type \<leftarrow> rd16be mem ether_type_off;
              let mt = mt\<lparr>pm_ether_type := ether_type,
                          pm_l2_len := word_of_nat sizeof_ether_hdr\<rparr>;
              if pm_ether_type mt \<noteq> RTE_ETHER_TYPE_IPV4
              then Some (DP_PARSE_UNSUPPORTED, Some mt)
              else do {
                (r, mt) \<leftarrow> dp_parse_ipv4 mem (data_len m) mt;
                Some (r, Some mt)
              }
            }
          }
      | _ \<Rightarrow> Some (DP_PARSE_MALFORMED, meta))"

section \<open>Reference specification\<close>

text \<open>
  What the parser promises, in arithmetic on the frame's fields and independent of the code's
  control flow: the class of a frame of \<open>n\<close> bytes, and the metadata of an accepted frame.
\<close>


definition tcp_header_len :: "bytes \<Rightarrow> nat \<Rightarrow> nat" where
  "tcp_header_len mem tcp = 4 * (unat (mem ! (tcp + 12)) div 16)"

definition tcp_ok :: "bytes \<Rightarrow> nat \<Rightarrow> nat \<Rightarrow> bool" where
  "tcp_ok mem tcp payload \<longleftrightarrow>
     20 \<le> payload \<and> 20 \<le> tcp_header_len mem tcp \<and> tcp_header_len mem tcp \<le> payload"

definition udp_ok :: "bytes \<Rightarrow> nat \<Rightarrow> nat \<Rightarrow> bool" where
  "udp_ok mem udp payload \<longleftrightarrow>
     8 \<le> payload \<and> 8 \<le> unat (get16 mem (udp + 4)) \<and> unat (get16 mem (udp + 4)) \<le> payload"

definition ip_header_len :: "bytes \<Rightarrow> nat" where
  "ip_header_len mem = 4 * (unat (mem ! 14) mod 16)"

definition ip_total_len :: "bytes \<Rightarrow> nat" where
  "ip_total_len mem = unat (get16 mem 16)"

definition ip_payload_len :: "bytes \<Rightarrow> nat" where
  "ip_payload_len mem = ip_total_len mem - ip_header_len mem"

definition l4_start :: "bytes \<Rightarrow> nat" where
  "l4_start mem = 14 + ip_header_len mem"

definition ip_header_ok :: "bytes \<Rightarrow> nat \<Rightarrow> bool" where
  "ip_header_ok mem n \<longleftrightarrow> 34 \<le> n \<and> unat (mem ! 14) div 16 = 4 \<and> 20 \<le> ip_header_len mem \<and>
     ip_header_len mem \<le> ip_total_len mem \<and> ip_total_len mem \<le> n - 14"

definition ip_fragmented :: "bytes \<Rightarrow> bool" where
  "ip_fragmented mem \<longleftrightarrow> unat (get16 mem 20) mod 16384 \<noteq> 0"

definition classify_ipv4 :: "bytes \<Rightarrow> nat \<Rightarrow> dp_parse_result" where
  "classify_ipv4 mem n =
     (if \<not> ip_header_ok mem n then DP_PARSE_MALFORMED
      else if ip_fragmented mem then DP_PARSE_UNSUPPORTED
      else if mem ! 23 = IPPROTO_TCP then
        (if tcp_ok mem (l4_start mem) (ip_payload_len mem) then DP_PARSE_OK else DP_PARSE_MALFORMED)
      else if mem ! 23 = IPPROTO_UDP then
        (if udp_ok mem (l4_start mem) (ip_payload_len mem) then DP_PARSE_OK else DP_PARSE_MALFORMED)
      else DP_PARSE_UNSUPPORTED)"

definition classify_frame :: "bytes \<Rightarrow> nat \<Rightarrow> dp_parse_result" where
  "classify_frame mem n =
     (if n < 14 then DP_PARSE_MALFORMED
      else if get16 mem 12 \<noteq> RTE_ETHER_TYPE_IPV4 then DP_PARSE_UNSUPPORTED
      else classify_ipv4 mem n)"

definition l4_header_len :: "bytes \<Rightarrow> nat" where
  "l4_header_len mem = (if mem ! 23 = IPPROTO_TCP then tcp_header_len mem (l4_start mem) else 8)"

definition frame_meta :: "bytes \<Rightarrow> dp_packet_meta" where
  "frame_meta mem = \<lparr>pm_ether_type = get16 mem 12, pm_src_ipv4 = get32 mem 26,
     pm_dst_ipv4 = get32 mem 30, pm_l4_proto = mem ! 23, pm_src_port = get16 mem (l4_start mem),
     pm_dst_port = get16 mem (l4_start mem + 2), pm_l2_len = 14,
     pm_l3_len = word_of_nat (ip_header_len mem), pm_l4_len = word_of_nat (l4_header_len mem),
     pm_l4_offset = word_of_nat (l4_start mem)\<rparr>"

section \<open>Reading the code's word arithmetic as arithmetic on numbers\<close>


lemma unat_high_nibble: "unat (drop_bit 4 (b :: u8)) = unat b div 16"
  by (simp add: drop_bit_eq_div unat_div)

lemma unat_low_nibble: "unat ((b :: u8) AND 0x0f) = unat b mod 16"
proof -
  have "b AND 0x0f = take_bit 4 b"
    by (simp add: take_bit_eq_mask mask_eq_exp_minus_1)
  then show ?thesis by (simp add: unsigned_take_bit_eq take_bit_eq_mod unat_mod)
qed

lemma unat_words4: "unat (ucast (w :: u8) * 4 :: u16) = 4 * unat w"
proof -
  have "unat w < 256" by (rule unat_lt)
  then show ?thesis by (simp add: unat_word_ariths unat_ucast_mod)
qed

lemma fragment_mask: "(f :: u16) AND (RTE_IPV4_HDR_MF_FLAG OR RTE_IPV4_HDR_OFFSET_MASK) = 0 \<longleftrightarrow>
    unat f mod 16384 = 0"
proof -
  have "(RTE_IPV4_HDR_MF_FLAG OR RTE_IPV4_HDR_OFFSET_MASK :: u16) = mask 14"
    by (simp add: wire_consts mask_eq_exp_minus_1)
  then have "f AND (RTE_IPV4_HDR_MF_FLAG OR RTE_IPV4_HDR_OFFSET_MASK) = take_bit 14 f"
    by (simp add: take_bit_eq_mask)
  then show ?thesis
    by (simp add: word_unat_eq_iff [where w = 0] unsigned_take_bit_eq take_bit_eq_mod unat_mod)
qed


section \<open>The parser computes the reference specification\<close>

lemma dp_parse_tcp_eq:
  assumes "tcp + unat payload_len \<le> length mem"
  shows "dp_parse_tcp mem tcp payload_len meta = Some
    (if tcp_ok mem tcp (unat payload_len)
     then (DP_PARSE_OK, meta\<lparr>pm_src_port := get16 mem tcp, pm_dst_port := get16 mem (tcp + 2),
            pm_l4_len := word_of_nat (tcp_header_len mem tcp)\<rparr>)
     else (DP_PARSE_MALFORMED, meta))"
proof (cases "20 \<le> unat payload_len")
  case True
  let ?w = "drop_bit 4 (mem ! (tcp + 12))"
  have nib: "unat ?w = unat (mem ! (tcp + 12)) div 16" by (rule unat_high_nibble)
  have len: "ucast ?w * 4 = (word_of_nat (tcp_header_len mem tcp) :: u16)"
    by (rule word_unat_eq_iff [THEN iffD2])
      (use unat_lt(1) [of ?w] in \<open>simp add: unat_words4 nib tcp_header_len_def unat_of_nat del: of_nat_mult\<close>)
  have c1: "?w < 5 \<longleftrightarrow> tcp_header_len mem tcp < 20"
    by (simp add: word_less_nat_alt nib tcp_header_len_def)
  have c2: "(ucast ?w * 4 :: u16) > payload_len \<longleftrightarrow> tcp_header_len mem tcp > unat payload_len"
    by (simp add: word_less_nat_alt unat_words4 nib tcp_header_len_def)
  show ?thesis
    using True assms
    by (auto simp add: dp_parse_tcp_def sizeof_defs mem_simps c1 c2 Let_def len [symmetric] tcp_ok_def)
next
  case False
  then show ?thesis by (simp add: dp_parse_tcp_def sizeof_defs tcp_ok_def)
qed

lemma dp_parse_udp_eq:
  assumes "udp + unat payload_len \<le> length mem"
  shows "dp_parse_udp mem udp payload_len meta = Some
    (if udp_ok mem udp (unat payload_len)
     then (DP_PARSE_OK, meta\<lparr>pm_src_port := get16 mem udp, pm_dst_port := get16 mem (udp + 2),
            pm_l4_len := 8\<rparr>)
     else (DP_PARSE_MALFORMED, meta))"
  using assms
  by (auto simp add: dp_parse_udp_def sizeof_defs mem_simps udp_ok_def word_less_nat_alt)


lemma ip_header_len_bound: "ip_header_len mem \<le> 60"
  by (simp add: ip_header_len_def)

lemma dp_parse_ipv4_eq:
  assumes l2: "pm_l2_len meta = 14" and len: "unat n \<le> length mem"
  shows "\<exists>mt. dp_parse_ipv4 mem n meta = Some (classify_ipv4 mem (unat n), mt) \<and>
    (classify_ipv4 mem (unat n) = DP_PARSE_OK \<longrightarrow>
       mt = (frame_meta mem)\<lparr>pm_ether_type := pm_ether_type meta\<rparr>)"
proof (cases "34 \<le> unat n")
  case False
  then show ?thesis
    by (simp add: dp_parse_ipv4_def sizeof_defs l2 classify_ipv4_def ip_header_ok_def)
next
  case True
  define b where "b = mem ! 14"
  define h where "h = (ucast (b AND 0x0f) * 4 :: u16)"
  have hlen: "unat h = ip_header_len mem"
    by (simp add: h_def b_def unat_words4 unat_low_nibble ip_header_len_def)
  have h60: "unat h \<le> 60" using hlen ip_header_len_bound by simp
  have ver: "drop_bit 4 b = 4 \<longleftrightarrow> unat b div 16 = 4"
    unfolding word_unat_eq_iff unat_high_nibble by simp
  have ihl: "b AND 0x0f < 5 \<longleftrightarrow> ip_header_len mem < 20"
    by (simp add: word_less_nat_alt unat_low_nibble ip_header_len_def b_def)
  have c: "uint n - 14 = int (unat n - 14)"
    using True by (simp add: l2)
  have uint_unat: "uint w = int (unat w)" for w :: u16
    by simp
  have c1: "uint h > uint n - 14 \<longleftrightarrow> ip_header_len mem > unat n - 14"
    unfolding c unfolding uint_unat hlen by simp
  have c2: "get16 mem 16 < h \<or> uint (get16 mem 16) > uint n - 14 \<longleftrightarrow>
      \<not> (ip_header_len mem \<le> ip_total_len mem \<and> ip_total_len mem \<le> unat n - 14)"
    unfolding c unfolding uint_unat ip_total_len_def word_less_nat_alt hlen of_nat_less_iff by auto
  note unfolded = dp_parse_ipv4_def sizeof_defs Let_def mem_simps b_def [symmetric]
    h_def [symmetric] c1 c2 ihl ver
  show ?thesis
  proof (cases "ip_header_ok mem (unat n)")
    case False
    then show ?thesis
      using True len l2 by (auto simp add: unfolded classify_ipv4_def ip_header_ok_def)
  next
    case ok: True
    then have okD: "unat (mem ! 14) div 16 = 4" "20 \<le> ip_header_len mem"
      "ip_header_len mem \<le> ip_total_len mem" "ip_total_len mem \<le> unat n - 14"
      by (simp_all add: ip_header_ok_def)
    have hw: "h = word_of_nat (ip_header_len mem)"
      by (simp flip: hlen)
    have pay: "unat (get16 mem 16 - h) = ip_payload_len mem"
      using okD(3) by (simp add: unat_sub word_le_nat_alt hlen ip_payload_len_def ip_total_len_def)
    have off: "unat (14 + h) = l4_start mem"
      using h60 by (simp add: unat_word_ariths hlen l4_start_def)
    have offw: "14 + h = word_of_nat (l4_start mem)"
      by (simp flip: off)
    have fits: "l4_start mem + unat (get16 mem 16 - h) \<le> length mem"
      using okD True len by (simp add: pay l4_start_def ip_payload_len_def)
    show ?thesis
      using True len okD l2
      by (simp add: unfolded fragment_mask off dp_parse_tcp_eq [OF fits] dp_parse_udp_eq [OF fits]
          pay classify_ipv4_def ok ip_fragmented_def frame_meta_def l4_header_len_def hw [symmetric]
          offw [symmetric])
  qed
qed

lemma dp_parse_packet_spec:
  assumes wf: "mbuf_wf m" and one: "nb_segs m = 1" and len: "pkt_len m = ucast (data_len m)"
  shows "\<exists>mt. dp_parse_packet (Some m) (Some mt0) =
      Some (classify_frame (mbuf_data m) (unat (data_len m)), Some mt) \<and>
    (classify_frame (mbuf_data m) (unat (data_len m)) = DP_PARSE_OK \<longrightarrow>
       mt = frame_meta (mbuf_data m))"
proof -
  have big: "\<not> (ucast (data_len m) :: u32) > 0xffff"
    using unat_lt(2) [of "data_len m"] by (simp add: word_less_nat_alt unat_ucast_mod)
  show ?thesis
  proof (cases "14 \<le> unat (data_len m) \<and> get16 (mbuf_data m) 12 = RTE_ETHER_TYPE_IPV4")
    case False
    then show ?thesis
      using wf by (auto simp: dp_parse_packet_def one len big sizeof_defs mem_simps mbuf_wf_def
          classify_frame_def Let_def)
  next
    case True
    let ?mt = "zero_meta\<lparr>pm_ether_type := RTE_ETHER_TYPE_IPV4, pm_l2_len := 14\<rparr>"
    have "pm_l2_len ?mt = 14" by simp
    from dp_parse_ipv4_eq [OF this, of "data_len m" "mbuf_data m"] wf
    obtain mt where "dp_parse_ipv4 (mbuf_data m) (data_len m) ?mt =
        Some (classify_ipv4 (mbuf_data m) (unat (data_len m)), mt)"
      and "classify_ipv4 (mbuf_data m) (unat (data_len m)) = DP_PARSE_OK \<longrightarrow>
        mt = (frame_meta (mbuf_data m))\<lparr>pm_ether_type := pm_ether_type ?mt\<rparr>"
      by (auto simp: mbuf_wf_def)
    then show ?thesis
      using True wf by (auto simp: dp_parse_packet_def one len big sizeof_defs mem_simps mbuf_wf_def
          classify_frame_def Let_def frame_meta_def)
  qed
qed


section \<open>Accepted frames, and frames that agree on a prefix\<close>


text \<open>\<open>agree n a b\<close>: the buffers hold the same first \<open>n\<close> bytes.\<close>

definition agree :: "nat \<Rightarrow> bytes \<Rightarrow> bytes \<Rightarrow> bool" where
  "agree n a b \<longleftrightarrow> take n a = take n b \<and> n \<le> length a \<and> n \<le> length b"

lemma agree_nth: "agree n a b \<Longrightarrow> i < n \<Longrightarrow> a ! i = b ! i"
  unfolding agree_def by (metis nth_take)

lemma agree_get16: "agree n a b \<Longrightarrow> i + 1 < n \<Longrightarrow> get16 a i = get16 b i"
  by (simp add: get16_def agree_nth [of n a b])

lemma agree_get32: "agree n a b \<Longrightarrow> i + 3 < n \<Longrightarrow> get32 a i = get32 b i"
  by (simp add: get32_def agree_get16 [of n a b])

lemma classify_frame_agree:
  assumes ag: "agree n a b"
  shows "classify_frame a n = classify_frame b n"
proof (cases "34 \<le> n")
  case False
  then show ?thesis
    using agree_get16 [OF ag, of 12]
    by (auto simp: classify_frame_def classify_ipv4_def ip_header_ok_def)
next
  case True
  have hl: "ip_header_len a = ip_header_len b" and tl: "ip_total_len a = ip_total_len b"
    and b14: "a ! 14 = b ! 14" and b23: "a ! 23 = b ! 23" and fr: "get16 a 20 = get16 b 20"
    and et: "get16 a 12 = get16 b 12"
    using True agree_nth [OF ag, of 14] agree_nth [OF ag, of 23] agree_get16 [OF ag, of 16]
      agree_get16 [OF ag, of 20] agree_get16 [OF ag, of 12]
    by (simp_all add: ip_header_len_def ip_total_len_def)
  show ?thesis
  proof (cases "ip_header_ok b n")
    case False
    then show ?thesis
      using True by (simp add: classify_frame_def classify_ipv4_def ip_header_ok_def hl tl b14 et)
  next
    case ok: True
    have ls: "l4_start a = l4_start b" and pl: "ip_payload_len a = ip_payload_len b"
      by (simp_all add: l4_start_def ip_payload_len_def hl tl)
    have in_n: "l4_start b + ip_payload_len b \<le> n"
      using ok by (auto simp: ip_header_ok_def l4_start_def ip_payload_len_def)
    have "tcp_ok a (l4_start b) (ip_payload_len b) = tcp_ok b (l4_start b) (ip_payload_len b)"
      using in_n agree_nth [OF ag, of "l4_start b + 12"]
      by (auto simp: tcp_ok_def tcp_header_len_def)
    moreover have "udp_ok a (l4_start b) (ip_payload_len b) = udp_ok b (l4_start b) (ip_payload_len b)"
      using in_n agree_get16 [OF ag, of "l4_start b + 4"]
      by (auto simp: udp_ok_def)
    ultimately show ?thesis
      by (simp add: classify_frame_def classify_ipv4_def ip_header_ok_def ip_fragmented_def
          hl tl b14 b23 fr et ls pl)
  qed
qed

text \<open>What acceptance says about the frame, used by every later stage.\<close>

lemma accepted_frame:
  assumes "classify_frame mem n = DP_PARSE_OK"
  shows "34 \<le> n" "get16 mem 12 = RTE_ETHER_TYPE_IPV4" "20 \<le> ip_header_len mem"
    "ip_total_len mem \<le> n - 14" "ip_header_len mem \<le> ip_total_len mem"
    "l4_start mem + ip_payload_len mem \<le> n" "\<not> ip_fragmented mem"
    "mem ! 23 = IPPROTO_TCP \<or> mem ! 23 = IPPROTO_UDP"
    "mem ! 23 = IPPROTO_TCP \<Longrightarrow> tcp_ok mem (l4_start mem) (ip_payload_len mem)"
    "mem ! 23 = IPPROTO_UDP \<Longrightarrow> udp_ok mem (l4_start mem) (ip_payload_len mem)"
    "unat (mem ! 14) div 16 = 4"
  using assms
  by (auto simp: classify_frame_def classify_ipv4_def ip_header_ok_def l4_start_def
      ip_payload_len_def wire_consts split: if_splits)

lemma accepted_l4:
  assumes "classify_frame mem n = DP_PARSE_OK"
  shows "8 \<le> l4_header_len mem" "l4_start mem + l4_header_len mem \<le> 14 + ip_total_len mem"
    "14 + ip_total_len mem \<le> n" "mem ! 23 = IPPROTO_TCP \<Longrightarrow> 20 \<le> l4_header_len mem"
  using accepted_frame [OF assms]
  by (auto simp: l4_header_len_def tcp_ok_def udp_ok_def l4_start_def ip_payload_len_def)

lemma frame_meta_agree:
  assumes ag: "agree n a b" and ok: "classify_frame a n = DP_PARSE_OK"
  shows "frame_meta a = frame_meta b"
proof -
  note okf = accepted_frame [OF ok] accepted_l4 [OF ok]
  have n34: "34 \<le> n" by (rule okf(1))
  have hl: "ip_header_len a = ip_header_len b" and b23: "a ! 23 = b ! 23"
    using n34 agree_nth [OF ag, of 14] agree_nth [OF ag, of 23] by (simp_all add: ip_header_len_def)
  have ls: "l4_start b = l4_start a" by (simp add: l4_start_def hl)
  have tcp: "tcp_header_len a (l4_start a) = tcp_header_len b (l4_start a)"
    if "b ! 23 = IPPROTO_TCP"
    using okf agree_nth [OF ag, of "l4_start a + 12"] that b23
    by (simp add: tcp_header_len_def)
  show ?thesis
    using n34 okf agree_get16 [OF ag, of 12] agree_get32 [OF ag, of 26] agree_get32 [OF ag, of 30]
      agree_get16 [OF ag, of "l4_start a"] agree_get16 [OF ag, of "l4_start a + 2"] tcp
    by (simp add: frame_meta_def hl b23 ls l4_header_len_def)
qed

section \<open>The parser on packet buffers\<close>


definition parse_class :: "rte_mbuf \<Rightarrow> dp_parse_result" where
  "parse_class m =
     (if nb_segs m \<noteq> 1 then DP_PARSE_UNSUPPORTED
      else if pkt_len m \<noteq> ucast (data_len m) then DP_PARSE_MALFORMED
      else classify_frame (mbuf_data m) (unat (data_len m)))"

lemma dp_parse_packet_class:
  assumes "mbuf_wf m"
  shows "\<exists>mt. dp_parse_packet (Some m) (Some mt0) = Some (parse_class m, Some mt) \<and>
    (parse_class m = DP_PARSE_OK \<longrightarrow> mt = frame_meta (mbuf_data m))"
proof (cases "nb_segs m = 1 \<and> pkt_len m = ucast (data_len m)")
  case True
  with dp_parse_packet_spec [OF assms, of mt0] show ?thesis by (simp add: parse_class_def)
next
  case False
  then show ?thesis by (auto simp: dp_parse_packet_def parse_class_def)
qed

lemma dp_parse_packet_ok:
  assumes "mbuf_wf m" and "parse_class m = DP_PARSE_OK"
  shows "dp_parse_packet (Some m) (Some mt0) = Some (DP_PARSE_OK, Some (frame_meta (mbuf_data m)))"
  using dp_parse_packet_class [OF assms(1), of mt0] assms(2) by auto

lemma dp_parse_packet_okD:
  assumes "mbuf_wf m" and "dp_parse_packet (Some m) (Some mt0) = Some (DP_PARSE_OK, mt)"
  shows "parse_class m = DP_PARSE_OK" "mt = Some (frame_meta (mbuf_data m))"
    "nb_segs m = 1" "pkt_len m = ucast (data_len m)"
    "classify_frame (mbuf_data m) (unat (data_len m)) = DP_PARSE_OK"
  using dp_parse_packet_class [OF assms(1), of mt0] assms(2)
  by (auto simp: parse_class_def split: if_splits)

lemma dp_parse_packet_null [simp]:
  "dp_parse_packet None mt = Some (DP_PARSE_MALFORMED, mt)"
  "dp_parse_packet m None = Some (DP_PARSE_MALFORMED, None)"
  by (cases m; simp add: dp_parse_packet_def)+

lemma frame_meta_bounds:
  assumes ok: "classify_frame mem n = DP_PARSE_OK" and n: "n \<le> 65535"
  shows "unat (pm_l2_len (frame_meta mem)) = 14"
    "unat (pm_l3_len (frame_meta mem)) = ip_header_len mem"
    "unat (pm_l4_len (frame_meta mem)) = l4_header_len mem"
    "unat (pm_l4_offset (frame_meta mem)) = l4_start mem"
proof -
  note okf = accepted_frame [OF ok] accepted_l4 [OF ok]
  have "l4_header_len mem < 65536" "l4_start mem < 65536" "ip_header_len mem < 65536"
    using okf n by (simp_all add: l4_start_def)
  then show "unat (pm_l2_len (frame_meta mem)) = 14"
    "unat (pm_l3_len (frame_meta mem)) = ip_header_len mem"
    "unat (pm_l4_len (frame_meta mem)) = l4_header_len mem"
    "unat (pm_l4_offset (frame_meta mem)) = l4_start mem"
    by (simp_all add: frame_meta_def unat_of_nat)
qed

section \<open>Encoding packets\<close>

text \<open>
  The other direction of the parser: the frame that carries given addresses, ports and payload,
  as the RFCs lay it out. Options, padding behind the IP datagram and, for UDP, bytes of the IP
  payload behind the datagram are all allowed.
\<close>

datatype l4_packet =
    Tcp_packet (tcp_seq_ack: bytes) (tcp_reserved_bits: nat) (tcp_tail: bytes)
      (tcp_options: bytes) (tcp_payload: bytes)
  | Udp_packet (udp_cksum: u16) (udp_payload: bytes) (udp_slack: bytes)

record packet =
  pk_macs :: bytes
  pk_tos :: u8
  pk_id :: u16
  pk_dont_fragment :: bool
  pk_ttl :: u8
  pk_cksum :: u16
  pk_src :: u32
  pk_dst :: u32
  pk_options :: bytes
  pk_sport :: u16
  pk_dport :: u16
  pk_l4 :: l4_packet

definition enc16 :: "u16 \<Rightarrow> bytes" where
  "enc16 v = [hi16 v, lo16 v]"

definition enc32 :: "u32 \<Rightarrow> bytes" where
  "enc32 v = enc16 (hi32 v) @ enc16 (lo32 v)"

fun encode_l4 :: "u16 \<Rightarrow> u16 \<Rightarrow> l4_packet \<Rightarrow> bytes" where
  "encode_l4 sp dp (Tcp_packet seq_ack r tail opts payload) =
     enc16 sp @ enc16 dp @ seq_ack @ [word_of_nat (16 * (5 + length opts div 4) + r)] @ tail @
     opts @ payload"
| "encode_l4 sp dp (Udp_packet ck payload slack) =
     enc16 sp @ enc16 dp @ enc16 (word_of_nat (8 + length payload)) @ enc16 ck @ payload @ slack"

fun l4_proto :: "l4_packet \<Rightarrow> u8" where
  "l4_proto (Tcp_packet _ _ _ _ _) = IPPROTO_TCP"
| "l4_proto (Udp_packet _ _ _) = IPPROTO_UDP"

fun l4_hdr_len :: "l4_packet \<Rightarrow> nat" where
  "l4_hdr_len (Tcp_packet _ _ _ opts _) = 20 + length opts"
| "l4_hdr_len (Udp_packet _ _ _) = 8"

fun l4_wf :: "l4_packet \<Rightarrow> bool" where
  "l4_wf (Tcp_packet seq_ack r tail opts payload) \<longleftrightarrow>
     length seq_ack = 8 \<and> r < 16 \<and> length tail = 7 \<and> 4 dvd length opts \<and> length opts \<le> 40"
| "l4_wf (Udp_packet ck payload slack) \<longleftrightarrow> True"

definition encode_total :: "packet \<Rightarrow> nat" where
  "encode_total p = 20 + length (pk_options p) +
     length (encode_l4 (pk_sport p) (pk_dport p) (pk_l4 p))"

definition encode_headers :: "packet \<Rightarrow> bytes" where
  "encode_headers p = pk_macs p @ enc16 RTE_ETHER_TYPE_IPV4 @
     [word_of_nat (64 + (5 + length (pk_options p) div 4)), pk_tos p] @
     enc16 (word_of_nat (encode_total p)) @ enc16 (pk_id p) @
     [if pk_dont_fragment p then 0x40 else 0, 0, pk_ttl p, l4_proto (pk_l4 p)] @
     enc16 (pk_cksum p) @ enc32 (pk_src p) @ enc32 (pk_dst p)"

definition encode_packet :: "packet \<Rightarrow> bytes" where
  "encode_packet p =
     encode_headers p @ pk_options p @ encode_l4 (pk_sport p) (pk_dport p) (pk_l4 p)"

definition packet_wf :: "packet \<Rightarrow> bool" where
  "packet_wf p \<longleftrightarrow> length (pk_macs p) = 12 \<and> 4 dvd length (pk_options p) \<and>
     length (pk_options p) \<le> 40 \<and> l4_wf (pk_l4 p) \<and> 14 + encode_total p \<le> 65535"

definition packet_meta :: "packet \<Rightarrow> dp_packet_meta" where
  "packet_meta p = \<lparr>pm_ether_type = RTE_ETHER_TYPE_IPV4, pm_src_ipv4 = pk_src p,
     pm_dst_ipv4 = pk_dst p, pm_l4_proto = l4_proto (pk_l4 p), pm_src_port = pk_sport p,
     pm_dst_port = pk_dport p, pm_l2_len = 14,
     pm_l3_len = word_of_nat (20 + length (pk_options p)),
     pm_l4_len = word_of_nat (l4_hdr_len (pk_l4 p)),
     pm_l4_offset = word_of_nat (34 + length (pk_options p))\<rparr>"

lemma length_enc [simp]: "length (enc16 v) = 2" "length (enc32 w) = 4"
  by (simp_all add: enc16_def enc32_def)

lemma get16_append: "length xs \<le> i \<Longrightarrow> get16 (xs @ ys) i = get16 ys (i - length xs)"
  by (simp add: get16_def nth_append Suc_diff_le)

lemma get16_Cons: "0 < i \<Longrightarrow> get16 (x # ys) i = get16 ys (i - 1)"
  by (cases i) (simp_all add: get16_def)

lemma get16_two: "get16 (h # l # ys) 0 = be16 h l"
  by (simp add: get16_def)

lemma get32_Cons: "0 < i \<Longrightarrow> get32 (x # ys) i = get32 ys (i - 1)"
  by (cases i) (simp_all add: get32_def get16_Cons)

lemma get16_enc: "get16 (enc16 v @ ys) 0 = v"
  by (simp add: get16_def enc16_def)

lemma get32_append: "length xs \<le> i \<Longrightarrow> get32 (xs @ ys) i = get32 ys (i - length xs)"
  by (simp add: get32_def get16_append Suc_diff_le le_SucI)

lemma get32_enc: "get32 (enc32 v @ ys) 0 = v"
  by (simp add: get32_def get16_def enc32_def enc16_def)

lemma length_encode: "length (pk_macs p) = 12 \<Longrightarrow> length (encode_packet p) = 14 + encode_total p"
  by (simp add: encode_packet_def encode_headers_def encode_total_def)

lemma encode_fields:
  assumes "packet_wf p"
  shows "get16 (encode_packet p @ pad) 12 = RTE_ETHER_TYPE_IPV4"
    "ip_header_len (encode_packet p @ pad) = 20 + length (pk_options p)"
    "unat ((encode_packet p @ pad) ! 14) div 16 = 4"
    "ip_total_len (encode_packet p @ pad) = encode_total p"
    "\<not> ip_fragmented (encode_packet p @ pad)"
    "(encode_packet p @ pad) ! 23 = l4_proto (pk_l4 p)"
    "get32 (encode_packet p @ pad) 26 = pk_src p"
    "get32 (encode_packet p @ pad) 30 = pk_dst p"
proof -
  have mac: "length (pk_macs p) = 12" and opts: "4 dvd length (pk_options p)" "length (pk_options p) \<le> 40"
    and tot: "encode_total p < 65536"
    using assms by (simp_all add: packet_wf_def)
  note enc = encode_packet_def encode_headers_def mac get16_Cons get32_Cons get16_append get16_enc get32_append get32_enc nth_append
  show "get16 (encode_packet p @ pad) 12 = RTE_ETHER_TYPE_IPV4"
    by (simp add: enc)
  have b14: "(encode_packet p @ pad) ! 14 = word_of_nat (69 + length (pk_options p) div 4)"
    by (simp add: enc)
  have "length (pk_options p) div 4 \<le> 10" using opts by simp
  then have u14: "unat ((encode_packet p @ pad) ! 14) = 69 + length (pk_options p) div 4"
    unfolding b14 by (simp add: unat_of_nat del: of_nat_add)
  from opts show "ip_header_len (encode_packet p @ pad) = 20 + length (pk_options p)"
    unfolding ip_header_len_def u14
  proof (elim dvdE)
    fix j assume j: "length (pk_options p) = 4 * j" "length (pk_options p) \<le> 40"
    have "(69 + j) mod 16 = (5 + j + 16 * 4) mod 16" by simp
    also have "\<dots> = 5 + j" unfolding mod_mult_self2 using j by simp
    finally show "4 * ((69 + length (pk_options p) div 4) mod 16) = 20 + length (pk_options p)"
      using j by simp
  qed
  from opts show "unat ((encode_packet p @ pad) ! 14) div 16 = 4"
    unfolding u14 by simp
  show "ip_total_len (encode_packet p @ pad) = encode_total p"
    using tot by (simp add: ip_total_len_def enc unat_of_nat)
  show "\<not> ip_fragmented (encode_packet p @ pad)"
    by (simp add: ip_fragmented_def enc get16_two unat_be16)
  show "(encode_packet p @ pad) ! 23 = l4_proto (pk_l4 p)"
    by (simp add: enc)
  show "get32 (encode_packet p @ pad) 26 = pk_src p" "get32 (encode_packet p @ pad) 30 = pk_dst p"
    by (simp_all add: enc)
qed

lemma encode_l4_at:
  assumes "packet_wf p"
  shows "l4_start (encode_packet p @ pad) = 34 + length (pk_options p)"
    "drop (34 + length (pk_options p)) (encode_packet p @ pad) =
       encode_l4 (pk_sport p) (pk_dport p) (pk_l4 p) @ pad"
proof -
  show "l4_start (encode_packet p @ pad) = 34 + length (pk_options p)"
    by (simp add: l4_start_def encode_fields [OF assms])
  have "length (encode_headers p) = 34"
    using assms by (simp add: packet_wf_def encode_headers_def)
  then show "drop (34 + length (pk_options p)) (encode_packet p @ pad) =
      encode_l4 (pk_sport p) (pk_dport p) (pk_l4 p) @ pad"
    by (simp add: encode_packet_def drop_append)
qed

lemma nth_via_drop: "k \<le> length xs \<Longrightarrow> xs ! (k + i) = drop k xs ! i"
  by simp

lemma get16_via_drop: "k \<le> length xs \<Longrightarrow> get16 xs (k + i) = get16 (drop k xs) i"
  by (simp add: get16_def add.assoc)

lemma encode_accepted:
  assumes wf: "packet_wf p" and n: "14 + encode_total p \<le> n"
  shows "classify_frame (encode_packet p @ pad) n = DP_PARSE_OK"
    and "frame_meta (encode_packet p @ pad) = packet_meta p"
proof -
  let ?m = "encode_packet p @ pad" and ?k = "34 + length (pk_options p)"
  note f = encode_fields [OF wf, of pad] and at = encode_l4_at [OF wf, of pad]
  have tot: "20 + length (pk_options p) + 8 \<le> encode_total p"
    using wf by (cases "pk_l4 p") (auto simp: encode_total_def packet_wf_def)
  have k: "?k \<le> length ?m"
    using tot wf by (simp add: length_encode packet_wf_def)
  let ?e = "encode_l4 (pk_sport p) (pk_dport p) (pk_l4 p) @ pad"
  have ports: "get16 ?m (l4_start ?m) = pk_sport p" "get16 ?m (l4_start ?m + 2) = pk_dport p"
    unfolding at(1) get16_via_drop [OF k, of 0, unfolded add_0_right]
      get16_via_drop [OF k, of 2] at(2)
    by (cases "pk_l4 p"; simp add: get16_append get16_enc)+
  have pl: "ip_payload_len ?m = length (encode_l4 (pk_sport p) (pk_dport p) (pk_l4 p))"
    by (simp add: ip_payload_len_def f encode_total_def)
  have l4: "l4_header_len ?m = l4_hdr_len (pk_l4 p) \<and>
      (l4_proto (pk_l4 p) = IPPROTO_TCP \<longrightarrow> tcp_ok ?m (l4_start ?m) (ip_payload_len ?m)) \<and>
      (l4_proto (pk_l4 p) = IPPROTO_UDP \<longrightarrow> udp_ok ?m (l4_start ?m) (ip_payload_len ?m))"
  proof (cases "pk_l4 p")
    case (Tcp_packet sa r tail opts payload)
    with wf have w: "length sa = 8" "r < 16" "length tail = 7" "4 dvd length opts"
      "length opts \<le> 40"
      by (simp_all add: packet_wf_def)
    have "?m ! (l4_start ?m + 12) = word_of_nat (16 * (5 + length opts div 4) + r)"
      unfolding at(1) nth_via_drop [OF k] at(2) by (simp add: Tcp_packet nth_append w)
    moreover have "16 * (5 + length opts div 4) + r < 256" using w by simp
    ultimately have u: "unat (?m ! (l4_start ?m + 12)) = 16 * (5 + length opts div 4) + r"
      by (simp add: unat_of_nat del: of_nat_add of_nat_mult)
    have "(16 * a + r) div 16 = a" for a using w by simp
    then have "tcp_header_len ?m (l4_start ?m) = 4 * (5 + length opts div 4)"
      unfolding tcp_header_len_def u by (simp only:)
    then have "tcp_header_len ?m (l4_start ?m) = 20 + length opts" using w by simp
    then show ?thesis
      by (simp add: l4_header_len_def tcp_ok_def pl Tcp_packet f w wire_consts)
  next
    case (Udp_packet ck payload slack)
    have "get16 ?m (l4_start ?m + 4) = word_of_nat (8 + length payload)"
      unfolding at(1) get16_via_drop [OF k] at(2)
      by (simp add: Udp_packet get16_append get16_enc)
    moreover have "8 + length payload < 65536"
      using wf by (simp add: packet_wf_def encode_total_def Udp_packet)
    ultimately have "unat (get16 ?m (l4_start ?m + 4)) = 8 + length payload"
      by (simp add: unat_of_nat del: of_nat_add)
    then show ?thesis
      by (simp add: l4_header_len_def udp_ok_def pl Udp_packet f wire_consts)
  qed
  have "ip_header_ok ?m n"
    using n tot by (simp add: ip_header_ok_def f)
  moreover have "l4_proto (pk_l4 p) = IPPROTO_TCP \<or> l4_proto (pk_l4 p) = IPPROTO_UDP"
    by (cases "pk_l4 p") simp_all
  ultimately show "classify_frame ?m n = DP_PARSE_OK"
    using l4 n tot by (auto simp: classify_frame_def classify_ipv4_def f)
  show "frame_meta ?m = packet_meta p"
    using l4 ports by (simp add: frame_meta_def packet_meta_def f at)
qed

definition frame_mbuf :: "bytes \<Rightarrow> rte_mbuf" where
  "frame_mbuf bs = \<lparr>nb_segs = 1, pkt_len = word_of_nat (length bs),
     data_len = word_of_nat (length bs), mbuf_data = bs\<rparr>"

definition sample_packet :: packet where
  "sample_packet = \<lparr>pk_macs = replicate 12 1, pk_tos = 0, pk_id = 7, pk_dont_fragment = True,
     pk_ttl = 64, pk_cksum = 0, pk_src = 0xc0000201, pk_dst = 0xc6336402, pk_options = replicate 4 1,
     pk_sport = 12345, pk_dport = 443,
     pk_l4 = Tcp_packet (replicate 8 0) 0 (replicate 7 0) (replicate 4 1) [104, 105]\<rparr>"

lemma frame_mbuf_ok:
  assumes "length bs \<le> 65535"
  shows "mbuf_wf (frame_mbuf bs)" "nb_segs (frame_mbuf bs) = 1"
    "pkt_len (frame_mbuf bs) = ucast (data_len (frame_mbuf bs))"
    "unat (data_len (frame_mbuf bs)) = length bs" "mbuf_data (frame_mbuf bs) = bs"
proof -
  have "length bs < 65536" using assms by simp
  then show l: "unat (data_len (frame_mbuf bs)) = length bs"
    by (simp add: frame_mbuf_def unat_of_nat)
  then show "mbuf_wf (frame_mbuf bs)" by (simp add: mbuf_wf_def frame_mbuf_def)
  have "unat (ucast (data_len (frame_mbuf bs)) :: u32) = length bs"
    using l assms by (simp add: unat_ucast_mod)
  moreover have "unat (pkt_len (frame_mbuf bs)) = length bs"
    using assms by (simp add: frame_mbuf_def unat_of_nat)
  ultimately show "pkt_len (frame_mbuf bs) = ucast (data_len (frame_mbuf bs))"
    by (simp add: word_unat_eq_iff)
qed (simp_all add: frame_mbuf_def)

lemma sample_packet_wf: "packet_wf sample_packet"
  by (simp add: packet_wf_def sample_packet_def encode_total_def)

lemma sample_packet_total: "encode_total sample_packet = 50"
  by (simp add: encode_total_def sample_packet_def)

lemma sample_packet_accepted:
  "parse_class (frame_mbuf (encode_packet sample_packet)) = DP_PARSE_OK"
  "mbuf_wf (frame_mbuf (encode_packet sample_packet))"
  "nb_segs (frame_mbuf (encode_packet sample_packet)) = 1"
proof -
  have len: "length (encode_packet sample_packet) = 64"
    using sample_packet_wf by (simp add: length_encode sample_packet_total packet_wf_def)
  then have ok: "length (encode_packet sample_packet) \<le> 65535" by simp
  have "classify_frame (encode_packet sample_packet @ []) 64 = DP_PARSE_OK"
    by (rule encode_accepted(1) [OF sample_packet_wf]) (simp add: sample_packet_total)
  then show "parse_class (frame_mbuf (encode_packet sample_packet)) = DP_PARSE_OK"
    using frame_mbuf_ok [OF ok] by (simp add: parse_class_def len)
  show "mbuf_wf (frame_mbuf (encode_packet sample_packet))"
    "nb_segs (frame_mbuf (encode_packet sample_packet)) = 1"
    using frame_mbuf_ok [OF ok] by simp_all
qed

section \<open>Properties\<close>

text \<open>
  C8. The parser never reads outside the packet buffer: whatever bytes, lengths and segment
  count a received mbuf carries, no header access is out of bounds, NULL arguments included.
\<close>

theorem parser_memory_safe:
  assumes "\<And>m. mbuf = Some m \<Longrightarrow> mbuf_wf m"
  shows "dp_parse_packet mbuf meta \<noteq> None"
proof (cases "mbuf = None \<or> meta = None")
  case True
  then show ?thesis by auto
next
  case False
  then obtain m mt0 where "mbuf = Some m" "meta = Some mt0" by auto
  with dp_parse_packet_class [of m mt0] assms show ?thesis by auto
qed

theorem parser_memory_safe_witness:
  "dp_parse_packet (Some (frame_mbuf (encode_packet sample_packet))) (Some zero_meta) \<noteq> None"
  by (rule parser_memory_safe) (simp add: sample_packet_accepted)

text \<open>
  C7. The parser decides exactly the reference classification: the return code is the class of
  the frame (segment count first, then length consistency, Ethernet, IPv4, fragmentation, TCP or
  UDP), and an accepted frame yields the metadata of its headers.
\<close>

theorem parser_classifies:
  assumes "mbuf_wf m"
  shows "\<exists>mt. dp_parse_packet (Some m) (Some mt0) = Some (parse_class m, Some mt) \<and>
    (parse_class m = DP_PARSE_OK \<longrightarrow> mt = frame_meta (mbuf_data m))"
  by (rule dp_parse_packet_class [OF assms])

theorem parser_classifies_witness:
  "\<exists>mt. dp_parse_packet (Some (frame_mbuf (encode_packet sample_packet))) (Some zero_meta) =
      Some (DP_PARSE_OK, Some mt) \<and> mt = frame_meta (encode_packet sample_packet)"
  using parser_classifies [OF sample_packet_accepted(2), of zero_meta]
  by (simp add: sample_packet_accepted) (simp add: frame_mbuf_def)

text \<open>
  C34. Parsing inverts encoding: a frame laid out by the RFCs, with any IPv4 and TCP options, any
  payload, any UDP slack and any Ethernet padding, is accepted with exactly its addresses,
  protocol, ports and header lengths.
\<close>

theorem parse_encode:
  assumes "packet_wf p" and "14 + encode_total p + length pad \<le> 65535"
  shows "dp_parse_packet (Some (frame_mbuf (encode_packet p @ pad))) (Some mt0) =
    Some (DP_PARSE_OK, Some (packet_meta p))"
proof -
  have len: "length (encode_packet p @ pad) = 14 + encode_total p + length pad"
    using assms(1) by (simp add: length_encode packet_wf_def)
  note mb = frame_mbuf_ok [of "encode_packet p @ pad", unfolded len, OF assms(2)]
  have "classify_frame (encode_packet p @ pad) (14 + encode_total p + length pad) = DP_PARSE_OK"
    by (rule encode_accepted(1) [OF assms(1)]) simp
  with dp_parse_packet_spec [OF mb(1-3), of mt0] show ?thesis
    by (auto simp: mb(4-5) encode_accepted(2) [OF assms(1) order_refl])
qed

theorem parse_encode_witness:
  "dp_parse_packet (Some (frame_mbuf (encode_packet sample_packet @ [0, 0]))) (Some zero_meta) =
    Some (DP_PARSE_OK, Some (packet_meta sample_packet))"
  by (rule parse_encode) (simp_all add: sample_packet_wf sample_packet_total)

text \<open>
  C37. The metadata of an accepted packet stays inside the packet: the header lengths have their
  protocol's range and the L4 header ends within the IP datagram, which ends within the
  received bytes. Later stages may follow the offsets without a check.
\<close>

theorem parser_meta_in_bounds:
  assumes "mbuf_wf m" and "dp_parse_packet (Some m) (Some mt0) = Some (DP_PARSE_OK, Some mt)"
  shows "pm_l2_len mt = 14 \<and> 20 \<le> pm_l3_len mt \<and> pm_l3_len mt \<le> 60 \<and>
    pm_l4_offset mt = pm_l2_len mt + pm_l3_len mt \<and>
    (pm_l4_proto mt = IPPROTO_TCP \<and> 20 \<le> pm_l4_len mt \<or>
     pm_l4_proto mt = IPPROTO_UDP \<and> pm_l4_len mt = 8) \<and>
    unat (pm_l4_offset mt) + unat (pm_l4_len mt) \<le> 14 + unat (get16 (mbuf_data m) 16) \<and>
    14 + unat (get16 (mbuf_data m) 16) \<le> unat (data_len m) \<and>
    unat (data_len m) \<le> length (mbuf_data m)"
proof -
  note ok = dp_parse_packet_okD [OF assms]
  let ?mem = "mbuf_data m"
  have mt: "mt = frame_meta ?mem" using ok(2) by simp
  have n: "unat (data_len m) \<le> 65535" using unat_lt(2) [of "data_len m"] by simp
  note b = frame_meta_bounds [OF ok(5) n] and okf = accepted_frame [OF ok(5)]
    and okl = accepted_l4 [OF ok(5)]
  have "mt = frame_meta ?mem \<Longrightarrow> pm_l4_offset mt = pm_l2_len mt + pm_l3_len mt"
    using b okf ip_header_len_bound [of ?mem]
    by (simp add: word_unat_eq_iff unat_word_ariths l4_start_def)
  then show ?thesis
    using b okf okl ip_header_len_bound [of ?mem] assms(1)
    by (auto simp: mt word_le_nat_alt frame_meta_def l4_header_len_def ip_total_len_def
        mbuf_wf_def wire_consts)
qed

theorem parser_meta_in_bounds_witness:
  "pm_l4_offset (frame_meta (encode_packet sample_packet)) =
     pm_l2_len (frame_meta (encode_packet sample_packet)) +
     pm_l3_len (frame_meta (encode_packet sample_packet))"
proof -
  have "mbuf_data (frame_mbuf (encode_packet sample_packet)) = encode_packet sample_packet"
    by (simp add: frame_mbuf_def)
  with dp_parse_packet_ok [OF sample_packet_accepted(2,1), of zero_meta]
  show ?thesis
    using parser_meta_in_bounds [OF sample_packet_accepted(2), of zero_meta] by simp
qed

text \<open>
  Stale buffer bytes cannot influence the parser: two received mbufs with the same lengths
  that agree on their first \<open>data_len\<close> bytes get the same verdict and, when accepted, the same
  metadata.
\<close>

theorem parser_reads_only_packet:
  assumes "mbuf_wf m" and "mbuf_wf m'"
    and "nb_segs m' = nb_segs m" "pkt_len m' = pkt_len m" "data_len m' = data_len m"
    and "take (unat (data_len m)) (mbuf_data m') = take (unat (data_len m)) (mbuf_data m)"
  shows "map_option fst (dp_parse_packet (Some m') (Some mt0)) =
      map_option fst (dp_parse_packet (Some m) (Some mt0)) \<and>
    (dp_parse_packet (Some m) (Some mt0) = Some (DP_PARSE_OK, Some mt) \<longrightarrow>
     dp_parse_packet (Some m') (Some mt0) = Some (DP_PARSE_OK, Some mt))"
proof -
  have ag: "agree (unat (data_len m)) (mbuf_data m) (mbuf_data m')"
    using assms by (simp add: agree_def mbuf_wf_def)
  have cl: "parse_class m' = parse_class m"
    using classify_frame_agree [OF ag] by (simp add: parse_class_def assms(3-5))
  have "frame_meta (mbuf_data m') = frame_meta (mbuf_data m)" if "parse_class m = DP_PARSE_OK"
    using frame_meta_agree [OF ag] that by (simp add: parse_class_def split: if_splits)
  with dp_parse_packet_class [OF assms(1), of mt0] dp_parse_packet_class [OF assms(2), of mt0] cl
  show ?thesis by auto
qed

theorem parser_reads_only_packet_witness:
  "map_option fst (dp_parse_packet (Some (frame_mbuf (encode_packet sample_packet)\<lparr>
      mbuf_data := encode_packet sample_packet @ [9]\<rparr>)) (Some zero_meta)) =
    map_option fst
      (dp_parse_packet (Some (frame_mbuf (encode_packet sample_packet))) (Some zero_meta))"
proof -
  have l: "unat (data_len (frame_mbuf (encode_packet sample_packet))) = 64"
    "length (encode_packet sample_packet) = 64"
    using sample_packet_wf
    by (simp_all add: frame_mbuf_def unat_of_nat length_encode sample_packet_total packet_wf_def)
  show ?thesis
    by (rule parser_reads_only_packet [THEN conjunct1])
      (use sample_packet_accepted(2) in \<open>simp_all add: mbuf_wf_def l frame_mbuf_def unat_of_nat\<close>)
qed

end
