(* ===== verification/Dp_Action.thy ===== *)
theory Dp_Action
  imports Dp_Parser
begin

text \<open>
  Packet rewriting (\<open>dp_action.c\<close>). The two DPDK checksum routines are the parameter
  \<open>rte_cksum_ops\<close>; each takes the buffer and the offsets of the headers its C arguments point
  to, and its result is the number the stored \<open>rte_be16_t\<close> denotes. \<open>dp_apply_action\<close> follows
  the C function statement by statement over the buffer's bytes; \<open>None\<close> is an access outside
  the buffer.
\<close>

section \<open>The code\<close>

record rte_cksum_ops =
  ipv4_cksum :: "bytes \<Rightarrow> nat \<Rightarrow> u16"
  ipv4_udptcp_cksum :: "bytes \<Rightarrow> nat \<Rightarrow> nat \<Rightarrow> u16"

definition dp_apply_action ::
  "rte_cksum_ops \<Rightarrow> rte_mbuf option \<Rightarrow> dp_packet_meta option \<Rightarrow> dp_rule_action option \<Rightarrow>
   (int \<times> rte_mbuf option) option" where
  "dp_apply_action ck mbuf meta action =
     (case (mbuf, meta, action) of
        (Some m, Some mt, Some a) \<Rightarrow>
          if ra_type a = DP_ACTION_DROP \<or> ra_type a = DP_ACTION_FORWARD then Some (0, mbuf)
          else if ra_type a \<noteq> DP_ACTION_REWRITE \<or> ra_rewrite_mask a = 0 then Some (- EINVAL, mbuf)
          else do {
            let mem = mbuf_data m;
            let ipv4 = unat (pm_l2_len mt);
            let l4 = unat (pm_l4_offset mt);
            mem \<leftarrow> (if ra_rewrite_mask a AND DP_REWRITE_SRC_IPV4 \<noteq> 0
                    then wr32be mem (ipv4 + ipv4_src_addr_off) (ra_src_ipv4 a) else Some mem);
            mem \<leftarrow> (if ra_rewrite_mask a AND DP_REWRITE_DST_IPV4 \<noteq> 0
                    then wr32be mem (ipv4 + ipv4_dst_addr_off) (ra_dst_ipv4 a) else Some mem);
            if pm_l4_proto mt = IPPROTO_TCP then do {
              mem \<leftarrow> (if ra_rewrite_mask a AND DP_REWRITE_SRC_PORT \<noteq> 0
                      then wr16be mem (l4 + l4_src_port_off) (ra_src_port a) else Some mem);
              mem \<leftarrow> (if ra_rewrite_mask a AND DP_REWRITE_DST_PORT \<noteq> 0
                      then wr16be mem (l4 + l4_dst_port_off) (ra_dst_port a) else Some mem);
              mem \<leftarrow> wr16be mem (l4 + tcp_cksum_off) 0;
              mem \<leftarrow> wr16be mem (ipv4 + ipv4_hdr_checksum_off) 0;
              mem \<leftarrow> wr16be mem (ipv4 + ipv4_hdr_checksum_off) (ipv4_cksum ck mem ipv4);
              mem \<leftarrow> wr16be mem (l4 + tcp_cksum_off) (ipv4_udptcp_cksum ck mem ipv4 l4);
              Some (0, Some (m\<lparr>mbuf_data := mem\<rparr>))
            }
            else if pm_l4_proto mt = IPPROTO_UDP then do {
              mem \<leftarrow> (if ra_rewrite_mask a AND DP_REWRITE_SRC_PORT \<noteq> 0
                      then wr16be mem (l4 + l4_src_port_off) (ra_src_port a) else Some mem);
              mem \<leftarrow> (if ra_rewrite_mask a AND DP_REWRITE_DST_PORT \<noteq> 0
                      then wr16be mem (l4 + l4_dst_port_off) (ra_dst_port a) else Some mem);
              mem \<leftarrow> wr16be mem (l4 + udp_dgram_cksum_off) 0;
              mem \<leftarrow> wr16be mem (ipv4 + ipv4_hdr_checksum_off) 0;
              mem \<leftarrow> wr16be mem (ipv4 + ipv4_hdr_checksum_off) (ipv4_cksum ck mem ipv4);
              ipv4_total_length \<leftarrow> rd16be mem (ipv4 + ipv4_total_length_off);
              udp_length \<leftarrow> rd16be mem (l4 + udp_dgram_len_off);
              mem \<leftarrow> wr16be mem (ipv4 + ipv4_total_length_off) (pm_l3_len mt + udp_length);
              mem \<leftarrow> wr16be mem (l4 + udp_dgram_cksum_off) (ipv4_udptcp_cksum ck mem ipv4 l4);
              mem \<leftarrow> wr16be mem (ipv4 + ipv4_total_length_off) ipv4_total_length;
              Some (0, Some (m\<lparr>mbuf_data := mem\<rparr>))
            }
            else Some (- EINVAL, Some (m\<lparr>mbuf_data := mem\<rparr>))
          }
      | _ \<Rightarrow> Some (- EINVAL, mbuf))"

section \<open>Reference specification\<close>

text \<open>
  What a rewrite stores in the headers, by address: \<open>rewrite_fields\<close> writes the selected
  addresses and ports, \<open>rewrite_frame\<close> adds the two checksums. \<open>l4_cksum_at\<close> is the address of
  the TCP or UDP checksum.
\<close>

definition selects :: "dp_rule_action \<Rightarrow> u8 \<Rightarrow> bool" where
  "selects a b \<longleftrightarrow> ra_rewrite_mask a AND b \<noteq> 0"

definition rewrite_fields :: "dp_rule_action \<Rightarrow> nat \<Rightarrow> bytes \<Rightarrow> bytes" where
  "rewrite_fields a l4 mem =
     (let m1 = (if selects a DP_REWRITE_SRC_IPV4 then put32 mem 26 (ra_src_ipv4 a) else mem);
          m2 = (if selects a DP_REWRITE_DST_IPV4 then put32 m1 30 (ra_dst_ipv4 a) else m1);
          m3 = (if selects a DP_REWRITE_SRC_PORT then put16 m2 l4 (ra_src_port a) else m2)
      in if selects a DP_REWRITE_DST_PORT then put16 m3 (l4 + 2) (ra_dst_port a) else m3)"

definition l4_cksum_at :: "bytes \<Rightarrow> nat" where
  "l4_cksum_at mem = l4_start mem + (if mem ! 23 = IPPROTO_TCP then 16 else 6)"

definition with_ip_cksum :: "rte_cksum_ops \<Rightarrow> dp_rule_action \<Rightarrow> bytes \<Rightarrow> bytes" where
  "with_ip_cksum ck a mem =
     (let m0 = put16 (put16 (rewrite_fields a (l4_start mem) mem) (l4_cksum_at mem) 0) 24 0
      in put16 m0 24 (ipv4_cksum ck m0 14))"

definition rewrite_frame :: "rte_cksum_ops \<Rightarrow> dp_rule_action \<Rightarrow> bytes \<Rightarrow> bytes" where
  "rewrite_frame ck a mem =
     (let l4 = l4_start mem; at = l4_cksum_at mem; m1 = with_ip_cksum ck a mem
      in if mem ! 23 = IPPROTO_TCP then put16 m1 at (ipv4_udptcp_cksum ck m1 14 l4)
         else let m2 = put16 m1 16
                (word_of_nat (ip_header_len mem) + get16 mem (l4 + 4))
              in put16 (put16 m2 at (ipv4_udptcp_cksum ck m2 14 l4)) 16 (get16 mem 16))"

definition rewrite_meta :: "dp_rule_action \<Rightarrow> dp_packet_meta \<Rightarrow> dp_packet_meta" where
  "rewrite_meta a mt = mt\<lparr>
     pm_src_ipv4 := (if selects a DP_REWRITE_SRC_IPV4 then ra_src_ipv4 a else pm_src_ipv4 mt),
     pm_dst_ipv4 := (if selects a DP_REWRITE_DST_IPV4 then ra_dst_ipv4 a else pm_dst_ipv4 mt),
     pm_src_port := (if selects a DP_REWRITE_SRC_PORT then ra_src_port a else pm_src_port mt),
     pm_dst_port := (if selects a DP_REWRITE_DST_PORT then ra_dst_port a else pm_dst_port mt)\<rparr>"

text \<open>The addresses a rewrite may change.\<close>

definition rewritable :: "dp_rule_action \<Rightarrow> bytes \<Rightarrow> nat set" where
  "rewritable a mem = {24, 25, l4_cksum_at mem, l4_cksum_at mem + 1} \<union>
     (if selects a DP_REWRITE_SRC_IPV4 then {26..<30} else {}) \<union>
     (if selects a DP_REWRITE_DST_IPV4 then {30..<34} else {}) \<union>
     (if selects a DP_REWRITE_SRC_PORT then {l4_start mem, l4_start mem + 1} else {}) \<union>
     (if selects a DP_REWRITE_DST_PORT then {l4_start mem + 2, l4_start mem + 3} else {})"

section \<open>The code computes the reference rewrite\<close>


lemma length_rewrite_fields [simp]: "length (rewrite_fields a l4 mem) = length mem"
  by (simp add: rewrite_fields_def Let_def)

lemma length_rewrite_frame [simp]: "length (rewrite_frame ck a mem) = length mem"
  by (simp add: rewrite_frame_def with_ip_cksum_def Let_def)

lemma dp_apply_action_rewrite:
  assumes ok: "classify_frame (mbuf_data m) n = DP_PARSE_OK" and n: "n \<le> 65535"
    and len: "n \<le> length (mbuf_data m)"
    and ty: "ra_type a = DP_ACTION_REWRITE" and mask: "ra_rewrite_mask a \<noteq> 0"
  shows "dp_apply_action ck (Some m) (Some (frame_meta (mbuf_data m))) (Some a) =
    Some (0, Some (m\<lparr>mbuf_data := rewrite_frame ck a (mbuf_data m)\<rparr>))"
proof -
  let ?mem = "mbuf_data m"
  note okf = accepted_frame [OF ok] and okl = accepted_l4 [OF ok] and b = frame_meta_bounds [OF ok n]
  have l3: "pm_l3_len (frame_meta ?mem) = word_of_nat (ip_header_len ?mem)"
    and proto: "pm_l4_proto (frame_meta ?mem) = ?mem ! 23"
    by (simp_all add: frame_meta_def)
  have l4: "34 \<le> l4_start ?mem" using okf by (simp add: l4_start_def)
  from okf(8) show ?thesis
  proof
    assume tcp: "?mem ! 23 = IPPROTO_TCP"
    then have "l4_start ?mem + 20 \<le> length ?mem" using okl len by simp
    then show ?thesis
      using l4 tcp ty mask okf len
      by (simp add: dp_apply_action_def action_consts Let_def b proto mem_simps
          rewrite_frame_def with_ip_cksum_def rewrite_fields_def selects_def l4_cksum_at_def)
  next
    assume udp: "?mem ! 23 = IPPROTO_UDP"
    then have "l4_start ?mem + 8 \<le> length ?mem" using okl len by simp
    then show ?thesis
      using l4 udp ty mask okf len
      by (simp add: dp_apply_action_def action_consts Let_def b proto mem_simps l3
          rewrite_frame_def with_ip_cksum_def rewrite_fields_def selects_def l4_cksum_at_def
          wire_consts)
  qed
qed


lemma rewrite_fields_other:
  assumes "\<not> (selects a DP_REWRITE_SRC_IPV4 \<and> 26 \<le> i \<and> i < 30)"
    "\<not> (selects a DP_REWRITE_DST_IPV4 \<and> 30 \<le> i \<and> i < 34)"
    "\<not> (selects a DP_REWRITE_SRC_PORT \<and> (i = l4 \<or> i = l4 + 1))"
    "\<not> (selects a DP_REWRITE_DST_PORT \<and> (i = l4 + 2 \<or> i = l4 + 3))"
  shows "rewrite_fields a l4 mem ! i = mem ! i"
  using assms by (auto simp: rewrite_fields_def Let_def)

lemma rewrite_frame_other:
  assumes i: "i \<notin> rewritable a mem" and len: "34 \<le> length mem"
  shows "rewrite_frame ck a mem ! i = mem ! i"
proof -
  have f: "rewrite_fields a (l4_start mem) mem ! i = mem ! i"
    using i by (intro rewrite_fields_other) (auto simp: rewritable_def)
  have o: "i \<noteq> 24" "i \<noteq> 25" "i \<noteq> l4_cksum_at mem" "i \<noteq> l4_cksum_at mem + 1"
    using i by (auto simp: rewritable_def)
  consider "i = 16" | "i = 17" | "i \<noteq> 16" "i \<noteq> 17" by blast
  then show ?thesis
  proof cases
    case 3
    then show ?thesis using f o by (simp add: rewrite_frame_def with_ip_cksum_def Let_def)
  qed (use f o len in \<open>simp_all add: rewrite_frame_def with_ip_cksum_def Let_def put16_nth get16_def\<close>)
qed

text \<open>
  The parser looks at the lengths and kinds in the headers, never at what a rewrite changes:
  frames that agree on those bytes are classified alike.
\<close>

definition same_layout :: "bytes \<Rightarrow> bytes \<Rightarrow> bool" where
  "same_layout a b \<longleftrightarrow> length a = length b \<and>
     (\<forall>i. 12 \<le> i \<and> i < 24 \<longrightarrow> a ! i = b ! i) \<and> a ! (l4_start a + 4) = b ! (l4_start a + 4) \<and>
     a ! (l4_start a + 5) = b ! (l4_start a + 5) \<and> a ! (l4_start a + 12) = b ! (l4_start a + 12)"

lemma same_layoutD:
  assumes "same_layout a b"
  shows "ip_header_len b = ip_header_len a" "ip_total_len b = ip_total_len a"
    "l4_start b = l4_start a" "ip_payload_len b = ip_payload_len a" "b ! 23 = a ! 23"
    "classify_frame b n = classify_frame a n" "get16 b 12 = get16 a 12"
    "l4_header_len b = l4_header_len a" "get16 b 16 = get16 a 16"
    "get16 b (l4_start a + 4) = get16 a (l4_start a + 4)"
proof -
  have e: "\<And>i. 12 \<le> i \<Longrightarrow> i < 24 \<Longrightarrow> b ! i = a ! i" "b ! (l4_start a + 4) = a ! (l4_start a + 4)"
    "b ! (l4_start a + 5) = a ! (l4_start a + 5)" "b ! (l4_start a + 12) = a ! (l4_start a + 12)"
    using assms by (simp_all add: same_layout_def)
  show hl: "ip_header_len b = ip_header_len a" and tl: "ip_total_len b = ip_total_len a"
    and p: "b ! 23 = a ! 23" and et: "get16 b 12 = get16 a 12" and g16: "get16 b 16 = get16 a 16"
    by (simp_all add: ip_header_len_def ip_total_len_def get16_def e(1))
  show ls: "l4_start b = l4_start a" and pl: "ip_payload_len b = ip_payload_len a"
    by (simp_all add: l4_start_def ip_payload_len_def hl tl)
  have th: "tcp_header_len b (l4_start a) = tcp_header_len a (l4_start a)"
    by (simp add: tcp_header_len_def e(4))
  show dl: "get16 b (l4_start a + 4) = get16 a (l4_start a + 4)"
    using e(2,3) by (simp add: get16_def add.commute)
  show "l4_header_len b = l4_header_len a"
    by (simp add: l4_header_len_def ls p th)
  have "ip_header_ok b n = ip_header_ok a n"
    by (simp add: ip_header_ok_def hl tl e(1))
  moreover have "get16 b 20 = get16 a 20"
    by (simp add: get16_def e(1))
  moreover have "udp_ok b (l4_start a) k = udp_ok a (l4_start a) k"
    "tcp_ok b (l4_start a) k = tcp_ok a (l4_start a) k" for k
    unfolding udp_ok_def tcp_ok_def dl th by (rule refl)+
  ultimately show "classify_frame b n = classify_frame a n"
    unfolding classify_frame_def classify_ipv4_def ip_fragmented_def ls pl p et by (simp only:)
qed

lemma rewrite_same_layout:
  assumes ok: "classify_frame mem n = DP_PARSE_OK" and n: "n \<le> length mem"
  shows "same_layout mem (rewrite_frame ck a mem)"
proof -
  have l4: "34 \<le> l4_start mem" using accepted_frame [OF ok] by (simp add: l4_start_def)
  have len: "34 \<le> length mem" using accepted_frame(1) [OF ok] n by simp
  have lo: "i \<notin> rewritable a mem" if "12 \<le> i" "i < 24" for i
    using that l4 by (simp add: rewritable_def l4_cksum_at_def)
  have hi: "l4_start mem + k \<notin> rewritable a mem" if "k = 4 \<or> k = 5 \<or> k = 12" for k
    using that l4 by (auto simp: rewritable_def l4_cksum_at_def)
  show ?thesis
    unfolding same_layout_def
    by (intro conjI allI impI; simp add: rewrite_frame_other [OF lo len]
        rewrite_frame_other [OF hi len])
qed

lemma rewrite_fields_get:
  assumes l4: "34 \<le> l4" and len: "l4 + 4 \<le> length mem"
  shows "get32 (rewrite_fields a l4 mem) 26 =
      (if selects a DP_REWRITE_SRC_IPV4 then ra_src_ipv4 a else get32 mem 26)"
    "get32 (rewrite_fields a l4 mem) 30 =
      (if selects a DP_REWRITE_DST_IPV4 then ra_dst_ipv4 a else get32 mem 30)"
    "get16 (rewrite_fields a l4 mem) l4 =
      (if selects a DP_REWRITE_SRC_PORT then ra_src_port a else get16 mem l4)"
    "get16 (rewrite_fields a l4 mem) (l4 + 2) =
      (if selects a DP_REWRITE_DST_PORT then ra_dst_port a else get16 mem (l4 + 2))"
  using assms by (simp_all add: rewrite_fields_def Let_def)

lemma rewrite_frame_meta:
  assumes ok: "classify_frame mem n = DP_PARSE_OK" and n: "n \<le> length mem"
  shows "frame_meta (rewrite_frame ck a mem) = rewrite_meta a (frame_meta mem)"
proof -
  note d = same_layoutD [OF rewrite_same_layout [OF ok n, of ck a]]
  note okf = accepted_frame [OF ok] and okl = accepted_l4 [OF ok]
  have l4: "34 \<le> l4_start mem" using okf by (simp add: l4_start_def)
  have len: "l4_start mem + 4 \<le> length mem" using okl n by simp
  have at: "l4_start mem + 4 \<le> l4_cksum_at mem" by (simp add: l4_cksum_at_def)
  have "get32 (rewrite_frame ck a mem) i = get32 (rewrite_fields a (l4_start mem) mem) i"
    if "26 \<le> i" "i + 4 \<le> l4_start mem" for i
    using that at l4 by (simp add: rewrite_frame_def with_ip_cksum_def Let_def)
  moreover have "get16 (rewrite_frame ck a mem) i = get16 (rewrite_fields a (l4_start mem) mem) i"
    if "l4_start mem \<le> i" "i + 2 \<le> l4_start mem + 4" for i
    using that at l4 by (simp add: rewrite_frame_def with_ip_cksum_def Let_def)
  ultimately show ?thesis
    using l4 len by (simp add: frame_meta_def rewrite_meta_def d rewrite_fields_get
        rewrite_fields_get(4) [unfolded add_2_eq_Suc'])
qed

section \<open>Checksums\<close>

text \<open>
  RFC 1071: a block carries a valid checksum when the ones' complement sum of its 16-bit words
  is all ones, that is, when the plain sum is a positive multiple of 65535.
\<close>

definition cksum_valid :: "nat \<Rightarrow> bool" where
  "cksum_valid s \<longleftrightarrow> 0 < s \<and> 65535 dvd s"

fun word_sum :: "bytes \<Rightarrow> nat" where
  "word_sum [] = 0"
| "word_sum [a] = 256 * unat a"
| "word_sum (a # b # r) = 256 * unat a + unat b + word_sum r"

definition slice :: "nat \<Rightarrow> nat \<Rightarrow> bytes \<Rightarrow> bytes" where
  "slice off len mem = take len (drop off mem)"

definition ip_hdr_len_at :: "bytes \<Rightarrow> nat \<Rightarrow> nat" where
  "ip_hdr_len_at mem off = 4 * (unat (mem ! off) mod 16)"

definition ip_sum :: "bytes \<Rightarrow> nat \<Rightarrow> nat" where
  "ip_sum mem off = word_sum (slice off (ip_hdr_len_at mem off) mem)"

definition pseudo_header_sum :: "bytes \<Rightarrow> nat \<Rightarrow> nat \<Rightarrow> nat" where
  "pseudo_header_sum mem off len = unat (get16 mem (off + 12)) + unat (get16 mem (off + 14)) +
     unat (get16 mem (off + 16)) + unat (get16 mem (off + 18)) + unat (mem ! (off + 9)) + len"

definition l4_sum :: "bytes \<Rightarrow> nat \<Rightarrow> nat \<Rightarrow> nat \<Rightarrow> nat" where
  "l4_sum mem off l4 len = pseudo_header_sum mem off len + word_sum (slice l4 len mem)"

lemma word_sum_put16:
  "even k \<Longrightarrow> k + 1 < length xs \<Longrightarrow>
    word_sum (put16 xs k v) + unat (get16 xs k) = word_sum xs + unat v"
proof (induction xs arbitrary: k rule: word_sum.induct)
  case (3 a b r)
  show ?case
  proof (cases k)
    case 0
    then show ?thesis
      by (simp add: put16_def get16_def unat_be16 unat_hi16 unat_lo16)
  next
    case (Suc k1)
    with "3.prems" obtain j where j: "k = Suc (Suc j)" "even j"
      by (cases k1) auto
    then show ?thesis
      using "3.IH" [of j] "3.prems" by (simp add: put16_def get16_def)
  qed
qed simp_all

lemma slice_put16: "off + k + 2 \<le> length mem \<Longrightarrow> k + 2 \<le> len \<Longrightarrow>
    slice off len (put16 mem (off + k) v) = put16 (slice off len mem) k v"
  by (simp add: slice_def put16_def drop_update_swap take_update_swap add.assoc)

lemma get16_slice: "off + len \<le> length mem \<Longrightarrow> k + 2 \<le> len \<Longrightarrow>
    get16 (slice off len mem) k = get16 mem (off + k)"
  by (simp add: slice_def get16_def)

lemma slice_cong:
  assumes "length a = length b" and "\<And>i. off \<le> i \<Longrightarrow> i < off + len \<Longrightarrow> a ! i = b ! i"
  shows "slice off len a = slice off len b"
  using assms by (auto simp: slice_def intro!: nth_equalityI)

lemma word_sum_slice_put16:
  assumes "even k" "k + 2 \<le> len" "off + len \<le> length mem" "get16 mem (off + k) = 0"
  shows "word_sum (slice off len (put16 mem (off + k) v)) = word_sum (slice off len mem) + unat v"
  using assms word_sum_put16 [of k "slice off len mem" v]
  by (simp add: slice_put16 get16_slice) (simp add: slice_def)

text \<open>
  The interface of DPDK's checksum routines as their documentation states it: called with the
  checksum field zero, \<open>rte_ipv4_cksum\<close> and \<open>rte_ipv4_udptcp_cksum\<close> return the value that makes
  the header, and the L4 bytes with the pseudo header, carry a valid checksum. The L4 length is
  the one the routine derives, the total length minus the header length.
\<close>

locale rte_cksum_laws =
  fixes ck :: rte_cksum_ops
  assumes ipv4_cksum_law:
    "20 \<le> ip_hdr_len_at mem off \<Longrightarrow> off + ip_hdr_len_at mem off \<le> length mem \<Longrightarrow>
     get16 mem (off + 10) = 0 \<Longrightarrow>
     cksum_valid (ip_sum (put16 mem (off + 10) (ipv4_cksum ck mem off)) off)"
  and udptcp_cksum_law:
    "mem ! (off + 9) = IPPROTO_TCP \<and> at = 16 \<or> mem ! (off + 9) = IPPROTO_UDP \<and> at = 6 \<Longrightarrow>
     20 \<le> ip_hdr_len_at mem off \<Longrightarrow> unat (get16 mem (off + 2)) = ip_hdr_len_at mem off + len \<Longrightarrow>
     at + 2 \<le> len \<Longrightarrow> off + 20 \<le> l4 \<Longrightarrow> l4 + len \<le> length mem \<Longrightarrow> get16 mem (l4 + at) = 0 \<Longrightarrow>
     cksum_valid (l4_sum (put16 mem (l4 + at) (ipv4_udptcp_cksum ck mem off l4)) off l4 len)"

text \<open>An implementation of the interface by the RFC, for concrete inputs.\<close>

definition ones_fold :: "nat \<Rightarrow> nat" where
  "ones_fold s = (if s = 0 then 0 else (s - 1) mod 65535 + 1)"

definition rfc_cksum :: rte_cksum_ops where
  "rfc_cksum = \<lparr>
     ipv4_cksum = (\<lambda>mem off. word_of_nat (65535 - ones_fold (ip_sum mem off))),
     ipv4_udptcp_cksum = (\<lambda>mem off l4.
       let len = unat (get16 mem (off + 2)) - ip_hdr_len_at mem off;
           c = 65535 - ones_fold (l4_sum mem off l4 len)
       in word_of_nat (if c = 0 \<and> mem ! (off + 9) = IPPROTO_UDP then 65535 else c))\<rparr>"

lemma ones_fold_bound: "ones_fold s \<le> 65535"
  by (simp add: ones_fold_def Suc_leI less_Suc_eq_le [symmetric])

lemma ones_fold_complement:
  assumes "0 < s"
  shows "cksum_valid (s + (65535 - ones_fold s))"
proof -
  obtain t where t: "s = Suc t" using assms by (cases s) auto
  have "s + (65535 - ones_fold s) = t - t mod 65535 + 65535"
    using mod_less_divisor [of 65535 t] mod_less_eq_dividend [of t 65535]
    by (simp add: t ones_fold_def)
  then show ?thesis by (simp add: cksum_valid_def minus_mod_eq_mult_div)
qed

lemma cksum_valid_more: "cksum_valid s \<Longrightarrow> cksum_valid (s + 65535)"
  by (simp add: cksum_valid_def)

lemma ip_sum_pos:
  assumes "20 \<le> ip_hdr_len_at mem off" "off + ip_hdr_len_at mem off \<le> length mem"
  shows "0 < ip_sum mem off"
proof -
  obtain a b r where s: "slice off (ip_hdr_len_at mem off) mem = a # b # r"
  proof -
    have "2 \<le> length (slice off (ip_hdr_len_at mem off) mem)" using assms by (simp add: slice_def)
    then show ?thesis
      using that by (cases "slice off (ip_hdr_len_at mem off) mem" rule: word_sum.cases) auto
  qed
  have "slice off (ip_hdr_len_at mem off) mem ! 0 = mem ! off"
    using assms by (simp add: slice_def)
  then have "a = mem ! off" by (simp add: s)
  moreover have "mem ! off \<noteq> 0" using assms(1) by (auto simp: ip_hdr_len_at_def)
  ultimately show ?thesis by (simp add: ip_sum_def s unat_gt_0)
qed

interpretation rfc: rte_cksum_laws rfc_cksum
proof
  fix mem :: bytes and off
  assume a: "20 \<le> ip_hdr_len_at mem off" "off + ip_hdr_len_at mem off \<le> length mem"
    "get16 mem (off + 10) = 0"
  let ?v = "ipv4_cksum rfc_cksum mem off"
  have v: "unat ?v = 65535 - ones_fold (ip_sum mem off)"
    by (simp add: rfc_cksum_def unat_of_nat)
  have "ip_hdr_len_at (put16 mem (off + 10) ?v) off = ip_hdr_len_at mem off"
    by (simp add: ip_hdr_len_at_def)
  then have "ip_sum (put16 mem (off + 10) ?v) off = ip_sum mem off + unat ?v"
    using a by (simp add: ip_sum_def word_sum_slice_put16)
  then show "cksum_valid (ip_sum (put16 mem (off + 10) ?v) off)"
    by (simp add: v ones_fold_complement [OF ip_sum_pos [OF a(1,2)]])
next
  fix mem :: bytes and off at len l4
  assume p: "mem ! (off + 9) = IPPROTO_TCP \<and> at = 16 \<or> mem ! (off + 9) = IPPROTO_UDP \<and> at = 6"
    and a: "20 \<le> ip_hdr_len_at mem off" "unat (get16 mem (off + 2)) = ip_hdr_len_at mem off + len"
    "at + 2 \<le> len" "off + 20 \<le> l4" "l4 + len \<le> length mem" "get16 mem (l4 + at) = 0"
  let ?v = "ipv4_udptcp_cksum rfc_cksum mem off l4" and ?c = "65535 - ones_fold (l4_sum mem off l4 len)"
  have l: "unat (get16 mem (off + 2)) - ip_hdr_len_at mem off = len" using a(2) by simp
  note len = l l [unfolded add_2_eq_Suc']
  have v: "unat ?v = ?c \<or> unat ?v = ?c + 65535"
    by (simp add: rfc_cksum_def len Let_def unat_of_nat)
  have "pseudo_header_sum (put16 mem (l4 + at) ?v) off len = pseudo_header_sum mem off len"
    using a(4) by (simp add: pseudo_header_sum_def)
  moreover have "even at" using p by auto
  ultimately have s: "l4_sum (put16 mem (l4 + at) ?v) off l4 len = l4_sum mem off l4 len + unat ?v"
    using a by (simp add: l4_sum_def word_sum_slice_put16)
  have "0 < l4_sum mem off l4 len" using a(3) by (simp add: l4_sum_def pseudo_header_sum_def)
  then have valid: "cksum_valid (l4_sum mem off l4 len + ?c)" by (rule ones_fold_complement)
  from v have "l4_sum mem off l4 len + unat ?v = l4_sum mem off l4 len + ?c \<or>
      l4_sum mem off l4 len + unat ?v = l4_sum mem off l4 len + ?c + 65535"
    by linarith
  then show "cksum_valid (l4_sum (put16 mem (l4 + at) ?v) off l4 len)"
    unfolding s using valid cksum_valid_more [OF valid] by (elim disjE) (simp_all only:)
qed


lemma rewrite_lengths:
  assumes ok: "classify_frame mem n = DP_PARSE_OK" and n: "n \<le> length mem"
  shows "34 \<le> l4_start mem" "l4_start mem + ip_payload_len mem \<le> length mem"
    "l4_start mem + l4_header_len mem \<le> length mem" "l4_cksum_at mem + 2 \<le> l4_start mem + l4_header_len mem"
    "34 \<le> l4_cksum_at mem" "l4_start mem \<le> l4_cksum_at mem"
    "20 \<le> ip_header_len mem" "14 + ip_header_len mem \<le> length mem"
  using accepted_frame [OF ok] accepted_l4 [OF ok] n
  by (auto simp: l4_start_def l4_cksum_at_def)

lemma ip_sum_cong:
  assumes "length a = length b" "\<And>i. off \<le> i \<Longrightarrow> i < off + ip_hdr_len_at b off \<Longrightarrow> a ! i = b ! i"
    "a ! off = b ! off"
  shows "ip_sum a off = ip_sum b off"
proof -
  have h: "ip_hdr_len_at a off = ip_hdr_len_at b off" using assms(3) by (simp add: ip_hdr_len_at_def)
  show ?thesis
    unfolding ip_sum_def h using assms(1,2) by (auto intro!: arg_cong [where f = word_sum] slice_cong)
qed

lemma l4_sum_cong:
  assumes "length a = length b" "\<And>i. l4 \<le> i \<Longrightarrow> i < l4 + len \<Longrightarrow> a ! i = b ! i"
    "\<And>i. i = off + 9 \<or> off + 12 \<le> i \<and> i < off + 20 \<Longrightarrow> a ! i = b ! i"
  shows "l4_sum a off l4 len = l4_sum b off l4 len"
proof -
  have "slice l4 len a = slice l4 len b" using assms(1,2) by (rule slice_cong)
  moreover have "pseudo_header_sum a off len = pseudo_header_sum b off len"
    by (simp add: pseudo_header_sum_def get16_def assms(3))
  ultimately show ?thesis by (simp add: l4_sum_def)
qed

lemma ip_header_len_at: "ip_header_len mem = ip_hdr_len_at mem 14"
  by (simp add: ip_header_len_def ip_hdr_len_at_def)

definition l4_len :: "bytes \<Rightarrow> nat" where
  "l4_len mem = (if mem ! 23 = IPPROTO_TCP then ip_payload_len mem
     else unat (get16 mem (l4_start mem + 4)))"

lemma with_ip_cksum_facts:
  fixes ck a
  assumes ok: "classify_frame mem n = DP_PARSE_OK" and n: "n \<le> length mem"
  defines "m1 \<equiv> with_ip_cksum ck a mem"
  shows "length m1 = length mem" "get16 m1 (l4_cksum_at mem) = 0"
    "\<And>i. 12 \<le> i \<Longrightarrow> i < 24 \<Longrightarrow> m1 ! i = mem ! i"
proof -
  note l = rewrite_lengths [OF ok n]
  show "length m1 = length mem" by (simp add: m1_def with_ip_cksum_def Let_def)
  show "get16 m1 (l4_cksum_at mem) = 0"
    using l by (simp add: m1_def with_ip_cksum_def Let_def)
  show "m1 ! i = mem ! i" if "12 \<le> i" "i < 24" for i
    using l that by (simp add: m1_def with_ip_cksum_def Let_def rewrite_fields_other)
qed

context rte_cksum_laws
begin

lemma with_ip_cksum_valid:
  assumes ok: "classify_frame mem n = DP_PARSE_OK" and n: "n \<le> length mem"
  shows "cksum_valid (ip_sum (with_ip_cksum ck a mem) 14)"
proof -
  note l = rewrite_lengths [OF ok n]
  define m0 where "m0 = put16 (put16 (rewrite_fields a (l4_start mem) mem) (l4_cksum_at mem) 0) 24 0"
  have "m0 ! 14 = mem ! 14"
    using l by (simp add: m0_def rewrite_fields_other)
  then have h: "ip_hdr_len_at m0 14 = ip_header_len mem"
    by (simp add: ip_header_len_at ip_hdr_len_at_def)
  have len: "length m0 = length mem" by (simp add: m0_def)
  have "get16 m0 (14 + 10) = 0"
    using l by (simp add: m0_def)
  from ipv4_cksum_law [OF _ _ this] l h len
  show ?thesis by (simp add: with_ip_cksum_def m0_def [symmetric] Let_def)
qed

lemma rewrite_ip_cksum_valid:
  assumes ok: "classify_frame mem n = DP_PARSE_OK" and n: "n \<le> length mem"
  shows "cksum_valid (ip_sum (rewrite_frame ck a mem) 14)"
proof -
  note l = rewrite_lengths [OF ok n] and f = with_ip_cksum_facts [OF ok n, where ck = ck and a = a]
  have "ip_hdr_len_at (with_ip_cksum ck a mem) 14 = ip_header_len mem"
    using f(3) [of 14] by (simp add: ip_header_len_at ip_hdr_len_at_def)
  then have "rewrite_frame ck a mem ! i = with_ip_cksum ck a mem ! i"
    if "14 \<le> i" "i < 14 + ip_hdr_len_at (with_ip_cksum ck a mem) 14" for i
    using that l f(1) f(3) [of 16] f(3) [of 17]
    by (auto simp add: rewrite_frame_def Let_def l4_start_def put16_nth get16_def)
  then have "ip_sum (rewrite_frame ck a mem) 14 = ip_sum (with_ip_cksum ck a mem) 14"
    using l f(1) f(3) [of 14] rewrite_same_layout [OF ok n, of ck a]
    by (intro ip_sum_cong) (simp_all add: same_layout_def)
  with with_ip_cksum_valid [OF ok n, of a] show ?thesis by simp
qed

lemma rewrite_l4_cksum_valid:
  assumes ok: "classify_frame mem n = DP_PARSE_OK" and n: "n \<le> length mem" "n \<le> 65535"
  shows "cksum_valid (l4_sum (rewrite_frame ck a mem) 14 (l4_start mem) (l4_len mem))"
proof -
  note l = rewrite_lengths [OF ok n(1)] and f = with_ip_cksum_facts [OF ok n(1), where ck = ck and a = a]
    and okf = accepted_frame [OF ok]
  define m1 where "m1 = with_ip_cksum ck a mem"
  note f = f [folded m1_def]
  have hl: "ip_hdr_len_at m1 14 = ip_header_len mem"
    using f(3) [of 14] by (simp add: ip_header_len_at ip_hdr_len_at_def)
  have tot: "unat (get16 m1 16) = ip_header_len mem + ip_payload_len mem"
    using f(3) [of 16] f(3) [of 17] okf(5) by (simp add: get16_def ip_total_len_def ip_payload_len_def)
  from okf(8) show ?thesis
  proof
    assume tcp: "mem ! 23 = IPPROTO_TCP"
    then have at: "l4_cksum_at mem = l4_start mem + 16" by (simp add: l4_cksum_at_def)
    have "cksum_valid (l4_sum (put16 m1 (l4_start mem + 16)
        (ipv4_udptcp_cksum ck m1 14 (l4_start mem))) 14 (l4_start mem) (ip_payload_len mem))"
      using okf(9) [OF tcp] l tcp f(2) f(3) [of 23]
      by (intro udptcp_cksum_law) (simp_all add: f(1) hl tot at tcp_ok_def)
    then show ?thesis
      using tcp by (simp add: rewrite_frame_def m1_def [symmetric] Let_def l4_len_def at)
  next
    assume udp: "mem ! 23 = IPPROTO_UDP"
    then have nt: "mem ! 23 \<noteq> IPPROTO_TCP" and at: "l4_cksum_at mem = l4_start mem + 6"
      by (simp_all add: l4_cksum_at_def wire_consts)
    let ?ul = "get16 mem (l4_start mem + 4)"
    let ?tl = "word_of_nat (ip_header_len mem) + ?ul"
    define m2 where "m2 = put16 m1 16 ?tl"
    have "ip_header_len mem + unat ?ul < 65536"
      using okf(10) [OF udp] okf(4,5) n(2) by (auto simp: udp_ok_def ip_payload_len_def)
    then have tl: "unat ?tl = ip_header_len mem + unat ?ul"
      by (simp add: unat_word_ariths unat_of_nat)
    have m2: "length m2 = length mem" "ip_hdr_len_at m2 14 = ip_header_len mem"
      "m2 ! 23 = IPPROTO_UDP" "unat (get16 m2 16) = ip_header_len mem + unat ?ul"
      "get16 m2 (l4_start mem + 6) = 0"
      using hl udp f l at tl by (simp_all add: m2_def ip_hdr_len_at_def)
    have "cksum_valid (l4_sum (put16 m2 (l4_start mem + 6)
        (ipv4_udptcp_cksum ck m2 14 (l4_start mem))) 14 (l4_start mem) (unat ?ul))"
      using okf(10) [OF udp] l udp m2
      by (intro udptcp_cksum_law) (simp_all add: udp_ok_def)
    moreover have "l4_sum (put16 x 16 v) 14 (l4_start mem) k = l4_sum x 14 (l4_start mem) k"
      for x v k using l by (intro l4_sum_cong) auto
    ultimately show ?thesis
      using nt by (simp add: rewrite_frame_def m1_def [symmetric] m2_def [symmetric] Let_def
          l4_len_def at)
  qed
qed

end

section \<open>Actions on accepted packets\<close>

definition apply_spec :: "rte_cksum_ops \<Rightarrow> dp_rule_action \<Rightarrow> rte_mbuf \<Rightarrow> int \<times> rte_mbuf" where
  "apply_spec ck a m =
     (if ra_type a = DP_ACTION_DROP \<or> ra_type a = DP_ACTION_FORWARD then (0, m)
      else if ra_type a = DP_ACTION_REWRITE \<and> ra_rewrite_mask a \<noteq> 0
      then (0, m\<lparr>mbuf_data := rewrite_frame ck a (mbuf_data m)\<rparr>)
      else (- EINVAL, m))"

lemma apply_action_parsed:
  assumes "mbuf_wf m" and "dp_parse_packet (Some m) (Some mt0) = Some (DP_PARSE_OK, Some mt)"
  shows "dp_apply_action ck (Some m) (Some mt) (Some a) =
    Some (apsnd Some (apply_spec ck a m))"
proof -
  note ok = dp_parse_packet_okD [OF assms]
  have mt: "mt = frame_meta (mbuf_data m)" using ok(2) by simp
  have n: "unat (data_len m) \<le> 65535" using unat_lt(2) [of "data_len m"] by simp
  have len: "unat (data_len m) \<le> length (mbuf_data m)" using assms(1) by (simp add: mbuf_wf_def)
  show ?thesis
  proof (cases "ra_type a = DP_ACTION_REWRITE \<and> ra_rewrite_mask a \<noteq> 0")
    case True
    then show ?thesis
      using dp_apply_action_rewrite [OF ok(5) n len, of a ck]
      by (auto simp: mt apply_spec_def action_consts)
  next
    case False
    then show ?thesis by (auto simp: dp_apply_action_def apply_spec_def)
  qed
qed

lemma apply_spec_wf:
  "mbuf_wf m \<Longrightarrow> mbuf_wf (snd (apply_spec ck a m))"
  by (auto simp: apply_spec_def mbuf_wf_def)

definition sample_mbuf :: rte_mbuf where
  "sample_mbuf = frame_mbuf (encode_packet sample_packet)"

definition sample_rewrite :: dp_rule_action where
  "sample_rewrite = \<lparr>ra_type = 2, ra_rewrite_mask = 10, ra_reserved = 0, ra_src_ipv4 = 0,
     ra_dst_ipv4 = 0xcb007109, ra_src_port = 0, ra_dst_port = 8443\<rparr>"

lemma sample_mbuf_parses:
  "mbuf_wf sample_mbuf"
  "dp_parse_packet (Some sample_mbuf) (Some zero_meta) =
     Some (DP_PARSE_OK, Some (packet_meta sample_packet))"
proof -
  show "mbuf_wf sample_mbuf" by (simp add: sample_mbuf_def sample_packet_accepted)
  have "frame_meta (encode_packet sample_packet @ []) = packet_meta sample_packet"
    by (rule encode_accepted(2) [OF sample_packet_wf order_refl])
  then show "dp_parse_packet (Some sample_mbuf) (Some zero_meta) =
     Some (DP_PARSE_OK, Some (packet_meta sample_packet))"
    using dp_parse_packet_ok [OF sample_packet_accepted(2,1), of zero_meta]
    by (simp add: sample_mbuf_def) (simp add: frame_mbuf_def)
qed

lemma sample_rewrite_facts [simp]:
  "ra_type sample_rewrite = DP_ACTION_REWRITE" "ra_rewrite_mask sample_rewrite \<noteq> 0"
  by (simp_all add: sample_rewrite_def action_consts)

section \<open>Properties\<close>

text \<open>
  C9. On every packet the parser accepted, \<open>dp_apply_action\<close> computes the reference rewrite for
  every action, valid or not: DROP and FORWARD return 0 and leave the packet alone, a REWRITE
  with a nonzero mask returns 0 and stores exactly the reference frame, everything else returns
  \<open>-EINVAL\<close> and leaves the packet alone. No access leaves the buffer.
\<close>

theorem apply_action_correct:
  assumes "mbuf_wf m" and "dp_parse_packet (Some m) (Some mt0) = Some (DP_PARSE_OK, Some mt)"
  shows "dp_apply_action ck (Some m) (Some mt) (Some a) =
    Some (fst (apply_spec ck a m), Some (snd (apply_spec ck a m)))"
  using apply_action_parsed [OF assms] by (simp add: apsnd_def map_prod_def split_beta)

theorem apply_action_correct_witness:
  "dp_apply_action rfc_cksum (Some sample_mbuf) (Some (packet_meta sample_packet))
     (Some sample_rewrite) =
   Some (0, Some (sample_mbuf\<lparr>mbuf_data :=
     rewrite_frame rfc_cksum sample_rewrite (mbuf_data sample_mbuf)\<rparr>))"
  using apply_action_correct [OF sample_mbuf_parses, of rfc_cksum sample_rewrite]
  by (simp add: apply_spec_def) (simp add: action_consts)

text \<open>
  C35. A rewritten packet parses again, to the same metadata with exactly the selected addresses
  and ports replaced by the action's: the rewrite neither breaks the packet nor touches a field
  its mask does not select.
\<close>

theorem rewrite_then_parse:
  assumes "mbuf_wf m" and "dp_parse_packet (Some m) (Some mt0) = Some (DP_PARSE_OK, Some mt)"
    and "ra_type a = DP_ACTION_REWRITE" and "ra_rewrite_mask a \<noteq> 0"
  shows "\<exists>m'. dp_apply_action ck (Some m) (Some mt) (Some a) = Some (0, Some m') \<and>
    dp_parse_packet (Some m') (Some mt1) = Some (DP_PARSE_OK, Some (rewrite_meta a mt))"
proof -
  note ok = dp_parse_packet_okD [OF assms(1,2)]
  let ?m' = "m\<lparr>mbuf_data := rewrite_frame ck a (mbuf_data m)\<rparr>"
  have len: "unat (data_len m) \<le> length (mbuf_data m)" using assms(1) by (simp add: mbuf_wf_def)
  have "classify_frame (rewrite_frame ck a (mbuf_data m)) (unat (data_len m)) = DP_PARSE_OK"
    using same_layoutD(6) [OF rewrite_same_layout [OF ok(5) len]] ok(5) by simp
  then have "parse_class ?m' = DP_PARSE_OK" using ok(3,4) by (simp add: parse_class_def)
  moreover have "mbuf_wf ?m'" using len by (simp add: mbuf_wf_def)
  ultimately have "dp_parse_packet (Some ?m') (Some mt1) =
      Some (DP_PARSE_OK, Some (rewrite_meta a mt))"
    using dp_parse_packet_ok [of ?m' mt1] ok(2) rewrite_frame_meta [OF ok(5) len, of ck a] by simp
  moreover have "dp_apply_action ck (Some m) (Some mt) (Some a) = Some (0, Some ?m')"
    using apply_action_parsed [OF assms(1,2), of ck a] assms(3,4)
    by (simp add: apply_spec_def action_consts)
  ultimately show ?thesis by blast
qed

theorem rewrite_then_parse_witness:
  "\<exists>m'. dp_apply_action rfc_cksum (Some sample_mbuf) (Some (packet_meta sample_packet))
      (Some sample_rewrite) = Some (0, Some m') \<and>
    dp_parse_packet (Some m') (Some zero_meta) =
      Some (DP_PARSE_OK, Some (rewrite_meta sample_rewrite (packet_meta sample_packet)))"
  by (rule rewrite_then_parse [OF sample_mbuf_parses]) simp_all

text \<open>
  A rewrite changes nothing else: every byte outside the checksums and the selected fields
  keeps its value, the IPv4 total length that the UDP path shrinks for a moment included, and
  the buffer's lengths and segment count stay.
\<close>

theorem rewrite_leaves_rest:
  assumes "mbuf_wf m" and "dp_parse_packet (Some m) (Some mt0) = Some (DP_PARSE_OK, Some mt)"
    and "dp_apply_action ck (Some m) (Some mt) (Some a) = Some (r, Some m')"
    and "i \<notin> rewritable a (mbuf_data m)"
  shows "mbuf_data m' ! i = mbuf_data m ! i \<and> length (mbuf_data m') = length (mbuf_data m) \<and>
    m' = m\<lparr>mbuf_data := mbuf_data m'\<rparr>"
proof -
  note ok = dp_parse_packet_okD [OF assms(1,2)]
  have m': "m' = snd (apply_spec ck a m)"
    using apply_action_parsed [OF assms(1,2), of ck a] assms(3)
    by (cases "apply_spec ck a m") simp
  have "34 \<le> length (mbuf_data m)"
    using accepted_frame(1) [OF ok(5)] assms(1) by (simp add: mbuf_wf_def)
  then show ?thesis
    using rewrite_frame_other [OF assms(4)] by (auto simp: m' apply_spec_def)
qed

theorem rewrite_leaves_rest_witness:
  "\<exists>m'. dp_apply_action rfc_cksum (Some sample_mbuf) (Some (packet_meta sample_packet))
      (Some sample_rewrite) = Some (0, Some m') \<and> mbuf_data m' ! 16 = mbuf_data sample_mbuf ! 16"
proof -
  note ok = dp_parse_packet_okD [OF sample_mbuf_parses]
  have i: "16 \<notin> rewritable sample_rewrite (mbuf_data sample_mbuf)"
    using accepted_frame(3) [OF ok(5)]
    by (auto simp: rewritable_def l4_cksum_at_def l4_start_def)
  obtain m' where m': "dp_apply_action rfc_cksum (Some sample_mbuf)
      (Some (packet_meta sample_packet)) (Some sample_rewrite) = Some (0, Some m')"
    using apply_action_parsed [OF sample_mbuf_parses, of rfc_cksum sample_rewrite]
    by (auto simp: apply_spec_def action_consts)
  from rewrite_leaves_rest [OF sample_mbuf_parses m' i] m' show ?thesis by blast
qed

text \<open>
  C36. Given DPDK's checksum routines as documented, every rewritten packet carries valid
  checksums: the IPv4 header sums to all ones, and so do the TCP segment or the UDP datagram
  with the pseudo header, where the UDP length is the datagram's even when the IP payload is
  longer. The rewrites, the zeroing and the order of the two computations are all in play.
\<close>

theorem rewrite_checksums_valid:
  assumes "rte_cksum_laws ck" and "mbuf_wf m"
    and "dp_parse_packet (Some m) (Some mt0) = Some (DP_PARSE_OK, Some mt)"
    and "ra_type a = DP_ACTION_REWRITE" and "ra_rewrite_mask a \<noteq> 0"
  shows "\<exists>m'. dp_apply_action ck (Some m) (Some mt) (Some a) = Some (0, Some m') \<and>
    cksum_valid (ip_sum (mbuf_data m') 14) \<and>
    cksum_valid (l4_sum (mbuf_data m') 14 (unat (pm_l4_offset mt)) (l4_len (mbuf_data m)))"
proof -
  note ok = dp_parse_packet_okD [OF assms(2,3)]
  have n: "unat (data_len m) \<le> 65535" using unat_lt(2) [of "data_len m"] by simp
  have len: "unat (data_len m) \<le> length (mbuf_data m)" using assms(2) by (simp add: mbuf_wf_def)
  have "unat (pm_l4_offset mt) = l4_start (mbuf_data m)"
    using ok(2) frame_meta_bounds(4) [OF ok(5) n] by simp
  then show ?thesis
    using apply_action_parsed [OF assms(2,3), of ck a] assms(4,5)
      rte_cksum_laws.rewrite_ip_cksum_valid [OF assms(1) ok(5) len, of a]
      rte_cksum_laws.rewrite_l4_cksum_valid [OF assms(1) ok(5) len n, of a]
    by (simp add: apply_spec_def) (simp add: action_consts)
qed

theorem rewrite_checksums_valid_witness:
  "\<exists>m'. dp_apply_action rfc_cksum (Some sample_mbuf) (Some (packet_meta sample_packet))
      (Some sample_rewrite) = Some (0, Some m') \<and> cksum_valid (ip_sum (mbuf_data m') 14)"
  using rewrite_checksums_valid [OF rfc.rte_cksum_laws_axioms sample_mbuf_parses, of sample_rewrite]
  by auto

end
