(* ===== verification/Dp_Tables.thy ===== *)
theory Dp_Tables
  imports Dp_Api
begin

text \<open>
  DPDK's lookup tables as the rule code sees them. \<open>rte_hash\<close>, \<open>rte_lpm\<close> and the DPDK heap are
  not part of the repository, so a table is a value of an arbitrary type and every call is a
  field of a record of functions (\<open>rte_table_ops\<close>). Calls that may fail for reasons outside
  their arguments (allocation) also get the moment of the call, a number, so that two calls with
  equal arguments may differ; \<open>rte_errno\<close> is read at a moment too. The locale \<open>rte_table_laws\<close>
  states what the DPDK manual promises of these functions, over the map a table stands for. A
  reference implementation on association lists satisfies it.
\<close>

definition ENOENT :: int where [errno_simps]: "ENOENT = 2"

section \<open>Keys and parameters\<close>

record dp_flow_key =
  fk_src_ipv4 :: u32
  fk_dst_ipv4 :: u32
  fk_src_port :: u16
  fk_dst_port :: u16
  fk_l4_proto :: u8
  fk_reserved :: "u8 \<times> u8 \<times> u8"

definition zero_flow_key :: dp_flow_key where
  "zero_flow_key = \<lparr>fk_src_ipv4 = 0, fk_dst_ipv4 = 0, fk_src_port = 0, fk_dst_port = 0,
     fk_l4_proto = 0, fk_reserved = (0, 0, 0)\<rparr>"

text \<open>The \<open>sizeof\<close> values the code uses, as the compiler lays the structs out on a 64-bit target.\<close>

definition sizeof_flow_key :: nat where "sizeof_flow_key = 16"
definition sizeof_rule_action :: nat where "sizeof_rule_action = 16"
definition sizeof_rule_snapshot :: nat where "sizeof_rule_snapshot = 40"

text \<open>\<open>struct rte_hash_parameters\<close> and \<open>struct rte_lpm_config\<close>, as far as the code sets them.\<close>

record hash_params =
  hp_name :: string
  hp_entries :: nat
  hp_key_len :: nat
  hp_socket :: int

record lpm_params =
  lp_name :: string
  lp_socket :: int
  lp_max_rules :: nat
  lp_number_tbl8s :: nat

record ('h, 'l) rte_table_ops =
  hash_create :: "nat \<Rightarrow> hash_params \<Rightarrow> 'h option"
  hash_lookup_data :: "'h \<Rightarrow> dp_flow_key \<Rightarrow> int \<times> nat"
  hash_add_key_data :: "'h \<Rightarrow> dp_flow_key \<Rightarrow> nat \<Rightarrow> int \<times> 'h"
  lpm_create :: "nat \<Rightarrow> lpm_params \<Rightarrow> 'l option"
  lpm_is_rule_present :: "'l \<Rightarrow> u32 \<Rightarrow> u8 \<Rightarrow> int \<times> u32"
  lpm_add :: "'l \<Rightarrow> u32 \<Rightarrow> u8 \<Rightarrow> u32 \<Rightarrow> int \<times> 'l"
  lpm_lookup :: "'l \<Rightarrow> u32 \<Rightarrow> int \<times> u32"
  zmalloc_socket :: "nat \<Rightarrow> string \<Rightarrow> nat \<Rightarrow> int \<Rightarrow> bool"
  rte_errno :: "nat \<Rightarrow> int"

section \<open>Prefixes\<close>

definition depth_mask :: "u8 \<Rightarrow> u32" where
  "depth_mask d = push_bit (32 - unat d) (- 1)"

definition prefix_matches :: "u32 \<Rightarrow> u8 \<Rightarrow> u32 \<Rightarrow> bool" where
  "prefix_matches p d ip \<longleftrightarrow> ip AND depth_mask d = p"

text \<open>
  The entry of greatest depth that covers an address, searched from depth \<open>n\<close> down to 1, the
  shortest prefix \<open>rte_lpm\<close> stores.
\<close>

fun match_from :: "nat \<Rightarrow> (u32 \<times> u8 \<Rightarrow> 'a option) \<Rightarrow> u32 \<Rightarrow> 'a option" where
  "match_from 0 rules ip = None"
| "match_from (Suc n) rules ip =
     (case rules (ip AND depth_mask (word_of_nat (Suc n)), word_of_nat (Suc n)) of
        Some v \<Rightarrow> Some v
      | None \<Rightarrow> match_from n rules ip)"

definition longest_match :: "(u32 \<times> u8 \<Rightarrow> 'a option) \<Rightarrow> u32 \<Rightarrow> 'a option" where
  "longest_match rules ip = match_from 32 rules ip"

lemma match_from_Some:
  assumes "n < 256"
  shows "match_from n rules ip = Some v \<longleftrightarrow>
    (\<exists>d. 1 \<le> unat d \<and> unat d \<le> n \<and> rules (ip AND depth_mask d, d) = Some v \<and>
      (\<forall>d'. unat d < unat d' \<and> unat d' \<le> n \<longrightarrow> rules (ip AND depth_mask d', d') = None))"
  using assms
proof (induction n)
  case 0
  then show ?case by simp
next
  case (Suc n)
  define w :: u8 where "w = word_of_nat (Suc n)"
  have w: "unat w = Suc n"
    using Suc.prems by (simp add: w_def unat_of_nat del: of_nat_Suc)
  have eq: "d = w" if "unat d = Suc n" for d
    using that w by (simp add: word_unat_eq_iff)
  show ?case
  proof (cases "rules (ip AND depth_mask w, w)")
    case None
    have "match_from (Suc n) rules ip = match_from n rules ip"
      using None by (simp add: w_def)
    moreover have "(\<exists>d. 1 \<le> unat d \<and> unat d \<le> n \<and> rules (ip AND depth_mask d, d) = Some v \<and>
        (\<forall>d'. unat d < unat d' \<and> unat d' \<le> n \<longrightarrow> rules (ip AND depth_mask d', d') = None)) \<longleftrightarrow>
      (\<exists>d. 1 \<le> unat d \<and> unat d \<le> Suc n \<and> rules (ip AND depth_mask d, d) = Some v \<and>
        (\<forall>d'. unat d < unat d' \<and> unat d' \<le> Suc n \<longrightarrow> rules (ip AND depth_mask d', d') = None))"
      using eq None by (metis le_Suc_eq option.distinct(1))
    ultimately show ?thesis using Suc by simp
  next
    case (Some u)
    have "match_from (Suc n) rules ip = Some u"
      using Some by (simp add: w_def)
    moreover have "(\<exists>d. 1 \<le> unat d \<and> unat d \<le> Suc n \<and> rules (ip AND depth_mask d, d) = Some v \<and>
        (\<forall>d'. unat d < unat d' \<and> unat d' \<le> Suc n \<longrightarrow> rules (ip AND depth_mask d', d') = None)) \<longleftrightarrow>
        u = v"
    proof
      assume "\<exists>d. 1 \<le> unat d \<and> unat d \<le> Suc n \<and> rules (ip AND depth_mask d, d) = Some v \<and>
        (\<forall>d'. unat d < unat d' \<and> unat d' \<le> Suc n \<longrightarrow> rules (ip AND depth_mask d', d') = None)"
      then obtain d where d: "unat d \<le> Suc n" "rules (ip AND depth_mask d, d) = Some v"
        "\<And>d'. unat d < unat d' \<Longrightarrow> unat d' \<le> Suc n \<Longrightarrow> rules (ip AND depth_mask d', d') = None"
        by blast
      have "\<not> unat d < Suc n" using d(3) [of w] Some w by auto
      with d(1) have "unat d = Suc n" by simp
      with eq d(2) Some show "u = v" by simp
    next
      assume "u = v"
      then show "\<exists>d. 1 \<le> unat d \<and> unat d \<le> Suc n \<and> rules (ip AND depth_mask d, d) = Some v \<and>
        (\<forall>d'. unat d < unat d' \<and> unat d' \<le> Suc n \<longrightarrow> rules (ip AND depth_mask d', d') = None)"
        using Some w by (intro exI [of _ w]) auto
    qed
    ultimately show ?thesis by simp
  qed
qed

lemmas longest_match_Some =
  match_from_Some [where n = 32, simplified, folded longest_match_def]

lemma longest_match_cong:
  "(\<And>k. rules k = rules' k) \<Longrightarrow> longest_match rules ip = longest_match rules' ip"
  by (rule arg_cong [of rules rules' "\<lambda>r. longest_match r ip"]) auto

lemma match_from_map: "match_from n (\<lambda>k. map_option f (rules k)) ip = map_option f (match_from n rules ip)"
  by (induction n) (simp_all split: option.splits)

lemma longest_match_map:
  "longest_match (\<lambda>k. map_option f (rules k)) ip = map_option f (longest_match rules ip)"
  by (simp add: longest_match_def match_from_map)

lemma longest_match_range: "longest_match rules ip = Some v \<Longrightarrow> v \<in> ran rules"
  by (auto simp: longest_match_Some ran_def)

section \<open>The documented behaviour\<close>

text \<open>
  \<open>hash_map\<close> and \<open>lpm_rules\<close> are the maps a table stands for, \<open>hash_inv\<close> and \<open>lpm_inv\<close> hold of
  the tables a create call returned and successful additions built from it. A created table is
  empty. A lookup returns a non-negative position and the stored data, or a negative number;
  an addition that returns a non-negative number stored the entry. An LPM rule is stored under
  its masked prefix, is reported present by 1 and absent by 0, and a lookup finds the longest
  stored prefix. \<open>rte_errno\<close> is never negative.
\<close>

record ('h, 'l) table_view =
  hash_inv :: "'h \<Rightarrow> bool"
  hash_map :: "'h \<Rightarrow> dp_flow_key \<Rightarrow> nat option"
  lpm_inv :: "'l \<Rightarrow> bool"
  lpm_rules :: "'l \<Rightarrow> u32 \<times> u8 \<Rightarrow> u32 option"
  hash_room :: "'h \<Rightarrow> nat"
  lpm_room :: "'l \<Rightarrow> nat"
  lpm_tbl8s :: "'l \<Rightarrow> nat"

text \<open>
  \<open>hash_room\<close> and \<open>lpm_room\<close> bound the additions a table still takes, \<open>lpm_tbl8s\<close> is its number of
  second-level groups: every block of 256 addresses that holds a prefix longer than 24 bits
  needs one.
\<close>

definition deep_blocks :: "(u32 \<times> u8) set \<Rightarrow> u32 set" where
  "deep_blocks ks = (\<lambda>(ip, d). ip AND depth_mask 24) ` {(ip, d) \<in> ks. 24 < unat d}"

locale rte_table_laws =
  fixes ops :: "('h, 'l) rte_table_ops"
    and tv :: "('h, 'l) table_view"
  assumes hash_create_law:
    "hash_create ops t p = Some h \<Longrightarrow> hash_inv tv h \<and> hash_map tv h = Map.empty"
    and hash_lookup_law:
    "hash_inv tv h \<Longrightarrow> (case hash_map tv h k of
        Some v \<Rightarrow> 0 \<le> fst (hash_lookup_data ops h k) \<and> snd (hash_lookup_data ops h k) = v
      | None \<Rightarrow> fst (hash_lookup_data ops h k) < 0)"
    and hash_add_law:
    "hash_inv tv h \<Longrightarrow> hash_add_key_data ops h k v = (r, h') \<Longrightarrow> 0 \<le> r \<Longrightarrow>
      hash_inv tv h' \<and> hash_map tv h' = (hash_map tv h)(k \<mapsto> v)"
    and lpm_create_law:
    "lpm_create ops t q = Some l \<Longrightarrow> lpm_inv tv l \<and> lpm_rules tv l = Map.empty"
    and lpm_present_law:
    "lpm_inv tv l \<Longrightarrow> 1 \<le> unat d \<Longrightarrow> unat d \<le> 32 \<Longrightarrow>
      (case lpm_rules tv l (ip AND depth_mask d, d) of
        Some nh \<Rightarrow> lpm_is_rule_present ops l ip d = (1, nh)
      | None \<Rightarrow> fst (lpm_is_rule_present ops l ip d) = 0)"
    and lpm_add_law:
    "lpm_inv tv l \<Longrightarrow> 1 \<le> unat d \<Longrightarrow> unat d \<le> 32 \<Longrightarrow> unat nh < 2 ^ 24 \<Longrightarrow>
      lpm_add ops l ip d nh = (r, l') \<Longrightarrow> 0 \<le> r \<Longrightarrow>
      lpm_inv tv l' \<and> lpm_rules tv l' = (lpm_rules tv l)((ip AND depth_mask d, d) \<mapsto> nh)"
    and lpm_lookup_law:
    "lpm_inv tv l \<Longrightarrow> (case longest_match (lpm_rules tv l) ip of
        Some nh \<Rightarrow> lpm_lookup ops l ip = (0, nh)
      | None \<Rightarrow> fst (lpm_lookup ops l ip) \<noteq> 0)"
    and errno_law: "0 \<le> rte_errno ops t"
begin

lemma hash_lookup_hit: "hash_inv tv h \<Longrightarrow> 0 \<le> fst (hash_lookup_data ops h k) \<longleftrightarrow> hash_map tv h k \<noteq> None"
  using hash_lookup_law [of h k] by (auto split: option.splits)

lemma hash_lookup_value:
  "hash_inv tv h \<Longrightarrow> hash_map tv h k = Some v \<Longrightarrow> snd (hash_lookup_data ops h k) = v"
  using hash_lookup_law [of h k] by simp

lemma lpm_present_hit: "lpm_inv tv l \<Longrightarrow> 1 \<le> unat d \<Longrightarrow> unat d \<le> 32 \<Longrightarrow>
    fst (lpm_is_rule_present ops l ip d) =
      (if lpm_rules tv l (ip AND depth_mask d, d) = None then 0 else 1)"
  using lpm_present_law [of l d ip] by (auto split: option.splits)

lemma lpm_lookup_hit: "lpm_inv tv l \<Longrightarrow> fst (lpm_lookup ops l ip) = 0 \<longleftrightarrow> longest_match (lpm_rules tv l) ip \<noteq> None"
  using lpm_lookup_law [of l ip] by (auto split: option.splits)

lemma lpm_lookup_value:
  "lpm_inv tv l \<Longrightarrow> longest_match (lpm_rules tv l) ip = Some v \<Longrightarrow> snd (lpm_lookup ops l ip) = v"
  using lpm_lookup_law [of l ip] by simp

end

text \<open>
  The capacity the tables have when DPDK's own allocations succeed: a hash created with twice
  the public limit takes that limit whatever the keys are, an LPM takes its configured number of
  rules as long as the groups suffice.
\<close>

locale rte_table_room = rte_table_laws +
  assumes hash_created: "hash_create ops t p \<noteq> None"
    and hash_create_room: "hash_create ops t p = Some h \<Longrightarrow> 2 * DP_MAX_FLOW_RULES \<le> hp_entries p \<Longrightarrow>
      DP_MAX_FLOW_RULES \<le> hash_room tv h"
    and hash_add_room: "hash_inv tv h \<Longrightarrow> 0 < hash_room tv h \<Longrightarrow>
      hash_add_key_data ops h k v = (r, h') \<Longrightarrow> 0 \<le> r \<and> hash_room tv h \<le> Suc (hash_room tv h')"
    and lpm_created: "lpm_create ops t q \<noteq> None"
    and lpm_create_room: "lpm_create ops t q = Some l \<Longrightarrow>
      lp_max_rules q \<le> lpm_room tv l \<and> lpm_tbl8s tv l = lp_number_tbl8s q"
    and lpm_add_room: "lpm_inv tv l \<Longrightarrow> 0 < lpm_room tv l \<Longrightarrow> 1 \<le> unat d \<Longrightarrow> unat d \<le> 32 \<Longrightarrow>
      card (deep_blocks (insert (ip AND depth_mask d, d) (dom (lpm_rules tv l)))) \<le> lpm_tbl8s tv l \<Longrightarrow>
      lpm_add ops l ip d nh = (r, l') \<Longrightarrow>
      0 \<le> r \<and> lpm_room tv l \<le> Suc (lpm_room tv l') \<and> lpm_tbl8s tv l' = lpm_tbl8s tv l"
    and zmalloc_succeeds: "zmalloc_socket ops t name bytes socket"

section \<open>A reference implementation\<close>

text \<open>
  Association lists with the capacity given at creation: an addition to a full table fails with
  \<open>-ENOSPC\<close>, a lookup that misses with \<open>-ENOENT\<close>. The heap and the table constructors obey
  \<open>fails\<close>, the moments at which an allocation fails.
\<close>

type_synonym ref_hash = "nat \<times> (dp_flow_key \<times> nat) list"
type_synonym ref_lpm = "(nat \<times> nat) \<times> ((u32 \<times> u8) \<times> u32) list"

definition ref_tables :: "nat list \<Rightarrow> (ref_hash, ref_lpm) rte_table_ops" where
  "ref_tables fails = \<lparr>
     hash_create = (\<lambda>t p. if t \<in> set fails then None else Some (hp_entries p, [])),
     hash_lookup_data = (\<lambda>h k. case map_of (snd h) k of Some v \<Rightarrow> (0, v) | None \<Rightarrow> (- ENOENT, 0)),
     hash_add_key_data = (\<lambda>h k v. if length (snd h) < fst h then (0, (fst h, (k, v) # snd h))
       else (- ENOSPC, h)),
     lpm_create = (\<lambda>t q. if t \<in> set fails then None else Some ((lp_max_rules q, lp_number_tbl8s q), [])),
     lpm_is_rule_present = (\<lambda>l ip d. case map_of (snd l) (ip AND depth_mask d, d) of
       Some v \<Rightarrow> (1, v) | None \<Rightarrow> (0, 0)),
     lpm_add = (\<lambda>l ip d v. if length (snd l) < fst (fst l)
       then (0, (fst l, ((ip AND depth_mask d, d), v) # snd l)) else (- ENOSPC, l)),
     lpm_lookup = (\<lambda>l ip. case longest_match (map_of (snd l)) ip of
       Some v \<Rightarrow> (0, v) | None \<Rightarrow> (- ENOENT, 0)),
     zmalloc_socket = (\<lambda>t name size socket. t \<notin> set fails),
     rte_errno = (\<lambda>t. ENOMEM)\<rparr>"

definition ref_view :: "(ref_hash, ref_lpm) table_view" where
  "ref_view = \<lparr>hash_inv = (\<lambda>_. True), hash_map = (\<lambda>h. map_of (snd h)),
     lpm_inv = (\<lambda>_. True), lpm_rules = (\<lambda>l. map_of (snd l)),
     hash_room = (\<lambda>h. fst h - length (snd h)), lpm_room = (\<lambda>l. fst (fst l) - length (snd l)),
     lpm_tbl8s = (\<lambda>l. snd (fst l))\<rparr>"

interpretation reft: rte_table_laws "ref_tables fails" ref_view
  by unfold_locales
    (auto simp: ref_tables_def ref_view_def errno_simps split: if_splits option.splits)

interpretation reft_room: rte_table_room "ref_tables []" ref_view
  by unfold_locales
    (auto simp: ref_tables_def ref_view_def split: if_splits)

end
