(* ===== verification/Dp_Qsbr.thy ===== *)
theory Dp_Qsbr
  imports Dp_Prelude
begin

text \<open>
  DPDK's quiescent-state based reclamation (\<open>rte_rcu_qsbr\<close>) as the rule code uses it. The
  library is not part of the repository: a QSBR variable is a value of an arbitrary type and
  the calls are fields of \<open>qsbr_ops\<close>. The locale \<open>qsbr_laws\<close> states the documented behaviour
  over two sets of readers, those that are online and those the grace period started last still
  waits for. The reference implementation is the counter scheme of the DPDK programmer's guide.
\<close>

record 'q qsbr_ops =
  qsbr_max_lcore :: nat
  qsbr_get_memsize :: "nat \<Rightarrow> nat"
  qsbr_init :: "nat \<Rightarrow> nat \<Rightarrow> int \<times> 'q"
  qsbr_start :: "'q \<Rightarrow> u64 \<times> 'q"
  qsbr_check :: "'q \<Rightarrow> u64 \<Rightarrow> bool"
  qsbr_thread_register :: "'q \<Rightarrow> nat \<Rightarrow> int \<times> 'q"
  qsbr_thread_online :: "'q \<Rightarrow> nat \<Rightarrow> 'q"
  qsbr_quiescent :: "'q \<Rightarrow> nat \<Rightarrow> 'q"
  qsbr_thread_offline :: "'q \<Rightarrow> nat \<Rightarrow> 'q"
  qsbr_thread_unregister :: "'q \<Rightarrow> nat \<Rightarrow> int \<times> 'q"

text \<open>
  \<open>qs_online\<close>: the readers that reported online and not yet offline. \<open>qs_waits\<close>: the readers
  that were online at the last start and have reported neither a quiescent state nor offline
  since. \<open>qs_token\<close>: the token of the last start. Registration succeeds with 0 and leaves both
  sets alone, a reader that comes online is not waited for, and the check of the last token
  answers true exactly when nobody is waited for. Only ids below the variable's capacity are
  registered.
\<close>

record 'q qsbr_view =
  qs_inv :: "'q \<Rightarrow> bool"
  qs_online :: "'q \<Rightarrow> nat set"
  qs_waits :: "'q \<Rightarrow> nat set"
  qs_token :: "'q \<Rightarrow> u64"

locale qsbr_laws =
  fixes qs :: "'q qsbr_ops"
    and qv :: "'q qsbr_view"
  assumes init_law: "qsbr_init qs t n = (0, q) \<Longrightarrow> qs_inv qv q \<and> qs_online qv q = {} \<and> qs_waits qv q = {}"
    and start_law: "qs_inv qv q \<Longrightarrow> qsbr_start qs q = (tok, q') \<Longrightarrow>
      qs_inv qv q' \<and> qs_online qv q' = qs_online qv q \<and> qs_waits qv q' = qs_online qv q \<and> qs_token qv q' = tok"
    and check_law: "qs_inv qv q \<Longrightarrow> qsbr_check qs q (qs_token qv q) \<longleftrightarrow> qs_waits qv q = {}"
    and register_law: "qs_inv qv q \<Longrightarrow> qsbr_thread_register qs q r = (e, q') \<Longrightarrow>
      qs_inv qv q' \<and> qs_online qv q' = qs_online qv q \<and> qs_waits qv q' = qs_waits qv q \<and> qs_token qv q' = qs_token qv q"
    and online_law: "qs_inv qv q \<Longrightarrow> q' = qsbr_thread_online qs q r \<Longrightarrow> r < qsbr_max_lcore qs \<Longrightarrow>
      qs_inv qv q' \<and> qs_online qv q' = insert r (qs_online qv q) \<and>
      qs_waits qv q' = qs_waits qv q - {r} \<and> qs_token qv q' = qs_token qv q"
    and quiescent_law: "qs_inv qv q \<Longrightarrow> q' = qsbr_quiescent qs q r \<Longrightarrow> r \<in> qs_online qv q \<Longrightarrow>
      qs_inv qv q' \<and> qs_online qv q' = qs_online qv q \<and> qs_waits qv q' = qs_waits qv q - {r} \<and>
      qs_token qv q' = qs_token qv q"
    and offline_law: "qs_inv qv q \<Longrightarrow> q' = qsbr_thread_offline qs q r \<Longrightarrow>
      qs_inv qv q' \<and> qs_online qv q' = qs_online qv q - {r} \<and> qs_waits qv q' = qs_waits qv q - {r} \<and>
      qs_token qv q' = qs_token qv q"
    and unregister_law: "qs_inv qv q \<Longrightarrow> qsbr_thread_unregister qs q r = (e, q') \<Longrightarrow>
      r \<notin> qs_online qv q \<Longrightarrow>
      qs_inv qv q' \<and> qs_online qv q' = qs_online qv q \<and> qs_waits qv q' = qs_waits qv q \<and> qs_token qv q' = qs_token qv q"
    and waits_online: "qs_inv qv q \<Longrightarrow> qs_waits qv q \<subseteq> qs_online qv q"

section \<open>A reference implementation\<close>

text \<open>
  As in the programmer's guide: a token that every start increments, and per reader a counter
  that is zero while the reader is offline and takes the token's value at each report. A check
  waits for the readers whose counter is neither zero nor up to the token. Counters are natural
  numbers; the token handed out is the low 64 bits, so the check compares with the last token
  it started when the bits agree.
\<close>

record ref_qsbr =
  rq_token :: nat
  rq_counters :: "nat list"

definition ref_qsbr_ops :: "nat \<Rightarrow> ref_qsbr qsbr_ops" where
  "ref_qsbr_ops capacity = \<lparr>
     qsbr_max_lcore = capacity,
     qsbr_get_memsize = (\<lambda>n. 64 * (n + 2)),
     qsbr_init = (\<lambda>t n. (0, \<lparr>rq_token = 1, rq_counters = replicate capacity 0\<rparr>)),
     qsbr_start = (\<lambda>q. (word_of_nat (rq_token q + 1), q\<lparr>rq_token := rq_token q + 1\<rparr>)),
     qsbr_check = (\<lambda>q tok.
       let t = (if word_of_nat (rq_token q) = tok then rq_token q else unat tok)
       in list_all (\<lambda>c. c = 0 \<or> t \<le> c) (rq_counters q)),
     qsbr_thread_register = (\<lambda>q r. (if r < capacity then 0 else 1, q)),
     qsbr_thread_online = (\<lambda>q r. q\<lparr>rq_counters := (rq_counters q)[r := rq_token q]\<rparr>),
     qsbr_quiescent = (\<lambda>q r. q\<lparr>rq_counters := (rq_counters q)[r := rq_token q]\<rparr>),
     qsbr_thread_offline = (\<lambda>q r. q\<lparr>rq_counters := (rq_counters q)[r := 0]\<rparr>),
     qsbr_thread_unregister = (\<lambda>q r. (if r < capacity then 0 else 1, q))\<rparr>"

definition rq_inv :: "nat \<Rightarrow> ref_qsbr \<Rightarrow> bool" where
  "rq_inv capacity q \<longleftrightarrow> length (rq_counters q) = capacity \<and> 0 < rq_token q \<and>
     (\<forall>c \<in> set (rq_counters q). c \<le> rq_token q)"

definition rq_online :: "ref_qsbr \<Rightarrow> nat set" where
  "rq_online q = {r. r < length (rq_counters q) \<and> rq_counters q ! r \<noteq> 0}"

definition rq_waits :: "ref_qsbr \<Rightarrow> nat set" where
  "rq_waits q = {r. r < length (rq_counters q) \<and> rq_counters q ! r \<noteq> 0 \<and>
     rq_counters q ! r < rq_token q}"

definition ref_qsbr_view :: "nat \<Rightarrow> ref_qsbr qsbr_view" where
  "ref_qsbr_view capacity = \<lparr>qs_inv = rq_inv capacity, qs_online = rq_online,
     qs_waits = rq_waits, qs_token = (\<lambda>q. word_of_nat (rq_token q))\<rparr>"

interpretation refq: qsbr_laws "ref_qsbr_ops capacity" "ref_qsbr_view capacity"
proof (unfold_locales, goal_cases)
  case (1 t n q)
  then show ?case by (auto simp: ref_qsbr_ops_def ref_qsbr_view_def rq_inv_def rq_online_def rq_waits_def)
next
  case (2 q tok q')
  then show ?case
    by (auto simp: ref_qsbr_ops_def ref_qsbr_view_def rq_inv_def rq_online_def rq_waits_def less_Suc_eq_le)
      (metis le_SucI)
next
  case (3 q)
  then show ?case
    by (auto simp: ref_qsbr_ops_def ref_qsbr_view_def rq_waits_def list_all_length)
next
  case (4 q r e q')
  then show ?case by (auto simp: ref_qsbr_ops_def ref_qsbr_view_def split: if_splits)
next
  case (5 q q' r)
  then show ?case
    by (auto simp: ref_qsbr_ops_def ref_qsbr_view_def rq_inv_def rq_online_def rq_waits_def nth_list_update
        dest!: subsetD [OF set_update_subset_insert] split: if_splits)
next
  case (6 q q' r)
  then show ?case
    by (auto simp: ref_qsbr_ops_def ref_qsbr_view_def rq_inv_def rq_online_def rq_waits_def nth_list_update
        dest!: subsetD [OF set_update_subset_insert] split: if_splits)
next
  case (7 q q' r)
  then show ?case
    by (cases "r < length (rq_counters q)")
      (auto simp: ref_qsbr_ops_def ref_qsbr_view_def rq_inv_def rq_online_def rq_waits_def nth_list_update
        dest!: subsetD [OF set_update_subset_insert] split: if_splits)
next
  case (8 q r e q')
  then show ?case by (auto simp: ref_qsbr_ops_def ref_qsbr_view_def split: if_splits)
next
  case (9 q)
  then show ?case by (auto simp: ref_qsbr_view_def rq_online_def rq_waits_def)
qed

end
