(* ===== verification/Dp_State.thy ===== *)
theory Dp_State
  imports Dp_Tables Dp_Qsbr
begin

text \<open>
  The global state \<open>struct dp_state dp\<close> (\<open>dp_internal.h\<close>) with the structs it embeds: the rule
  snapshot (\<open>dp_lookup.h\<close>) and the worker context (\<open>dp_worker.h\<close>). Atomic fields are plain
  fields, since every function here runs as one step or is split into steps where interleaving
  matters. An action pointer is an index into the snapshot's action array. A table pointer
  carries the name the table was created with. The field \<open>g_live\<close> is not in the code: it is the
  ledger of the DPDK objects that are allocated, and releasing an object that is not in it is a
  fault.
\<close>

record ('h, 'l) dp_rule_snapshot =
  sn_flow_table :: "(string \<times> 'h) option"
  sn_route_table :: "(string \<times> 'l) option"
  sn_actions :: "dp_rule_action list option"
  sn_action_count :: u32
  sn_generation :: u64

datatype dp_lookup_result = DP_LOOKUP_FLOW_HIT | DP_LOOKUP_ROUTE_HIT | DP_LOOKUP_MISS

record dp_worker_ctx =
  wc_info :: dp_worker_info
  wc_stats :: dp_packet_stats
  wc_result :: int
  wc_launched :: bool
  wc_reader_registered :: bool

definition DP_NB_MBUF :: nat where "DP_NB_MBUF = 4096"
definition DP_CACHE_SIZE :: nat where "DP_CACHE_SIZE = 128"
definition DP_BURST_SIZE :: nat where "DP_BURST_SIZE = 32"

datatype rte_obj =
    Obj_Snapshot u64
  | Obj_Actions u64
  | Obj_Hash string
  | Obj_Lpm string
  | Obj_Qsbr

record ('h, 'l, 'q) dp_state =
  g_attempted :: bool
  g_initialized :: bool
  g_rules_configured :: bool
  g_ready :: bool
  g_running :: bool
  g_ran :: bool
  g_stop :: bool
  g_pool :: "nat option"
  g_active_rules :: "('h, 'l) dp_rule_snapshot option"
  g_rules_qsbr :: "'q option"
  g_writer_lock :: bool
  g_writer_active :: bool
  g_active_workers :: u32
  g_registered_readers :: u32
  g_ports :: "nat \<Rightarrow> u16"
  g_owned :: "nat \<Rightarrow> bool"
  g_started :: "nat \<Rightarrow> bool"
  g_worker_count :: u32
  g_workers :: "dp_worker_ctx list"
  g_info :: dp_runtime_info
  g_stats :: dp_stats
  g_live :: "rte_obj multiset"

section \<open>The state at program start\<close>

definition zero_worker_info :: dp_worker_info where
  "zero_worker_info = \<lparr>wi_worker_id = 0, wi_lcore_id = 0, wi_rx_queue_id = 0, wi_tx_queue_id = 0\<rparr>"

definition zero_worker_ctx :: dp_worker_ctx where
  "zero_worker_ctx = \<lparr>wc_info = zero_worker_info, wc_stats = zero_packet_stats, wc_result = 0,
     wc_launched = False, wc_reader_registered = False\<rparr>"

definition zero_worker_stats :: dp_worker_stats where
  "zero_worker_stats = \<lparr>ws_info = zero_worker_info, ws_packets = zero_packet_stats\<rparr>"

definition zero_stats :: dp_stats where
  "zero_stats = dp_packet_stats.extend zero_packet_stats
     \<lparr>st_worker_count = 0, st_workers = replicate DP_MAX_WORKERS zero_worker_stats,
      st_rules_generation = 0, st_rules_publish_success = 0, st_rules_publish_failed = 0,
      st_rules_reclaimed = 0, st_ports_closed = 0, st_pool_in_use = 0, st_pool_freed = 0,
      st_flow_table_freed = 0, st_route_table_freed = 0, st_action_store_freed = 0,
      st_snapshot_freed = 0, st_qsbr_freed = 0\<rparr>"

definition zero_info :: dp_runtime_info where
  "zero_info = \<lparr>ri_initialized = 0, ri_main_lcore = 0, ri_lcore_count = 0, ri_version = None,
     ri_rx_port = 0, ri_tx_port = 0, ri_rx_desc = 0, ri_tx_desc = 0, ri_nb_mbuf = 0,
     ri_cache_size = 0, ri_socket_id = 0, ri_worker_count = 0,
     ri_workers = replicate DP_MAX_WORKERS zero_worker_info\<rparr>"

definition dp_start :: "('h, 'l, 'q) dp_state" where
  "dp_start = \<lparr>g_attempted = False, g_initialized = False, g_rules_configured = False,
     g_ready = False, g_running = False, g_ran = False, g_stop = False, g_pool = None,
     g_active_rules = None, g_rules_qsbr = None, g_writer_lock = False, g_writer_active = False,
     g_active_workers = 0, g_registered_readers = 0, g_ports = (\<lambda>_. 0), g_owned = (\<lambda>_. False),
     g_started = (\<lambda>_. False), g_worker_count = 0,
     g_workers = replicate DP_MAX_WORKERS zero_worker_ctx, g_info = zero_info,
     g_stats = zero_stats, g_live = {#}\<rparr>"

section \<open>The ledger of DPDK objects\<close>

definition rte_acquire :: "rte_obj \<Rightarrow> ('h, 'l, 'q) dp_state \<Rightarrow> ('h, 'l, 'q) dp_state" where
  "rte_acquire x st = st\<lparr>g_live := add_mset x (g_live st)\<rparr>"

definition rte_release :: "rte_obj \<Rightarrow> ('h, 'l, 'q) dp_state \<Rightarrow> ('h, 'l, 'q) dp_state option" where
  "rte_release x st =
     (if x \<in># g_live st then Some (st\<lparr>g_live := g_live st - {#x#}\<rparr>) else None)"

definition on_stats :: "(dp_stats \<Rightarrow> dp_stats) \<Rightarrow> ('h, 'l, 'q) dp_state \<Rightarrow> ('h, 'l, 'q) dp_state" where
  "on_stats f st = st\<lparr>g_stats := f (g_stats st)\<rparr>"

text \<open>Errors taken from \<open>rte_errno\<close> after a failed call: \<open>-(rte_errno ? rte_errno : dflt)\<close>.\<close>

definition errno_or :: "int \<Rightarrow> int \<Rightarrow> int" where
  "errno_or e dflt = - (if e \<noteq> 0 then e else dflt)"

lemma errno_or_neg: "0 \<le> e \<Longrightarrow> 0 < dflt \<Longrightarrow> errno_or e dflt < 0"
  by (simp add: errno_or_def)

text \<open>The objects a snapshot owns.\<close>

definition snapshot_objs :: "('h, 'l) dp_rule_snapshot \<Rightarrow> rte_obj multiset" where
  "snapshot_objs s = {#Obj_Snapshot (sn_generation s)#} +
     (case sn_flow_table s of None \<Rightarrow> {#} | Some (name, _) \<Rightarrow> {#Obj_Hash name#}) +
     (case sn_route_table s of None \<Rightarrow> {#} | Some (name, _) \<Rightarrow> {#Obj_Lpm name#}) +
     (case sn_actions s of None \<Rightarrow> {#} | Some _ \<Rightarrow> {#Obj_Actions (sn_generation s)#})"

end
