(* ===== verification/Dp_Rules.thy ===== *)
theory Dp_Rules
  imports Dp_State Dp_Parser
begin

text \<open>
  The rule component (\<open>dp_lookup.c\<close>): validation, building and freeing of snapshots, the
  lookup, and the operations on the active snapshot. Every function that touches the global
  state takes it and returns it. \<open>None\<close> is a fault: an array access out of range, a NULL
  dereference, or the release of an object that is not allocated. Calls into DPDK that may fail
  get consecutive moments starting at the argument \<open>t\<close>.
\<close>

section \<open>Validation and keys\<close>

definition dp_validate_action :: "dp_rule_action \<Rightarrow> int" where
  "dp_validate_action action =
     (let valid_mask = DP_REWRITE_SRC_IPV4 OR DP_REWRITE_DST_IPV4 OR DP_REWRITE_SRC_PORT OR
        DP_REWRITE_DST_PORT in
      if ra_reserved action \<noteq> 0 then - EINVAL
      else if ra_type action = DP_ACTION_DROP \<or> ra_type action = DP_ACTION_FORWARD
      then (if ra_rewrite_mask action = 0 then 0 else - EINVAL)
      else if ra_type action \<noteq> DP_ACTION_REWRITE then - EINVAL
      else if ra_rewrite_mask action = 0 \<or> ra_rewrite_mask action AND NOT valid_mask \<noteq> 0
      then - EINVAL
      else 0)"

definition dp_flow_key_from_meta :: "dp_packet_meta \<Rightarrow> dp_flow_key" where
  "dp_flow_key_from_meta meta =
     zero_flow_key\<lparr>fk_src_ipv4 := pm_src_ipv4 meta, fk_dst_ipv4 := pm_dst_ipv4 meta,
       fk_src_port := pm_src_port meta, fk_dst_port := pm_dst_port meta,
       fk_l4_proto := pm_l4_proto meta\<rparr>"

definition flow_rule_key :: "dp_flow_rule \<Rightarrow> dp_flow_key" where
  "flow_rule_key rule =
     zero_flow_key\<lparr>fk_src_ipv4 := fr_src_ipv4 rule, fk_dst_ipv4 := fr_dst_ipv4 rule,
       fk_src_port := fr_src_port rule, fk_dst_port := fr_dst_port rule,
       fk_l4_proto := fr_l4_proto rule\<rparr>"

section \<open>Table names\<close>

text \<open>The \<open>%llu\<close> conversion, and \<open>snprintf\<close> into a buffer of 32 bytes with its final NUL.\<close>

fun decimal :: "nat \<Rightarrow> string" where
  "decimal n = (if n < 10 then [char_of (48 + n)] else decimal (n div 10) @ [char_of (48 + n mod 10)])"

declare decimal.simps [simp del]

definition flow_name :: "u64 \<Rightarrow> string" where
  "flow_name generation = take 31 (''dfr_f_'' @ decimal (unat generation))"

definition route_name :: "u64 \<Rightarrow> string" where
  "route_name generation = take 31 (''dfr_r_'' @ decimal (unat generation))"

section \<open>Building and freeing a snapshot\<close>

definition dp_snapshot_free ::
  "('h, 'l) dp_rule_snapshot option \<Rightarrow> bool \<Rightarrow> bool \<Rightarrow> ('h, 'l, 'q) dp_state \<Rightarrow>
   ('h, 'l, 'q) dp_state option" where
  "dp_snapshot_free snapshot reclaimed record_resource_stats st =
     (case snapshot of None \<Rightarrow> Some st | Some s \<Rightarrow> do {
        st \<leftarrow> (case sn_flow_table s of None \<Rightarrow> Some st
               | Some (name, _) \<Rightarrow> do {
                   st \<leftarrow> rte_release (Obj_Hash name) st;
                   Some (if record_resource_stats
                     then on_stats (\<lambda>x. x\<lparr>st_flow_table_freed := 1\<rparr>) st else st) });
        st \<leftarrow> (case sn_route_table s of None \<Rightarrow> Some st
               | Some (name, _) \<Rightarrow> do {
                   st \<leftarrow> rte_release (Obj_Lpm name) st;
                   Some (if record_resource_stats
                     then on_stats (\<lambda>x. x\<lparr>st_route_table_freed := 1\<rparr>) st else st) });
        st \<leftarrow> (case sn_actions s of None \<Rightarrow> Some st
               | Some _ \<Rightarrow> do {
                   st \<leftarrow> rte_release (Obj_Actions (sn_generation s)) st;
                   Some (if record_resource_stats
                     then on_stats (\<lambda>x. x\<lparr>st_action_store_freed := 1\<rparr>) st else st) });
        st \<leftarrow> rte_release (Obj_Snapshot (sn_generation s)) st;
        let st = (if record_resource_stats
          then on_stats (\<lambda>x. x\<lparr>st_snapshot_freed := 1\<rparr>) st else st);
        Some (if reclaimed
          then on_stats (\<lambda>x. x\<lparr>st_rules_reclaimed := st_rules_reclaimed x + 1\<rparr>) st else st) })"

text \<open>
  The parts of \<open>dp_snapshot_build\<close> between the allocation of the snapshot and the label \<open>fail\<close>.
  Each returns \<open>Some ret\<close> where the code does \<open>goto fail\<close> with that value, \<open>None\<close> where it goes
  on, and the snapshot as it is then.
\<close>

definition build_actions ::
  "('h, 'l) rte_table_ops \<Rightarrow> nat \<Rightarrow> u32 \<Rightarrow> ('h, 'l) dp_rule_snapshot \<Rightarrow> ('h, 'l, 'q) dp_state \<Rightarrow>
   int option \<times> ('h, 'l) dp_rule_snapshot \<times> ('h, 'l, 'q) dp_state" where
  "build_actions ops t total_actions s st =
     (if total_actions \<noteq> 0 then
        if \<not> zmalloc_socket ops t ''dfr_rule_actions'' (sizeof_rule_action * unat total_actions)
             (ri_socket_id (g_info st))
        then (Some (errno_or (rte_errno ops t) ENOMEM), s, st)
        else (None,
          s\<lparr>sn_actions := Some (replicate (unat total_actions) zero_action),
            sn_action_count := total_actions\<rparr>,
          rte_acquire (Obj_Actions (sn_generation s)) st)
      else (None, s, st))"

definition build_flow_table ::
  "('h, 'l) rte_table_ops \<Rightarrow> nat \<Rightarrow> u32 \<Rightarrow> u64 \<Rightarrow> ('h, 'l) dp_rule_snapshot \<Rightarrow>
   ('h, 'l, 'q) dp_state \<Rightarrow> int option \<times> ('h, 'l) dp_rule_snapshot \<times> ('h, 'l, 'q) dp_state" where
  "build_flow_table ops t flow_count generation s st =
     (if flow_count \<noteq> 0 then
        let name = flow_name generation in
        case hash_create ops t \<lparr>hp_name = name, hp_entries = DP_MAX_FLOW_RULES * 2,
            hp_key_len = sizeof_flow_key, hp_socket = ri_socket_id (g_info st)\<rparr> of
          None \<Rightarrow> (Some (errno_or (rte_errno ops t) ENOMEM), s, st)
        | Some h \<Rightarrow> (None, s\<lparr>sn_flow_table := Some (name, h)\<rparr>, rte_acquire (Obj_Hash name) st)
      else (None, s, st))"

definition build_route_table ::
  "('h, 'l) rte_table_ops \<Rightarrow> nat \<Rightarrow> u32 \<Rightarrow> u64 \<Rightarrow> ('h, 'l) dp_rule_snapshot \<Rightarrow>
   ('h, 'l, 'q) dp_state \<Rightarrow> int option \<times> ('h, 'l) dp_rule_snapshot \<times> ('h, 'l, 'q) dp_state" where
  "build_route_table ops t route_count generation s st =
     (if route_count \<noteq> 0 then
        let name = route_name generation in
        case lpm_create ops t \<lparr>lp_name = name, lp_socket = ri_socket_id (g_info st),
            lp_max_rules = DP_MAX_ROUTE_RULES, lp_number_tbl8s = 256\<rparr> of
          None \<Rightarrow> (Some (errno_or (rte_errno ops t) ENOMEM), s, st)
        | Some l \<Rightarrow> (None, s\<lparr>sn_route_table := Some (name, l)\<rparr>, rte_acquire (Obj_Lpm name) st)
      else (None, s, st))"

text \<open>The two insertion loops, at index \<open>i\<close> with \<open>n\<close> rounds left.\<close>

fun build_flows ::
  "('h, 'l) rte_table_ops \<Rightarrow> dp_flow_rule list \<Rightarrow> nat \<Rightarrow> nat \<Rightarrow> ('h, 'l) dp_rule_snapshot \<Rightarrow>
   (int option \<times> ('h, 'l) dp_rule_snapshot) option" where
  "build_flows ops flows i 0 s = Some (None, s)"
| "build_flows ops flows i (Suc n) s = do {
     rule \<leftarrow> idx flows i;
     if (fr_l4_proto rule \<noteq> IPPROTO_TCP \<and> fr_l4_proto rule \<noteq> IPPROTO_UDP) \<or>
        fr_reserved rule \<noteq> (0, 0, 0)
     then Some (Some (- EINVAL), s)
     else if dp_validate_action (fr_action rule) < 0
     then Some (Some (dp_validate_action (fr_action rule)), s)
     else do {
       let key = flow_rule_key rule;
       (name, table) \<leftarrow> sn_flow_table s;
       if 0 \<le> fst (hash_lookup_data ops table key) then Some (Some (- EEXIST), s)
       else do {
         actions \<leftarrow> sn_actions s;
         actions \<leftarrow> set_idx actions i (fr_action rule);
         let (ret, table) = hash_add_key_data ops table key i;
         let s = s\<lparr>sn_actions := Some actions, sn_flow_table := Some (name, table)\<rparr>;
         if ret < 0 then Some (Some ret, s) else build_flows ops flows (i + 1) n s
       }
     } }"

fun build_routes ::
  "('h, 'l) rte_table_ops \<Rightarrow> dp_route_rule list \<Rightarrow> u32 \<Rightarrow> nat \<Rightarrow> nat \<Rightarrow> ('h, 'l) dp_rule_snapshot \<Rightarrow>
   (int option \<times> ('h, 'l) dp_rule_snapshot) option" where
  "build_routes ops routes flow_count i 0 s = Some (None, s)"
| "build_routes ops routes flow_count i (Suc n) s = do {
     let action_index = flow_count + word_of_nat i;
     rule \<leftarrow> idx routes i;
     if rr_depth rule = 0 \<or> rr_depth rule > 32 \<or> rr_reserved rule \<noteq> (0, 0, 0)
     then Some (Some (- EINVAL), s)
     else do {
       let mask = depth_mask (rr_depth rule);
       if rr_prefix rule AND mask \<noteq> rr_prefix rule then Some (Some (- EINVAL), s)
       else if dp_validate_action (rr_action rule) < 0
       then Some (Some (dp_validate_action (rr_action rule)), s)
       else do {
         (name, table) \<leftarrow> sn_route_table s;
         let ret = fst (lpm_is_rule_present ops table (rr_prefix rule) (rr_depth rule));
         if ret > 0 then Some (Some (- EEXIST), s)
         else if ret < 0 then Some (Some ret, s)
         else do {
           actions \<leftarrow> sn_actions s;
           actions \<leftarrow> set_idx actions (unat action_index) (rr_action rule);
           let (ret, table) = lpm_add ops table (rr_prefix rule) (rr_depth rule) action_index;
           let s = s\<lparr>sn_actions := Some actions, sn_route_table := Some (name, table)\<rparr>;
           if ret < 0 then Some (Some ret, s)
           else build_routes ops routes flow_count (i + 1) n s
         }
       }
     } }"

text \<open>Everything after the allocation of the snapshot, in the order of the code.\<close>

definition build_body ::
  "('h, 'l) rte_table_ops \<Rightarrow> nat \<Rightarrow> dp_flow_rule list option \<Rightarrow> u32 \<Rightarrow> dp_route_rule list option \<Rightarrow>
   u32 \<Rightarrow> u64 \<Rightarrow> ('h, 'l) dp_rule_snapshot \<Rightarrow> ('h, 'l, 'q) dp_state \<Rightarrow>
   (int option \<times> ('h, 'l) dp_rule_snapshot \<times> ('h, 'l, 'q) dp_state) option" where
  "build_body ops t flows flow_count routes route_count generation s st = do {
     let (e, s, st) = build_actions ops t (flow_count + route_count) s st;
     if e \<noteq> None then Some (e, s, st) else do {
     let (e, s, st) = build_flow_table ops (t + 1) flow_count generation s st;
     if e \<noteq> None then Some (e, s, st) else do {
     let (e, s, st) = build_route_table ops (t + 2) route_count generation s st;
     if e \<noteq> None then Some (e, s, st) else do {
     (e, s) \<leftarrow> build_flows ops (case flows of Some a \<Rightarrow> a | None \<Rightarrow> []) 0 (unat flow_count) s;
     if e \<noteq> None then Some (e, s, st) else do {
     (e, s) \<leftarrow> build_routes ops (case routes of Some a \<Rightarrow> a | None \<Rightarrow> []) flow_count 0
       (unat route_count) s;
     Some (e, s, st) }}}}}"

definition dp_snapshot_build ::
  "('h, 'l) rte_table_ops \<Rightarrow> nat \<Rightarrow> dp_flow_rule list option \<Rightarrow> u32 \<Rightarrow> dp_route_rule list option \<Rightarrow>
   u32 \<Rightarrow> u64 \<Rightarrow> ('h, 'l, 'q) dp_state \<Rightarrow>
   (int \<times> ('h, 'l) dp_rule_snapshot option \<times> ('h, 'l, 'q) dp_state) option" where
  "dp_snapshot_build ops t flows flow_count routes route_count generation st =
     (if unat flow_count > DP_MAX_FLOW_RULES \<or> unat route_count > DP_MAX_ROUTE_RULES
      then Some (- ENOSPC, None, st)
      else if flow_count \<noteq> 0 \<and> flows = None \<or> route_count \<noteq> 0 \<and> routes = None
      then Some (- EINVAL, None, st)
      else if \<not> zmalloc_socket ops t ''dfr_rule_snapshot'' sizeof_rule_snapshot
                (ri_socket_id (g_info st))
      then Some (errno_or (rte_errno ops t) ENOMEM, None, st)
      else do {
        let st = rte_acquire (Obj_Snapshot generation) st;
        let s = \<lparr>sn_flow_table = None, sn_route_table = None, sn_actions = None,
          sn_action_count = 0, sn_generation = generation\<rparr>;
        (e, s, st) \<leftarrow>
          build_body ops (t + 1) flows flow_count routes route_count generation s st;
        (case e of
           None \<Rightarrow> Some (0, Some s, st)
         | Some ret \<Rightarrow> do {
             st \<leftarrow> dp_snapshot_free (Some s) False False st;
             Some (ret, None, st) })
      })"

section \<open>Lookup\<close>

definition dp_lookup_packet ::
  "('h, 'l) rte_table_ops \<Rightarrow> dp_packet_meta \<Rightarrow> ('h, 'l) dp_rule_snapshot option \<Rightarrow>
   dp_lookup_result \<times> nat option" where
  "dp_lookup_packet ops meta snapshot =
     (let flow = do {
        s \<leftarrow> snapshot;
        (_, table) \<leftarrow> sn_flow_table s;
        let (r, flow_action) = hash_lookup_data ops table (dp_flow_key_from_meta meta);
        if r \<ge> 0 then Some flow_action else None } in
      case flow of
        Some action \<Rightarrow> (DP_LOOKUP_FLOW_HIT, Some action)
      | None \<Rightarrow>
          (let route = do {
             s \<leftarrow> snapshot;
             (_, table) \<leftarrow> sn_route_table s;
             let (r, action_index) = lpm_lookup ops table (pm_dst_ipv4 meta);
             if r = 0 \<and> action_index < sn_action_count s then Some (unat action_index) else None }
           in case route of
                Some action \<Rightarrow> (DP_LOOKUP_ROUTE_HIT, Some action)
              | None \<Rightarrow> (DP_LOOKUP_MISS, None)))"

section \<open>The active snapshot\<close>

definition dp_qsbr_create ::
  "'q qsbr_ops \<Rightarrow> ('h, 'l) rte_table_ops \<Rightarrow> nat \<Rightarrow> ('h, 'l, 'q) dp_state \<Rightarrow>
   (int \<times> ('h, 'l, 'q) dp_state) option" where
  "dp_qsbr_create qs ops t st =
     (if g_rules_qsbr st \<noteq> None then Some (0, st)
      else
        let size = qsbr_get_memsize qs (qsbr_max_lcore qs) in
        if size = 1 then Some (errno_or (rte_errno ops t) EINVAL, st)
        else if \<not> zmalloc_socket ops (t + 1) ''dfr_rules_qsbr'' size (ri_socket_id (g_info st))
        then Some (errno_or (rte_errno ops (t + 1)) ENOMEM, st)
        else
          let st = rte_acquire Obj_Qsbr st;
              (ret, q) = qsbr_init qs (t + 2) (qsbr_max_lcore qs) in
          if ret \<noteq> 0 then do {
            st \<leftarrow> rte_release Obj_Qsbr st;
            Some (errno_or (rte_errno ops (t + 2)) EINVAL, st\<lparr>g_rules_qsbr := None\<rparr>)
          }
          else Some (0, st\<lparr>g_rules_qsbr := Some q\<rparr>))"

text \<open>The part of \<open>dp_configure_rules\<close> after the QSBR variable exists.\<close>

definition configure_snapshot ::
  "('h, 'l) rte_table_ops \<Rightarrow> nat \<Rightarrow> dp_flow_rule list option \<Rightarrow> u32 \<Rightarrow>
   dp_route_rule list option \<Rightarrow> u32 \<Rightarrow> ('h, 'l, 'q) dp_state \<Rightarrow> (int \<times> ('h, 'l, 'q) dp_state) option" where
  "configure_snapshot ops t flows flow_count routes route_count st = do {
     (ret, snapshot, st) \<leftarrow> dp_snapshot_build ops t flows flow_count routes route_count 1 st;
     if ret < 0 then
       Some (ret, on_stats (\<lambda>x. x\<lparr>st_rules_publish_failed := st_rules_publish_failed x + 1\<rparr>) st)
     else
       Some (0, on_stats (\<lambda>x. x\<lparr>st_rules_generation := 1, st_rules_publish_success := 1\<rparr>)
         (st\<lparr>g_active_rules := snapshot, g_rules_configured := True\<rparr>)) }"

definition dp_configure_rules ::
  "'q qsbr_ops \<Rightarrow> ('h, 'l) rte_table_ops \<Rightarrow> nat \<Rightarrow> dp_flow_rule list option \<Rightarrow> u32 \<Rightarrow>
   dp_route_rule list option \<Rightarrow> u32 \<Rightarrow> ('h, 'l, 'q) dp_state \<Rightarrow> (int \<times> ('h, 'l, 'q) dp_state) option" where
  "dp_configure_rules qs ops t flows flow_count routes route_count st =
     (if \<not> g_initialized st then Some (- ENODEV, st)
      else if g_rules_configured st \<or> g_ready st \<or> g_running st \<or> g_ran st
      then Some (- EALREADY, st)
      else do {
        (ret, st) \<leftarrow> dp_qsbr_create qs ops t st;
        if ret < 0 then Some (ret, st)
        else configure_snapshot ops (t + 3) flows flow_count routes route_count st
      })"

text \<open>
  \<open>dp_publish_rules\<close> in the steps between which other threads may run: taking the lock, the
  build, the exchange of the active snapshot, the start of the grace period, its check, the
  reclamation, and the release of the lock.
\<close>

definition publish_enter :: "('h, 'l, 'q) dp_state \<Rightarrow> ('h, 'l, 'q) dp_state" where
  "publish_enter st = st\<lparr>g_writer_lock := True, g_writer_active := True\<rparr>"

definition publish_build ::
  "('h, 'l) rte_table_ops \<Rightarrow> nat \<Rightarrow> dp_flow_rule list option \<Rightarrow> u32 \<Rightarrow> dp_route_rule list option \<Rightarrow>
   u32 \<Rightarrow> ('h, 'l, 'q) dp_state \<Rightarrow>
   (int \<times> ('h, 'l) dp_rule_snapshot option \<times> ('h, 'l, 'q) dp_state) option" where
  "publish_build ops t flows flow_count routes route_count st =
     (if \<not> g_initialized st \<or> \<not> g_rules_configured st \<or> g_rules_qsbr st = None \<or>
         g_active_rules st = None
      then Some (- ENODEV, None, st)
      else do {
        let next_generation = st_rules_generation (g_stats st) + 1;
        (ret, new_snapshot, st) \<leftarrow>
          dp_snapshot_build ops t flows flow_count routes route_count next_generation st;
        Some (ret, new_snapshot,
          if ret < 0
          then on_stats (\<lambda>x. x\<lparr>st_rules_publish_failed := st_rules_publish_failed x + 1\<rparr>) st
          else st)
      })"

definition publish_exchange ::
  "('h, 'l) dp_rule_snapshot option \<Rightarrow> ('h, 'l, 'q) dp_state \<Rightarrow>
   ('h, 'l) dp_rule_snapshot option \<times> ('h, 'l, 'q) dp_state" where
  "publish_exchange new_snapshot st =
     (g_active_rules st, st\<lparr>g_active_rules := new_snapshot\<rparr>)"

definition publish_account :: "u64 \<Rightarrow> ('h, 'l, 'q) dp_state \<Rightarrow> ('h, 'l, 'q) dp_state" where
  "publish_account next_generation st =
     on_stats (\<lambda>x. x\<lparr>st_rules_generation := next_generation,
       st_rules_publish_success := st_rules_publish_success x + 1\<rparr>) st"

definition publish_start ::
  "'q qsbr_ops \<Rightarrow> ('h, 'l, 'q) dp_state \<Rightarrow> (u64 \<times> ('h, 'l, 'q) dp_state) option" where
  "publish_start qs st = do {
     q \<leftarrow> g_rules_qsbr st;
     let (token, q) = qsbr_start qs q;
     Some (token, st\<lparr>g_rules_qsbr := Some q\<rparr>) }"

definition publish_check :: "'q qsbr_ops \<Rightarrow> u64 \<Rightarrow> ('h, 'l, 'q) dp_state \<Rightarrow> bool option" where
  "publish_check qs token st = map_option (\<lambda>q. qsbr_check qs q token) (g_rules_qsbr st)"

definition publish_exit :: "('h, 'l, 'q) dp_state \<Rightarrow> ('h, 'l, 'q) dp_state" where
  "publish_exit st = st\<lparr>g_writer_active := False, g_writer_lock := False\<rparr>"

text \<open>
  The blocking check while the readers of a given list report one after another: the state when
  it returns, or \<open>None\<close> when the reports do not suffice.
\<close>

fun await_grace :: "'q qsbr_ops \<Rightarrow> u64 \<Rightarrow> nat list \<Rightarrow> 'q \<Rightarrow> 'q option" where
  "await_grace qs token [] q = (if qsbr_check qs q token then Some q else None)"
| "await_grace qs token (r # rs) q =
     (if qsbr_check qs q token then Some q else await_grace qs token rs (qsbr_quiescent qs q r))"

datatype ('r, 's) publish_outcome = Returned 'r 's | Still_Waiting 's

text \<open>The whole of \<open>dp_publish_rules\<close>, with the reports that arrive while it waits.\<close>

definition dp_publish_rules ::
  "'q qsbr_ops \<Rightarrow> ('h, 'l) rte_table_ops \<Rightarrow> nat \<Rightarrow> nat list \<Rightarrow> dp_flow_rule list option \<Rightarrow> u32 \<Rightarrow>
   dp_route_rule list option \<Rightarrow> u32 \<Rightarrow> u64 option \<Rightarrow> ('h, 'l, 'q) dp_state \<Rightarrow>
   (int \<times> u64 option, ('h, 'l, 'q) dp_state) publish_outcome option" where
  "dp_publish_rules qs ops t reports flows flow_count routes route_count generation st =
     (if generation = None then Some (Returned (- EINVAL, None) st)
      else do {
        let st = publish_enter st;
        let next_generation = st_rules_generation (g_stats st) + 1;
        (ret, new_snapshot, st) \<leftarrow> publish_build ops t flows flow_count routes route_count st;
        if ret < 0 then Some (Returned (ret, generation) (publish_exit st))
        else do {
          let (old_snapshot, st) = publish_exchange new_snapshot st;
          let st = publish_account next_generation st;
          (token, st) \<leftarrow> publish_start qs st;
          q \<leftarrow> g_rules_qsbr st;
          (case await_grace qs token reports q of
             None \<Rightarrow> Some (Still_Waiting st)
           | Some q \<Rightarrow> do {
               let st = st\<lparr>g_rules_qsbr := Some q\<rparr>;
               st \<leftarrow> dp_snapshot_free old_snapshot True True st;
               Some (Returned (0, Some next_generation) (publish_exit st)) })
        }
      })"

section \<open>Readers\<close>

definition dp_rules_active_load :: "('h, 'l, 'q) dp_state \<Rightarrow> ('h, 'l) dp_rule_snapshot option" where
  "dp_rules_active_load st = g_active_rules st"

definition dp_rules_reader_register ::
  "'q qsbr_ops \<Rightarrow> ('h, 'l) rte_table_ops \<Rightarrow> nat \<Rightarrow> nat \<Rightarrow> ('h, 'l, 'q) dp_state \<Rightarrow>
   int \<times> ('h, 'l, 'q) dp_state" where
  "dp_rules_reader_register qs ops t reader_id st =
     (case g_rules_qsbr st of
        None \<Rightarrow> (- ENODEV, st)
      | Some q \<Rightarrow>
          if reader_id \<ge> qsbr_max_lcore qs then (- ENODEV, st)
          else
            let (ret, q) = qsbr_thread_register qs q reader_id in
            if ret \<noteq> 0 then (errno_or (rte_errno ops t) EIO, st\<lparr>g_rules_qsbr := Some q\<rparr>)
            else (0, st\<lparr>g_rules_qsbr := Some (qsbr_thread_online qs q reader_id),
                        g_registered_readers := g_registered_readers st + 1\<rparr>))"

definition dp_rules_reader_quiescent ::
  "'q qsbr_ops \<Rightarrow> nat \<Rightarrow> ('h, 'l, 'q) dp_state \<Rightarrow> ('h, 'l, 'q) dp_state option" where
  "dp_rules_reader_quiescent qs reader_id st = do {
     q \<leftarrow> g_rules_qsbr st;
     Some (st\<lparr>g_rules_qsbr := Some (qsbr_quiescent qs q reader_id)\<rparr>) }"

definition dp_rules_reader_unregister ::
  "'q qsbr_ops \<Rightarrow> nat \<Rightarrow> ('h, 'l, 'q) dp_state \<Rightarrow> ('h, 'l, 'q) dp_state option" where
  "dp_rules_reader_unregister qs reader_id st = do {
     q \<leftarrow> g_rules_qsbr st;
     let q = qsbr_thread_offline qs q reader_id;
     let (_, q) = qsbr_thread_unregister qs q reader_id;
     Some (st\<lparr>g_rules_qsbr := Some q, g_registered_readers := g_registered_readers st - 1\<rparr>) }"

definition dp_rules_teardown :: "('h, 'l, 'q) dp_state \<Rightarrow> ('h, 'l, 'q) dp_state option" where
  "dp_rules_teardown st = do {
     let st = st\<lparr>g_writer_lock := True, g_writer_active := True\<rparr>;
     let snapshot = g_active_rules st;
     let st = st\<lparr>g_active_rules := None\<rparr>;
     st \<leftarrow> dp_snapshot_free snapshot False True st;
     st \<leftarrow> (if g_rules_qsbr st \<noteq> None then do {
              st \<leftarrow> rte_release Obj_Qsbr st;
              Some (on_stats (\<lambda>x. x\<lparr>st_qsbr_freed := 1\<rparr>) (st\<lparr>g_rules_qsbr := None\<rparr>)) }
            else Some st);
     Some (st\<lparr>g_rules_configured := False, g_writer_active := False, g_writer_lock := False\<rparr>) }"

end
