(* ===== verification/Dp_Snapshot.thy ===== *)
theory Dp_Snapshot
  imports Dp_Rules
begin

text \<open>
  What \<open>dp_snapshot_build\<close>, \<open>dp_snapshot_free\<close> and \<open>dp_lookup_packet\<close> do: the names and the
  validation, the ledger of DPDK objects, the build loops against the acceptance condition
  \<open>rules_valid\<close> and the first error \<open>rules_code\<close>, and the lookup against \<open>policy\<close>.
\<close>

section \<open>Lemmas: names and validation\<close>

lemma decimal_digits: "decimal n \<noteq> [] \<and> (n < 10 ^ k \<longrightarrow> 0 < k \<longrightarrow> length (decimal n) \<le> k)"
proof (induction n arbitrary: k rule: decimal.induct)
  case (1 n)
  show ?case
  proof (cases "n < 10")
    case True
    then show ?thesis by (auto simp: decimal.simps [of n])
  next
    case False
    have "length (decimal (n div 10)) \<le> k - 1" if "n < 10 ^ k" "0 < k"
    proof -
      have "k \<noteq> 1" using that False by auto
      with that have "n div 10 < 10 ^ (k - 1)" "0 < k - 1"
        by (simp_all add: less_mult_imp_div_less flip: power_Suc2)
      with 1 False show ?thesis by blast
    qed
    with False show ?thesis by (auto simp: decimal.simps [of n])
  qed
qed

lemma decimal_inj: "decimal m = decimal n \<Longrightarrow> m = n"
proof (induction m arbitrary: n rule: decimal.induct)
  case (1 m)
  have ne: "decimal k \<noteq> []" for k using decimal_digits by blast
  have digit: "of_char (char_of (48 + k) :: char) = 48 + k" if "k < 10" for k :: nat
    using that by simp
  have inj: "a = b" if "char_of (48 + a) = (char_of (48 + b) :: char)" "a < 10" "b < 10" for a b :: nat
    using arg_cong [OF that(1), of "of_char :: char \<Rightarrow> nat"] digit [OF that(2)] digit [OF that(3)] by linarith
  show ?case
  proof (cases "m < 10")
    case True
    then have "n < 10"
      using 1(2) ne ne [THEN not_sym] by (cases "n < 10") (auto simp: decimal.simps [of n] decimal.simps [of m] append_eq_Cons_conv)
    with True show ?thesis using 1(2) inj [of m n]
      by (simp add: decimal.simps [of n] decimal.simps [of m])
  next
    case False
    then have n: "\<not> n < 10"
      using 1(2) ne ne [THEN not_sym] by (cases "n < 10") (auto simp: decimal.simps [of n] decimal.simps [of m] append_eq_Cons_conv Cons_eq_append_conv)
    with False 1(2) have "decimal (m div 10) = decimal (n div 10)"
      "char_of (48 + m mod 10) = (char_of (48 + n mod 10) :: char)"
      by (simp_all add: decimal.simps [of n] decimal.simps [of m])
    with 1(1) [OF False] inj [of "m mod 10" "n mod 10"] have "m div 10 = n div 10" "m mod 10 = n mod 10"
      by simp_all
    then show ?thesis by (metis div_mult_mod_eq)
  qed
qed

lemma names_fit:
  "flow_name g = ''dfr_f_'' @ decimal (unat g)" "route_name g = ''dfr_r_'' @ decimal (unat g)"
proof -
  have "unat g < 10 ^ 20" using unat_lt(4) [of g] by simp
  then have "length (decimal (unat g)) \<le> 20" using decimal_digits [of "unat g" 20] by simp
  then show "flow_name g = ''dfr_f_'' @ decimal (unat g)" "route_name g = ''dfr_r_'' @ decimal (unat g)"
    by (simp_all add: flow_name_def route_name_def)
qed

lemma names_inj: "flow_name g = flow_name g' \<longleftrightarrow> g = g'" "route_name g = route_name g' \<longleftrightarrow> g = g'"
  by (auto simp: names_fit dest!: decimal_inj intro: word_unat_eq_iff [THEN iffD2])

definition action_ok :: "dp_rule_action \<Rightarrow> bool" where
  "action_ok a \<longleftrightarrow> ra_reserved a = 0 \<and>
     ((ra_type a = DP_ACTION_DROP \<or> ra_type a = DP_ACTION_FORWARD) \<and> ra_rewrite_mask a = 0 \<or>
      ra_type a = DP_ACTION_REWRITE \<and> ra_rewrite_mask a \<noteq> 0 \<and> unat (ra_rewrite_mask a) < 16)"

lemma mask_below_16: "(m :: u8) AND NOT 15 = 0 \<longleftrightarrow> unat m < 16"
proof -
  have e: "(15 :: u8) = mask 4" by (simp add: mask_eq_exp_minus_1)
  have "m AND NOT 15 = push_bit 4 (drop_bit 4 m)"
    unfolding e by (rule bit_word_eqI) (auto simp: bit_simps)
  moreover have "unat (push_bit 4 (drop_bit 4 m)) = unat m div 16 * 16"
    using unat_lt(1) [of m]
    by (simp add: push_bit_eq_mult drop_bit_eq_div unat_word_ariths unat_div)
  ultimately show ?thesis by (auto simp: word_unat_eq_iff)
qed

lemma dp_validate_action_ok: "dp_validate_action a = (if action_ok a then 0 else - EINVAL)"
  by (auto simp: dp_validate_action_def action_ok_def Let_def rewrite_consts mask_below_16 [symmetric] action_consts)

section \<open>Lemmas: the ledger\<close>

text \<open>The counters after a free.\<close>

definition freed_stats :: "('h, 'l) dp_rule_snapshot \<Rightarrow> bool \<Rightarrow> bool \<Rightarrow> dp_stats \<Rightarrow> dp_stats" where
  "freed_stats s reclaimed recorded x =
     (let x = (if recorded \<and> sn_flow_table s \<noteq> None then x\<lparr>st_flow_table_freed := 1\<rparr> else x);
          x = (if recorded \<and> sn_route_table s \<noteq> None then x\<lparr>st_route_table_freed := 1\<rparr> else x);
          x = (if recorded \<and> sn_actions s \<noteq> None then x\<lparr>st_action_store_freed := 1\<rparr> else x);
          x = (if recorded then x\<lparr>st_snapshot_freed := 1\<rparr> else x)
      in if reclaimed then x\<lparr>st_rules_reclaimed := st_rules_reclaimed x + 1\<rparr> else x)"
lemma freed_stats_none [simp]: "freed_stats s False False x = x"
  by (simp add: freed_stats_def)

lemma freed_stats_keeps [simp]:
  "st_rules_generation (freed_stats s r c x) = st_rules_generation x"
  "st_rules_publish_success (freed_stats s r c x) = st_rules_publish_success x"
  "st_rules_publish_failed (freed_stats s r c x) = st_rules_publish_failed x"
  "st_rules_reclaimed (freed_stats s r c x) = (if r then st_rules_reclaimed x + 1 else st_rules_reclaimed x)"
  by (simp_all add: freed_stats_def Let_def)

lemma rte_release_added [simp]:
  "g_live st = add_mset x m \<Longrightarrow> rte_release x st = Some (st\<lparr>g_live := m\<rparr>)"
  by (simp add: rte_release_def)

definition marks :: "bool \<Rightarrow> (dp_stats \<Rightarrow> dp_stats) \<Rightarrow> dp_stats \<Rightarrow> dp_stats" where
  "marks c f x = (if c then f x else x)"

lemma mark_if: "(if c then on_stats f st else st) = st\<lparr>g_stats := marks c f (g_stats st)\<rparr>"
  by (simp add: on_stats_def marks_def)

lemma dp_snapshot_free_frees:
  assumes "g_live st = m + snapshot_objs s"
  shows "dp_snapshot_free (Some s) reclaimed recorded st =
    Some (st\<lparr>g_live := m, g_stats := freed_stats s reclaimed recorded (g_stats st)\<rparr>)"
proof -
  obtain ft rt ac n g where s: "s = \<lparr>sn_flow_table = ft, sn_route_table = rt, sn_actions = ac,
      sn_action_count = n, sn_generation = g\<rparr>"
    by (cases s) blast
  have F: "freed_stats s reclaimed recorded x = marks reclaimed (\<lambda>x. x\<lparr>st_rules_reclaimed := st_rules_reclaimed x + 1\<rparr>)
     (marks recorded (\<lambda>x. x\<lparr>st_snapshot_freed := 1\<rparr>)
     (marks (recorded \<and> ac \<noteq> None) (\<lambda>x. x\<lparr>st_action_store_freed := 1\<rparr>)
     (marks (recorded \<and> rt \<noteq> None) (\<lambda>x. x\<lparr>st_route_table_freed := 1\<rparr>)
     (marks (recorded \<and> ft \<noteq> None) (\<lambda>x. x\<lparr>st_flow_table_freed := 1\<rparr>) x))))" for x
    by (simp add: freed_stats_def s marks_def)
  have no: "marks False f x = x" for f x by (simp add: marks_def)
  show ?thesis
    using assms unfolding F unfolding s 
    by (cases ft; cases rt; cases ac)
      (simp_all add: dp_snapshot_free_def snapshot_objs_def mark_if rte_release_def no
        split_beta)
qed

lemma dp_snapshot_free_NULL [simp]: "dp_snapshot_free None reclaimed recorded st = Some st"
  by (simp add: dp_snapshot_free_def)

section \<open>Lemmas: building\<close>

lemma live_same [simp]: "st\<lparr>g_live := g_live st\<rparr> = st" for st :: "('h, 'l, 'q) dp_state"
  by simp

text \<open>
  What every part of the build keeps: the state differs in the ledger only, which holds what it
  held before plus the snapshot's objects, the generation stays, and a failure is negative.
\<close>

definition build_step ::
  "rte_obj multiset \<Rightarrow> ('h, 'l, 'q) dp_state \<Rightarrow> u64 \<Rightarrow>
   int option \<times> ('h, 'l) dp_rule_snapshot \<times> ('h, 'l, 'q) dp_state \<Rightarrow> bool" where
  "build_step m st0 g r \<longleftrightarrow> (case r of (e, s, st) \<Rightarrow>
     st = st0\<lparr>g_live := m + snapshot_objs s\<rparr> \<and> sn_generation s = g \<and>
     (\<forall>ret. e = Some ret \<longrightarrow> ret < 0))"

lemma build_parts:
  assumes e: "\<And>t. 0 \<le> rte_errno ops t"
  shows "build_step m st0 g (None, s, st) \<Longrightarrow> sn_actions s = None \<Longrightarrow>
      build_step m st0 g (build_actions ops t n s st)"
    "build_step m st0 g (None, s, st) \<Longrightarrow> sn_flow_table s = None \<Longrightarrow>
      build_step m st0 g (build_flow_table ops t n g' s st)"
    "build_step m st0 g (None, s, st) \<Longrightarrow> sn_route_table s = None \<Longrightarrow>
      build_step m st0 g (build_route_table ops t n g' s st)"
  using errno_or_neg [OF e, of ENOMEM]
  by (auto simp: build_step_def build_actions_def build_flow_table_def build_route_table_def
      snapshot_objs_def rte_acquire_def Let_def errno_simps split: option.splits)

lemma build_parts_fields:
  "build_actions ops t n s st = (e, s', st') \<Longrightarrow>
    sn_flow_table s' = sn_flow_table s \<and> sn_route_table s' = sn_route_table s \<and>
    (e = None \<longrightarrow> n \<noteq> 0 \<longrightarrow> sn_actions s' = Some (replicate (unat n) zero_action) \<and> sn_action_count s' = n) \<and>
    (n = 0 \<longrightarrow> s' = s) \<and> g_info st' = g_info st"
  "build_flow_table ops t n g s st = (e, s', st') \<Longrightarrow>
    sn_actions s' = sn_actions s \<and> sn_action_count s' = sn_action_count s \<and>
    sn_route_table s' = sn_route_table s \<and>
    (e = None \<longrightarrow> n \<noteq> 0 \<longrightarrow> (\<exists>h p. sn_flow_table s' = Some (flow_name g, h) \<and>
      hash_create ops t p = Some h \<and> hp_entries p = DP_MAX_FLOW_RULES * 2)) \<and>
    (n = 0 \<longrightarrow> s' = s)"
  "build_route_table ops t n g s st = (e, s', st') \<Longrightarrow>
    sn_actions s' = sn_actions s \<and> sn_action_count s' = sn_action_count s \<and>
    sn_flow_table s' = sn_flow_table s \<and>
    (e = None \<longrightarrow> n \<noteq> 0 \<longrightarrow> (\<exists>l p. sn_route_table s' = Some (route_name g, l) \<and>
      lpm_create ops t p = Some l \<and> lp_max_rules p = DP_MAX_ROUTE_RULES \<and> lp_number_tbl8s p = 256)) \<and>
    (n = 0 \<longrightarrow> s' = s)"
  by (auto simp: build_actions_def build_flow_table_def build_route_table_def rte_acquire_def
      Let_def split: option.splits if_splits intro!: exI conjI)

text \<open>The loops never fault while the arrays are long enough, and keep the snapshot's objects.\<close>

definition loop_keeps :: "('h, 'l) dp_rule_snapshot \<Rightarrow> int option \<Rightarrow> ('h, 'l) dp_rule_snapshot \<Rightarrow> bool" where
  "loop_keeps s e s' \<longleftrightarrow> snapshot_objs s' = snapshot_objs s \<and> sn_generation s' = sn_generation s \<and>
     sn_action_count s' = sn_action_count s \<and>
     map_option length (sn_actions s') = map_option length (sn_actions s) \<and>
     map_option fst (sn_flow_table s') = map_option fst (sn_flow_table s) \<and>
     map_option fst (sn_route_table s') = map_option fst (sn_route_table s) \<and>
     (\<forall>ret. e = Some ret \<longrightarrow> ret < 0)"

lemma loop_keeps_trans: "loop_keeps s None s1 \<Longrightarrow> loop_keeps s1 e s2 \<Longrightarrow> loop_keeps s e s2"
  by (simp add: loop_keeps_def)

text \<open>What one round of a loop does, and what it demands of its rule.\<close>

definition flow_rule_ok :: "dp_flow_rule \<Rightarrow> bool" where
  "flow_rule_ok r \<longleftrightarrow> (fr_l4_proto r = IPPROTO_TCP \<or> fr_l4_proto r = IPPROTO_UDP) \<and>
     fr_reserved r = (0, 0, 0) \<and> action_ok (fr_action r)"

definition route_rule_ok :: "dp_route_rule \<Rightarrow> bool" where
  "route_rule_ok r \<longleftrightarrow> 1 \<le> unat (rr_depth r) \<and> unat (rr_depth r) \<le> 32 \<and>
     rr_reserved r = (0, 0, 0) \<and> rr_prefix r AND depth_mask (rr_depth r) = rr_prefix r \<and>
     action_ok (rr_action r)"

lemma route_depth_ok: "rr_depth r = 0 \<or> 32 < rr_depth r \<longleftrightarrow> \<not> (1 \<le> unat (rr_depth r) \<and> unat (rr_depth r) \<le> 32)"
  by (auto simp: word_less_nat_alt word_unat_eq_iff)

definition with_flow ::
  "dp_flow_rule list \<Rightarrow> nat \<Rightarrow> string \<times> 'h \<Rightarrow> dp_rule_action list \<Rightarrow> ('h, 'l) dp_rule_snapshot \<Rightarrow>
   ('h, 'l) dp_rule_snapshot" where
  "with_flow flows i table acts s =
     s\<lparr>sn_actions := Some (acts[i := fr_action (flows ! i)]), sn_flow_table := Some table\<rparr>"

definition with_route ::
  "dp_route_rule list \<Rightarrow> nat \<Rightarrow> nat \<Rightarrow> string \<times> 'l \<Rightarrow> dp_rule_action list \<Rightarrow> ('h, 'l) dp_rule_snapshot \<Rightarrow>
   ('h, 'l) dp_rule_snapshot" where
  "with_route routes i k table acts s =
     s\<lparr>sn_actions := Some (acts[k := rr_action (routes ! i)]), sn_route_table := Some table\<rparr>"

lemma build_flows_round:
  assumes "i < length flows" "sn_flow_table s = Some (name, h)" "sn_actions s = Some acts"
    "i < length acts" "hash_add_key_data ops h (flow_rule_key (flows ! i)) i = (r, h')"
  shows "build_flows ops flows i (Suc n) s =
    (if \<not> flow_rule_ok (flows ! i) then Some (Some (- EINVAL), s)
     else if 0 \<le> fst (hash_lookup_data ops h (flow_rule_key (flows ! i)))
     then Some (Some (- EEXIST), s)
     else if r < 0 then Some (Some r, with_flow flows i (name, h') acts s)
     else build_flows ops flows (i + 1) n (with_flow flows i (name, h') acts s))"
  using assms
  by (cases "fr_l4_proto (flows ! i) = IPPROTO_TCP \<or> fr_l4_proto (flows ! i) = IPPROTO_UDP";
      cases "fr_reserved (flows ! i) = (0, 0, 0)"; cases "action_ok (fr_action (flows ! i))")
    (auto simp: mem_simps Let_def dp_validate_action_ok flow_rule_ok_def with_flow_def)

lemma build_routes_round:
  assumes "i < length routes" "sn_route_table s = Some (name, l)" "sn_actions s = Some acts"
    "k = unat (nf + word_of_nat i :: u32)" "k < length acts"
    "lpm_add ops l (rr_prefix (routes ! i)) (rr_depth (routes ! i)) (nf + word_of_nat i) = (r, l')"
    "p = fst (lpm_is_rule_present ops l (rr_prefix (routes ! i)) (rr_depth (routes ! i)))"
  shows "build_routes ops routes nf i (Suc n) s =
    (if \<not> route_rule_ok (routes ! i) then Some (Some (- EINVAL), s)
     else if 0 < p then Some (Some (- EEXIST), s)
     else if p < 0 then Some (Some p, s)
     else if r < 0 then Some (Some r, with_route routes i k (name, l') acts s)
     else build_routes ops routes nf (i + 1) n (with_route routes i k (name, l') acts s))"
  using assms
  by (cases "1 \<le> unat (rr_depth (routes ! i)) \<and> unat (rr_depth (routes ! i)) \<le> 32";
      cases "rr_reserved (routes ! i) = (0, 0, 0)"; cases "action_ok (rr_action (routes ! i))";
      cases "rr_prefix (routes ! i) AND depth_mask (rr_depth (routes ! i)) = rr_prefix (routes ! i)")
    (simp_all add: mem_simps Let_def dp_validate_action_ok route_rule_ok_def with_route_def
      disj_assoc [symmetric] route_depth_ok)

lemma with_keeps:
  "sn_actions s = Some acts \<Longrightarrow> sn_flow_table s = Some (name, h) \<Longrightarrow> (\<forall>ret. e = Some ret \<longrightarrow> ret < 0) \<Longrightarrow>
    loop_keeps s e (with_flow flows i (name, h') acts s)"
  "sn_actions s = Some acts \<Longrightarrow> sn_route_table s = Some (name, l) \<Longrightarrow> (\<forall>ret. e = Some ret \<longrightarrow> ret < 0) \<Longrightarrow>
    loop_keeps s e (with_route routes i k (name, l') acts s)"
  by (auto simp: loop_keeps_def snapshot_objs_def with_flow_def with_route_def)

lemma keeps_fail [simp]: "ret < 0 \<Longrightarrow> loop_keeps s (Some ret) s"
  by (simp add: loop_keeps_def)

lemma build_flows_total:
  assumes "i + n \<le> length flows" "n \<noteq> 0 \<longrightarrow> sn_flow_table s \<noteq> None"
    "n \<noteq> 0 \<longrightarrow> (\<exists>acts. sn_actions s = Some acts \<and> i + n \<le> length acts)"
  shows "\<exists>e s'. build_flows ops flows i n s = Some (e, s') \<and> loop_keeps s e s' \<and>
    sn_route_table s' = sn_route_table s"
  using assms
proof (induction n arbitrary: i s)
  case 0
  then show ?case by (simp add: loop_keeps_def)
next
  case (Suc n)
  then obtain name h acts where s: "sn_flow_table s = Some (name, h)" "sn_actions s = Some acts"
    "i + Suc n \<le> length acts" by auto
  obtain r h' where add: "hash_add_key_data ops h (flow_rule_key (flows ! i)) i = (r, h')"
    by fastforce
  let ?s = "with_flow flows i (name, h') acts s"
  have "\<exists>e s'. build_flows ops flows (i + 1) n ?s = Some (e, s') \<and> loop_keeps ?s e s' \<and>
      sn_route_table s' = sn_route_table ?s"
    using Suc.prems(1) s(3) by (intro Suc.IH) (auto simp: with_flow_def)
  moreover have "sn_route_table ?s = sn_route_table s" by (simp add: with_flow_def)
  ultimately show ?case
    using build_flows_round [OF _ s(1,2) _ add, of n] Suc.prems(1) s(3)
      with_keeps(1) [OF s(2,1)] loop_keeps_trans [of s ?s]
    by (auto simp del: build_flows.simps)
qed

lemma build_routes_total:
  assumes "i + n \<le> length routes" "n \<noteq> 0 \<longrightarrow> sn_route_table s \<noteq> None"
    "n \<noteq> 0 \<longrightarrow> (\<exists>acts. sn_actions s = Some acts \<and> unat nf + i + n \<le> length acts)"
    "unat nf + i + n < 2 ^ 32"
  shows "\<exists>e s'. build_routes ops routes nf i n s = Some (e, s') \<and> loop_keeps s e s' \<and>
    sn_flow_table s' = sn_flow_table s"
  using assms
proof (induction n arbitrary: i s)
  case 0
  then show ?case by (simp add: loop_keeps_def)
next
  case (Suc n)
  then obtain name l acts where s: "sn_route_table s = Some (name, l)" "sn_actions s = Some acts"
    "unat nf + i + Suc n \<le> length acts" by auto
  obtain r l' where add:
    "lpm_add ops l (rr_prefix (routes ! i)) (rr_depth (routes ! i)) (nf + word_of_nat i) = (r, l')"
    by fastforce
  define k where "k = unat (nf + word_of_nat i :: u32)"
  have k: "k = unat nf + i"
    using Suc.prems(4) by (simp add: k_def unat_word_ariths unat_of_nat)
  let ?s = "with_route routes i k (name, l') acts s"
  have "\<exists>e s'. build_routes ops routes nf (i + 1) n ?s = Some (e, s') \<and> loop_keeps ?s e s' \<and>
      sn_flow_table s' = sn_flow_table ?s"
    using Suc.prems(1,4) s(3) by (intro Suc.IH) (auto simp: with_route_def)
  moreover have "sn_flow_table ?s = sn_flow_table s" by (simp add: with_route_def)
  ultimately show ?case
    using build_routes_round [OF _ s(1,2) k_def _ add refl, of n] Suc.prems(1) s(3) k
      with_keeps(2) [OF s(2,1)] loop_keeps_trans [of s ?s]
    by (auto simp del: build_routes.simps)
qed

text \<open>What a caller owes: an array at least as long as its count.\<close>

definition array_arg :: "'a list option \<Rightarrow> u32 \<Rightarrow> bool" where
  "array_arg arr n \<longleftrightarrow> (\<forall>xs. arr = Some xs \<longrightarrow> unat n \<le> length xs)"

text \<open>The rules an argument pair denotes.\<close>

definition rules_of :: "'a list option \<Rightarrow> u32 \<Rightarrow> 'a list" where
  "rules_of arr n = (case arr of Some xs \<Rightarrow> take (unat n) xs | None \<Rightarrow> [])"

definition empty_snapshot :: "u64 \<Rightarrow> ('h, 'l) dp_rule_snapshot" where
  "empty_snapshot g = \<lparr>sn_flow_table = None, sn_route_table = None, sn_actions = None,
     sn_action_count = 0, sn_generation = g\<rparr>"

definition args_ok :: "dp_flow_rule list option \<Rightarrow> u32 \<Rightarrow> dp_route_rule list option \<Rightarrow> u32 \<Rightarrow> bool" where
  "args_ok flows nf routes nr \<longleftrightarrow>
     unat nf \<le> DP_MAX_FLOW_RULES \<and> unat nr \<le> DP_MAX_ROUTE_RULES \<and>
     (nf = 0 \<or> flows \<noteq> None) \<and> (nr = 0 \<or> routes \<noteq> None)"

lemma unat_counts: "args_ok flows nf routes nr \<Longrightarrow> unat (nf + nr) = unat nf + unat nr"
  by (simp add: args_ok_def DP_MAX_FLOW_RULES_def DP_MAX_ROUTE_RULES_def unat_word_ariths)

text \<open>
  The body as a sequence of its five parts: where it stops, or the snapshot after each.
\<close>

lemma build_body_runs:
  assumes e: "\<And>t. 0 \<le> rte_errno ops t"
    and args: "args_ok flows nf routes nr" "array_arg flows nf" "array_arg routes nr"
    and start: "build_step m st0 g (None, empty_snapshot g', st)"
  shows "\<exists>r. build_body ops t flows nf routes nr g (empty_snapshot g') st = Some r \<and> build_step m st0 g r"
proof -
  let ?s0 = "empty_snapshot g' :: ('a, 'b) dp_rule_snapshot"
  obtain e1 s1 st1 where 1: "build_actions ops t (nf + nr) ?s0 st = (e1, s1, st1)"
    using prod_cases3 by blast
  obtain e2 s2 st2 where 2: "build_flow_table ops (t + 1) nf g s1 st1 = (e2, s2, st2)"
    using prod_cases3 by blast
  obtain e3 s3 st3 where 3: "build_route_table ops (t + 2) nr g s2 st2 = (e3, s3, st3)"
    using prod_cases3 by blast
  note f1 = build_parts_fields(1) [OF 1] and f2 = build_parts_fields(2) [OF 2]
    and f3 = build_parts_fields(3) [OF 3]
  have b1: "build_step m st0 g (e1, s1, st1)"
    using build_parts(1) [OF e start, of t "nf + nr"] 1 by (simp add: empty_snapshot_def)
  have b2: "build_step m st0 g (e2, s2, st2)" if "e1 = None"
    using build_parts(2) [OF e, of m st0 g s1 st1 "t + 1" nf g] b1 f1 2 that
    by (simp add: empty_snapshot_def)
  have b3: "build_step m st0 g (e3, s3, st3)" if "e1 = None" "e2 = None"
    using build_parts(3) [OF e, of m st0 g s2 st2 "t + 2" nr g] b2 f1 f2 3 that
    by (simp add: empty_snapshot_def)
  have loops: ?thesis if ok: "e1 = None" "e2 = None" "e3 = None"
  proof -
    let ?fl = "case flows of Some a \<Rightarrow> a | None \<Rightarrow> []" and ?rt = "case routes of Some a \<Rightarrow> a | None \<Rightarrow> []"
    have len: "unat nf \<le> length ?fl" "unat nr \<le> length ?rt"
      using args by (auto simp: args_ok_def array_arg_def split: option.splits)
    have acts: "nf + nr \<noteq> 0 \<longrightarrow> sn_actions s3 = Some (replicate (unat nf + unat nr) zero_action)"
      using f1 f2 f3 ok unat_counts [OF args(1)] by simp
    have nz: "unat nf \<noteq> 0 \<or> unat nr \<noteq> 0 \<longrightarrow> nf + nr \<noteq> 0"
      using unat_counts [OF args(1)] by (auto simp: word_unat_eq_iff)
    have "\<exists>e4 s4. build_flows ops ?fl 0 (unat nf) s3 = Some (e4, s4) \<and> loop_keeps s3 e4 s4 \<and>
        sn_route_table s4 = sn_route_table s3"
      using len(1) acts nz f2 f3 ok by (intro build_flows_total) (auto simp: word_unat_eq_iff)
    then obtain e4 s4 where 4: "build_flows ops ?fl 0 (unat nf) s3 = Some (e4, s4)"
      "loop_keeps s3 e4 s4" "sn_route_table s4 = sn_route_table s3" by blast
    have b4: "build_step m st0 g (e4, s4, st3)"
      using 4(2) b3 ok by (simp add: build_step_def loop_keeps_def)
    have big: "unat nf + unat nr < 2 ^ 32"
      using args(1) by (simp add: args_ok_def DP_MAX_FLOW_RULES_def DP_MAX_ROUTE_RULES_def)
    have acts4: "unat nr \<noteq> 0 \<longrightarrow> (\<exists>a. sn_actions s4 = Some a \<and> unat nf + unat nr \<le> length a)"
      using 4(2) acts nz by (auto simp: loop_keeps_def)
    have "\<exists>e5 s5. build_routes ops ?rt nf 0 (unat nr) s4 = Some (e5, s5) \<and> loop_keeps s4 e5 s5 \<and>
        sn_flow_table s5 = sn_flow_table s4"
      using len(2) acts4 f3 4(3) ok big by (intro build_routes_total) (auto simp: word_unat_eq_iff)
    then obtain e5 s5 where 5: "build_routes ops ?rt nf 0 (unat nr) s4 = Some (e5, s5)"
      "loop_keeps s4 e5 s5" by blast
    have b5: "build_step m st0 g (e5, s5, st3)"
      using 5(2) b4 by (simp add: build_step_def loop_keeps_def)
    show ?thesis
      using 1 2 3 4(1) 5(1) b4 b5 ok by (auto simp: build_body_def)
  qed
  show ?thesis
  proof (cases "e1 = None \<and> e2 = None \<and> e3 = None")
    case True
    with loops show ?thesis by blast
  next
    case False
    then show ?thesis using 1 2 3 b1 b2 b3 by (auto simp: build_body_def)
  qed
qed

lemma dp_snapshot_build_cases:
  assumes e: "\<And>t. 0 \<le> rte_errno ops t" and arr: "array_arg flows nf" "array_arg routes nr"
  shows "(\<exists>s. dp_snapshot_build ops t flows nf routes nr g st =
        Some (0, Some s, st\<lparr>g_live := g_live st + snapshot_objs s\<rparr>) \<and> sn_generation s = g) \<or>
    (\<exists>ret. dp_snapshot_build ops t flows nf routes nr g st = Some (ret, None, st) \<and> ret < 0)"
proof (cases "args_ok flows nf routes nr \<and> zmalloc_socket ops t ''dfr_rule_snapshot''
    sizeof_rule_snapshot (ri_socket_id (g_info st))")
  case True
  let ?st = "rte_acquire (Obj_Snapshot g) st"
  have "build_step (g_live st) st g (None, empty_snapshot g :: ('a, 'b) dp_rule_snapshot, ?st)"
    by (simp add: build_step_def rte_acquire_def snapshot_objs_def empty_snapshot_def)
  from build_body_runs [OF e _ arr this, of "t + 1"] True
  obtain r s st' where r: "build_body ops (t + 1) flows nf routes nr g (empty_snapshot g) ?st =
      Some (r, s, st')" and b: "build_step (g_live st) st g (r, s, st')" by auto
  have eq: "dp_snapshot_build ops t flows nf routes nr g st =
      (case r of None \<Rightarrow> Some (0, Some s, st') | Some ret \<Rightarrow> do {
         st \<leftarrow> dp_snapshot_free (Some s) False False st'; Some (ret, None, st) })"
    using True r by (auto simp: dp_snapshot_build_def args_ok_def empty_snapshot_def Let_def not_less)
  show ?thesis
  proof (cases r)
    case None
    then show ?thesis using eq b by (simp add: build_step_def)
  next
    case (Some ret)
    have "dp_snapshot_free (Some s) False False st' = Some st"
      using b by (subst dp_snapshot_free_frees [where m = "g_live st"]) (auto simp: build_step_def)
    then show ?thesis using eq b Some by (simp add: build_step_def)
  qed
next
  case False
  then show ?thesis
    using errno_or_neg [OF e, of ENOMEM]
    by (auto simp: dp_snapshot_build_def args_ok_def)
qed

section \<open>What a snapshot represents\<close>

text \<open>
  The rules a snapshot stands for: the flow keys in their order give the hash, each with its
  position, the route prefixes give the LPM, each with its position after the flows, and the
  action array holds the actions in the same order. \<open>rules_valid\<close> is the acceptance condition.
\<close>

definition route_key :: "dp_route_rule \<Rightarrow> u32 \<times> u8" where
  "route_key r = (rr_prefix r, rr_depth r)"

definition rules_valid :: "dp_flow_rule list \<Rightarrow> dp_route_rule list \<Rightarrow> bool" where
  "rules_valid flows routes \<longleftrightarrow>
     list_all flow_rule_ok flows \<and> distinct (map flow_rule_key flows) \<and>
     list_all route_rule_ok routes \<and> distinct (map route_key routes)"

definition key_index :: "'k list \<Rightarrow> 'k \<Rightarrow> nat option" where
  "key_index ks = map_of (zip ks [0..<length ks])"

definition route_index :: "nat \<Rightarrow> (u32 \<times> u8) list \<Rightarrow> u32 \<times> u8 \<Rightarrow> u32 option" where
  "route_index nf ks k = map_option (\<lambda>i. word_of_nat (nf + i)) (key_index ks k)"

definition flows_done ::
  "('h, 'l) table_view \<Rightarrow> dp_flow_rule list \<Rightarrow> string \<times> 'h \<Rightarrow> dp_rule_action list \<Rightarrow> bool" where
  "flows_done tv pre table acts \<longleftrightarrow>
     hash_inv tv (snd table) \<and> hash_map tv (snd table) = key_index (map flow_rule_key pre) \<and>
     take (length pre) acts = map fr_action pre \<and>
     list_all flow_rule_ok pre \<and> distinct (map flow_rule_key pre)"

definition routes_done ::
  "('h, 'l) table_view \<Rightarrow> nat \<Rightarrow> dp_route_rule list \<Rightarrow> string \<times> 'l \<Rightarrow> dp_rule_action list \<Rightarrow> bool" where
  "routes_done tv nf pre table acts \<longleftrightarrow>
     lpm_inv tv (snd table) \<and> lpm_rules tv (snd table) = route_index nf (map route_key pre) \<and>
     take (length pre) (drop nf acts) = map rr_action pre \<and>
     list_all route_rule_ok pre \<and> distinct (map route_key pre)"

definition snapshot_repr ::
  "('h, 'l) table_view \<Rightarrow> dp_flow_rule list \<Rightarrow> dp_route_rule list \<Rightarrow> ('h, 'l) dp_rule_snapshot \<Rightarrow> bool" where
  "snapshot_repr tv flows routes s \<longleftrightarrow>
     rules_valid flows routes \<and>
     sn_actions s = (if flows = [] \<and> routes = [] then None
       else Some (map fr_action flows @ map rr_action routes)) \<and>
     unat (sn_action_count s) = length flows + length routes \<and>
     length flows + length routes \<le> DP_MAX_FLOW_RULES + DP_MAX_ROUTE_RULES \<and>
     (case sn_flow_table s of
        None \<Rightarrow> flows = []
      | Some (name, h) \<Rightarrow> name = flow_name (sn_generation s) \<and> hash_inv tv h \<and>
          hash_map tv h = key_index (map flow_rule_key flows)) \<and>
     (case sn_route_table s of
        None \<Rightarrow> routes = []
      | Some (name, l) \<Rightarrow> name = route_name (sn_generation s) \<and> lpm_inv tv l \<and>
          lpm_rules tv l = route_index (length flows) (map route_key routes))"

lemma key_index_Nil [simp]: "key_index [] = Map.empty"
  by (simp add: key_index_def)

lemma key_index_None: "key_index ks k = None \<longleftrightarrow> k \<notin> set ks"
  using dom_map_of_zip [of ks "[0..<length ks]"] by (auto simp: key_index_def)

lemma key_index_snoc: "k \<notin> set ks \<Longrightarrow> key_index (ks @ [k]) = (key_index ks)(k \<mapsto> length ks)"
proof -
  assume "k \<notin> set ks"
  moreover have "key_index (ks @ [k]) = [k \<mapsto> length ks] ++ key_index ks"
    by (simp add: key_index_def)
  ultimately show ?thesis
    using key_index_None [of ks k] by (auto simp: fun_eq_iff map_add_def split: option.splits)
qed

lemma key_index_Some: "distinct ks \<Longrightarrow> key_index ks k = Some i \<longleftrightarrow> i < length ks \<and> ks ! i = k"
  by (auto simp: key_index_def in_set_zip)

lemma route_index_snoc: "k \<notin> set ks \<Longrightarrow>
    route_index nf (ks @ [k]) = (route_index nf ks)(k \<mapsto> word_of_nat (nf + length ks))"
  by (auto simp: route_index_def key_index_snoc fun_eq_iff)

lemma route_index_None: "route_index nf ks k = None \<longleftrightarrow> k \<notin> set ks"
  by (simp add: route_index_def key_index_None)

lemma route_index_Nil [simp]: "route_index nf [] = Map.empty"
  by (simp add: route_index_def fun_eq_iff)

text \<open>The first error of a rule list, in the order the loops meet them.\<close>

fun flows_error :: "dp_flow_key set \<Rightarrow> dp_flow_rule list \<Rightarrow> int option" where
  "flows_error seen [] = None"
| "flows_error seen (r # rs) =
     (if \<not> flow_rule_ok r then Some (- EINVAL)
      else if flow_rule_key r \<in> seen then Some (- EEXIST)
      else flows_error (insert (flow_rule_key r) seen) rs)"

fun routes_error :: "(u32 \<times> u8) set \<Rightarrow> dp_route_rule list \<Rightarrow> int option" where
  "routes_error seen [] = None"
| "routes_error seen (r # rs) =
     (if \<not> route_rule_ok r then Some (- EINVAL)
      else if route_key r \<in> seen then Some (- EEXIST)
      else routes_error (insert (route_key r) seen) rs)"

lemma flows_error_None: "flows_error seen rs = None \<longleftrightarrow>
    list_all flow_rule_ok rs \<and> distinct (map flow_rule_key rs) \<and> seen \<inter> flow_rule_key ` set rs = {}"
  by (induction rs arbitrary: seen) auto

lemma routes_error_None: "routes_error seen rs = None \<longleftrightarrow>
    list_all route_rule_ok rs \<and> distinct (map route_key rs) \<and> seen \<inter> route_key ` set rs = {}"
  by (induction rs arbitrary: seen) auto

lemma snapshot_same:
  "sn_flow_table s = ft \<Longrightarrow> sn_actions s = ac \<Longrightarrow> s\<lparr>sn_flow_table := ft, sn_actions := ac\<rparr> = s"
  "sn_route_table s = rt \<Longrightarrow> sn_actions s = ac \<Longrightarrow> s\<lparr>sn_route_table := rt, sn_actions := ac\<rparr> = s"
  by auto

context rte_table_laws
begin

lemma flows_done_step:
  assumes "flows_done tv (take i flows) (name, h) acts" "i < length flows" "i < length acts"
    "flow_rule_ok (flows ! i)" "\<not> 0 \<le> fst (hash_lookup_data ops h (flow_rule_key (flows ! i)))"
    "hash_add_key_data ops h (flow_rule_key (flows ! i)) i = (r, h')" "\<not> r < 0"
  shows "flows_done tv (take (Suc i) flows) (name, h') (acts[i := fr_action (flows ! i)])"
proof -
  let ?k = "flow_rule_key (flows ! i)"
  have inv: "hash_inv tv h" "hash_map tv h = key_index (map flow_rule_key (take i flows))"
    using assms(1) by (simp_all add: flows_done_def)
  have new: "?k \<notin> flow_rule_key ` set (take i flows)"
    using assms(5) hash_lookup_hit [OF inv(1), of ?k] inv(2) by (simp add: key_index_None)
  have "hash_inv tv h' \<and> hash_map tv h' = (hash_map tv h)(?k \<mapsto> i)"
    using hash_add_law [OF inv(1) assms(6)] assms(7) by simp
  then show ?thesis
    using assms(1-4) new inv(2)
    by (simp add: flows_done_def take_Suc_conv_app_nth key_index_snoc)
qed

lemma build_flows_done:
  assumes "build_flows ops flows i n s = Some (None, s')" "sn_flow_table s = Some (name, h)"
    "sn_actions s = Some acts" "flows_done tv (take i flows) (name, h) acts"
    "i + n \<le> length flows" "i + n \<le> length acts"
  shows "\<exists>h' acts'. s' = s\<lparr>sn_flow_table := Some (name, h'), sn_actions := Some acts'\<rparr> \<and>
    length acts' = length acts \<and> flows_done tv (take (i + n) flows) (name, h') acts'"
  using assms
proof (induction n arbitrary: i s h acts)
  case 0
  then show ?case by (auto intro!: exI snapshot_same(1) [symmetric])
next
  case (Suc n)
  obtain r h' where add: "hash_add_key_data ops h (flow_rule_key (flows ! i)) i = (r, h')"
    by fastforce
  let ?s = "with_flow flows i (name, h') acts s" and ?acts = "acts[i := fr_action (flows ! i)]"
  have ok: "flow_rule_ok (flows ! i)" "\<not> 0 \<le> fst (hash_lookup_data ops h (flow_rule_key (flows ! i)))"
    "\<not> r < 0" "build_flows ops flows (i + 1) n ?s = Some (None, s')"
    using Suc.prems(1) build_flows_round [OF _ Suc.prems(2,3) _ add, of n] Suc.prems(5,6)
    by (auto simp del: build_flows.simps split: if_splits)
  have "flows_done tv (take (Suc i) flows) (name, h') ?acts"
    using flows_done_step [OF Suc.prems(4) _ _ ok(1,2) add ok(3)] Suc.prems(5,6) by simp
  then have "\<exists>h'' acts'. s' = ?s\<lparr>sn_flow_table := Some (name, h''), sn_actions := Some acts'\<rparr> \<and>
      length acts' = length ?acts \<and> flows_done tv (take (i + 1 + n) flows) (name, h'') acts'"
    using ok(4) Suc.prems(5,6) by (intro Suc.IH) (auto simp: with_flow_def)
  then show ?case by (auto simp: with_flow_def)
qed

lemma routes_done_step:
  assumes "routes_done tv nf (take i routes) (name, l) acts" "i < length routes" "nf + i < length acts"
    "route_rule_ok (routes ! i)"
    "\<not> 0 < fst (lpm_is_rule_present ops l (rr_prefix (routes ! i)) (rr_depth (routes ! i)))"
    "lpm_add ops l (rr_prefix (routes ! i)) (rr_depth (routes ! i)) (word_of_nat (nf + i)) = (r, l')"
    "\<not> r < 0" "nf + i < 2 ^ 24"
  shows "routes_done tv nf (take (Suc i) routes) (name, l') (acts[nf + i := rr_action (routes ! i)])"
proof -
  let ?r = "routes ! i"
  have d: "1 \<le> unat (rr_depth ?r)" "unat (rr_depth ?r) \<le> 32"
    and p: "rr_prefix ?r AND depth_mask (rr_depth ?r) = rr_prefix ?r"
    using assms(4) by (simp_all add: route_rule_ok_def)
  have inv: "lpm_inv tv l" "lpm_rules tv l = route_index nf (map route_key (take i routes))"
    using assms(1) by (simp_all add: routes_done_def)
  have new: "route_key ?r \<notin> route_key ` set (take i routes)"
    using assms(5) lpm_present_hit [OF inv(1) d, of "rr_prefix ?r"] inv(2) p
    by (simp add: route_index_None route_key_def split: if_splits)
  have "unat (word_of_nat (nf + i) :: u32) < 2 ^ 24"
    using assms(8) by (simp add: unat_of_nat del: of_nat_add)
  then have "lpm_inv tv l' \<and> lpm_rules tv l' = (lpm_rules tv l)(route_key ?r \<mapsto> word_of_nat (nf + i))"
    using lpm_add_law [OF inv(1) d _ assms(6)] assms(7) p by (simp add: route_key_def)
  moreover have "take (Suc i) (drop nf (acts[nf + i := rr_action ?r])) =
      take i (drop nf acts) @ [rr_action ?r]"
    using assms(3) by (simp add: drop_update_swap take_Suc_conv_app_nth)
  ultimately show ?thesis
    using assms(1-4) new inv(2)
    by (simp add: routes_done_def take_Suc_conv_app_nth route_index_snoc)
qed

lemma build_routes_done:
  assumes "build_routes ops routes nf i n s = Some (None, s')" "sn_route_table s = Some (name, l)"
    "sn_actions s = Some acts" "routes_done tv (unat nf) (take i routes) (name, l) acts"
    "i + n \<le> length routes" "unat nf + i + n \<le> length acts" "unat nf + i + n < 2 ^ 24"
  shows "\<exists>l' acts'. s' = s\<lparr>sn_route_table := Some (name, l'), sn_actions := Some acts'\<rparr> \<and>
    length acts' = length acts \<and> take (unat nf) acts' = take (unat nf) acts \<and>
    routes_done tv (unat nf) (take (i + n) routes) (name, l') acts'"
  using assms
proof (induction n arbitrary: i s l acts)
  case 0
  then show ?case by (auto intro!: exI snapshot_same(2) [symmetric])
next
  case (Suc n)
  have w: "nf + word_of_nat i = (word_of_nat (unat nf + i) :: u32)" by simp
  have k: "unat nf + i = unat (nf + word_of_nat i :: u32)"
    using Suc.prems(7) by (simp add: unat_word_ariths unat_of_nat)
  obtain r l' where add:
    "lpm_add ops l (rr_prefix (routes ! i)) (rr_depth (routes ! i)) (nf + word_of_nat i) = (r, l')"
    by fastforce
  let ?acts = "acts[unat nf + i := rr_action (routes ! i)]"
  let ?s = "with_route routes i (unat nf + i) (name, l') acts s"
  have ok: "route_rule_ok (routes ! i)"
    "\<not> 0 < fst (lpm_is_rule_present ops l (rr_prefix (routes ! i)) (rr_depth (routes ! i)))"
    "\<not> r < 0" "build_routes ops routes nf (i + 1) n ?s = Some (None, s')"
    using Suc.prems(1) build_routes_round [OF _ Suc.prems(2,3) k _ add refl, of n] Suc.prems(5,6)
    by (auto simp del: build_routes.simps split: if_splits)
  have "routes_done tv (unat nf) (take (Suc i) routes) (name, l') ?acts"
    using routes_done_step [OF Suc.prems(4) _ _ ok(1,2) add [unfolded w] ok(3)] Suc.prems(5-7) by simp
  then have "\<exists>l'' acts'. s' = ?s\<lparr>sn_route_table := Some (name, l''), sn_actions := Some acts'\<rparr> \<and>
      length acts' = length ?acts \<and> take (unat nf) acts' = take (unat nf) ?acts \<and>
      routes_done tv (unat nf) (take (i + 1 + n) routes) (name, l'') acts'"
    using ok(4) Suc.prems(5-7) by (intro Suc.IH) (auto simp: with_route_def)
  then show ?case by (auto simp: with_route_def)
qed

end

lemma deep_blocks_mono: "A \<subseteq> B \<Longrightarrow> deep_blocks A \<subseteq> deep_blocks B"
  by (auto simp: deep_blocks_def)

lemma finite_deep_blocks: "finite A \<Longrightarrow> finite (deep_blocks A)"
  by (simp add: deep_blocks_def)

context rte_table_room
begin

lemma build_flows_exact:
  assumes "sn_flow_table s = Some (name, h)" "sn_actions s = Some acts"
    "flows_done tv (take i flows) (name, h) acts"
    "i + n \<le> length flows" "i + n \<le> length acts" "n \<le> hash_room tv h"
  shows "\<exists>s'. build_flows ops flows i n s =
    Some (flows_error (flow_rule_key ` set (take i flows)) (take n (drop i flows)), s')"
  using assms
proof (induction n arbitrary: i s h acts)
  case 0
  then show ?case by simp
next
  case (Suc n)
  let ?f = "flows ! i"
  obtain r h' where add: "hash_add_key_data ops h (flow_rule_key ?f) i = (r, h')"
    by fastforce
  let ?s = "with_flow flows i (name, h') acts s" and ?acts = "acts[i := fr_action ?f]"
  have inv: "hash_inv tv h" "hash_map tv h = key_index (map flow_rule_key (take i flows))"
    using Suc.prems(3) by (simp_all add: flows_done_def)
  have r: "\<not> r < 0" "n \<le> hash_room tv h'"
    using hash_add_room [OF inv(1) _ add] Suc.prems(6) by auto
  have hit: "0 \<le> fst (hash_lookup_data ops h (flow_rule_key ?f)) \<longleftrightarrow>
      flow_rule_key ?f \<in> flow_rule_key ` set (take i flows)"
    using hash_lookup_hit [OF inv(1), of "flow_rule_key ?f"]
      key_index_None [of "map flow_rule_key (take i flows)" "flow_rule_key ?f"]
    by (simp add: inv(2))
  have list: "take (Suc n) (drop i flows) = ?f # take n (drop (Suc i) flows)"
    using Suc.prems(4) by (simp add: Cons_nth_drop_Suc [symmetric])
  have keys: "insert (flow_rule_key ?f) (flow_rule_key ` set (take i flows)) =
      flow_rule_key ` set (take (Suc i) flows)"
    using Suc.prems(4) by (simp add: take_Suc_conv_app_nth)
  have round: "build_flows ops flows i (Suc n) s =
    (if \<not> flow_rule_ok ?f then Some (Some (- EINVAL), s)
     else if 0 \<le> fst (hash_lookup_data ops h (flow_rule_key ?f)) then Some (Some (- EEXIST), s)
     else build_flows ops flows (i + 1) n ?s)"
    using build_flows_round [OF _ Suc.prems(1,2) _ add, of n] Suc.prems(4,5) r(1) by simp
  have "\<exists>s'. build_flows ops flows (i + 1) n ?s =
      Some (flows_error (flow_rule_key ` set (take (i + 1) flows)) (take n (drop (i + 1) flows)), s')"
    if "flow_rule_ok ?f" "\<not> 0 \<le> fst (hash_lookup_data ops h (flow_rule_key ?f))"
    using flows_done_step [OF Suc.prems(3) _ _ that add r(1)] Suc.prems(4,5) r(2)
    by (intro Suc.IH [where acts = ?acts and h = h']) (auto simp: with_flow_def)
  then show ?case
    unfolding round list using hit keys by auto
qed

lemma build_routes_exact:
  assumes "sn_route_table s = Some (name, l)" "sn_actions s = Some acts"
    "routes_done tv (unat nf) (take i routes) (name, l) acts"
    "i + n \<le> length routes" "unat nf + i + n \<le> length acts" "unat nf + i + n < 2 ^ 24"
    "n \<le> lpm_room tv l" "card (deep_blocks (route_key ` set (take (i + n) routes))) \<le> lpm_tbl8s tv l"
  shows "\<exists>s'. build_routes ops routes nf i n s =
    Some (routes_error (route_key ` set (take i routes)) (take n (drop i routes)), s')"
  using assms
proof (induction n arbitrary: i s l acts)
  case 0
  then show ?case by simp
next
  case (Suc n)
  let ?f = "routes ! i"
  have w: "nf + word_of_nat i = (word_of_nat (unat nf + i) :: u32)" by simp
  have k: "unat nf + i = unat (nf + word_of_nat i :: u32)"
    using Suc.prems(6) by (simp add: unat_word_ariths unat_of_nat)
  obtain r l' where add:
    "lpm_add ops l (rr_prefix ?f) (rr_depth ?f) (nf + word_of_nat i) = (r, l')"
    by fastforce
  define p where "p = fst (lpm_is_rule_present ops l (rr_prefix ?f) (rr_depth ?f))"
  let ?s = "with_route routes i (unat nf + i) (name, l') acts s"
    and ?acts = "acts[unat nf + i := rr_action ?f]"
  have inv: "lpm_inv tv l" "lpm_rules tv l = route_index (unat nf) (map route_key (take i routes))"
    using Suc.prems(3) by (simp_all add: routes_done_def)
  have list: "take (Suc n) (drop i routes) = ?f # take n (drop (Suc i) routes)"
    using Suc.prems(4) by (simp add: Cons_nth_drop_Suc [symmetric])
  have keys: "insert (route_key ?f) (route_key ` set (take i routes)) =
      route_key ` set (take (Suc i) routes)"
    using Suc.prems(4) by (simp add: take_Suc_conv_app_nth)
  have dom: "dom (lpm_rules tv l) = route_key ` set (take i routes)"
    using route_index_None [of "unat nf" "map route_key (take i routes)"] inv(2)
    by (auto simp: dom_def)
  have p: "p = (if route_key ?f \<in> route_key ` set (take i routes) then 1 else 0)" if "route_rule_ok ?f"
    using lpm_present_hit [OF inv(1), of "rr_depth ?f" "rr_prefix ?f"] that inv(2)
    by (simp add: p_def route_rule_ok_def route_index_None route_key_def)
  have r: "\<not> r < 0" "n \<le> lpm_room tv l'" "lpm_tbl8s tv l' = lpm_tbl8s tv l" if "route_rule_ok ?f"
  proof -
    have "route_key ` set (take (Suc i) routes) \<subseteq> route_key ` set (take (i + Suc n) routes)"
      by (intro image_mono set_take_subset_set_take) simp
    then have "card (deep_blocks (route_key ` set (take (Suc i) routes))) \<le>
        card (deep_blocks (route_key ` set (take (i + Suc n) routes)))"
      by (intro card_mono deep_blocks_mono finite_deep_blocks) auto
    also have "\<dots> \<le> lpm_tbl8s tv l" by (rule Suc.prems(8))
    finally have "card (deep_blocks (insert (rr_prefix ?f AND depth_mask (rr_depth ?f), rr_depth ?f)
        (dom (lpm_rules tv l)))) \<le> lpm_tbl8s tv l"
      using that keys dom by (simp add: route_rule_ok_def route_key_def)
    from lpm_add_room [OF inv(1) _ _ _ this add] Suc.prems(7) that
    show "\<not> r < 0" "n \<le> lpm_room tv l'" "lpm_tbl8s tv l' = lpm_tbl8s tv l"
      by (auto simp: route_rule_ok_def)
  qed
  have round: "build_routes ops routes nf i (Suc n) s =
    (if \<not> route_rule_ok ?f then Some (Some (- EINVAL), s)
     else if route_key ?f \<in> route_key ` set (take i routes) then Some (Some (- EEXIST), s)
     else build_routes ops routes nf (i + 1) n ?s)"
    using build_routes_round [OF _ Suc.prems(1,2) k _ add p_def, of n] Suc.prems(4,5) r(1) p by simp
  have "\<exists>s'. build_routes ops routes nf (i + 1) n ?s =
      Some (routes_error (route_key ` set (take (i + 1) routes)) (take n (drop (i + 1) routes)), s')"
    if "route_rule_ok ?f" "route_key ?f \<notin> route_key ` set (take i routes)"
    using routes_done_step [OF Suc.prems(3) _ _ that(1) _ add [unfolded w] r(1) [OF that(1)]]
      Suc.prems(4-8) r(2,3) [OF that(1)] p [OF that(1)] that(2)
    by (intro Suc.IH [where acts = ?acts and l = l']) (auto simp: with_route_def p_def [symmetric])
  then show ?case
    unfolding round list using keys by auto
qed

end

lemma dp_snapshot_build_Some:
  assumes "dp_snapshot_build ops t flows nf routes nr g st = Some (ret, Some s, st')"
  shows "args_ok flows nf routes nr \<and> ret = 0 \<and>
    build_body ops (t + 1) flows nf routes nr g (empty_snapshot g) (rte_acquire (Obj_Snapshot g) st) =
      Some (None, s, st')"
  using assms
  by (auto simp: dp_snapshot_build_def args_ok_def empty_snapshot_def Let_def not_less
      split: if_splits option.splits Option.bind_splits)

text \<open>The state of a build whose loops are about to run.\<close>

lemma build_body_loops:
  assumes "build_body ops t flows nf routes nr g (empty_snapshot g) st = Some (None, s, st')"
    and args: "args_ok flows nf routes nr" "array_arg flows nf" "array_arg routes nr"
  shows "\<exists>s3 s4.
    build_flows ops (case flows of Some a \<Rightarrow> a | None \<Rightarrow> []) 0 (unat nf) s3 = Some (None, s4) \<and>
    build_routes ops (case routes of Some a \<Rightarrow> a | None \<Rightarrow> []) nf 0 (unat nr) s4 = Some (None, s) \<and>
    sn_actions s3 = (if nf + nr = 0 then None else Some (replicate (unat nf + unat nr) zero_action)) \<and>
    sn_action_count s3 = nf + nr \<and> sn_generation s3 = g \<and>
    (case sn_flow_table s3 of None \<Rightarrow> nf = 0 | Some (name, h) \<Rightarrow> nf \<noteq> 0 \<and> name = flow_name g \<and>
       (\<exists>t p. hash_create ops t p = Some h)) \<and>
    (case sn_route_table s3 of None \<Rightarrow> nr = 0 | Some (name, l) \<Rightarrow> nr \<noteq> 0 \<and> name = route_name g \<and>
       (\<exists>t p. lpm_create ops t p = Some l))"
proof -
  obtain e1 s1 st1 where 1: "build_actions ops t (nf + nr) (empty_snapshot g) st = (e1, s1, st1)"
    using prod_cases3 by blast
  obtain e2 s2 st2 where 2: "build_flow_table ops (t + 1) nf g s1 st1 = (e2, s2, st2)"
    using prod_cases3 by blast
  obtain e3 s3 st3 where 3: "build_route_table ops (t + 2) nr g s2 st2 = (e3, s3, st3)"
    using prod_cases3 by blast
  have gen: "sn_generation s3 = g"
    using 1 2 3 by (auto simp: build_actions_def build_flow_table_def build_route_table_def
        empty_snapshot_def Let_def split: if_splits option.splits)
  obtain e4 s4 where ok: "e1 = None" "e2 = None" "e3 = None" "e4 = None"
    "build_flows ops (case flows of Some a \<Rightarrow> a | None \<Rightarrow> []) 0 (unat nf) s3 = Some (e4, s4)"
    "build_routes ops (case routes of Some a \<Rightarrow> a | None \<Rightarrow> []) nf 0 (unat nr) s4 = Some (None, s)"
    using assms(1) 1 2 3
    by (auto simp: build_body_def split: if_splits Option.bind_splits)
  have acts: "sn_actions s3 = (if nf + nr = 0 then None else Some (replicate (unat nf + unat nr) zero_action))"
    "sn_action_count s3 = nf + nr"
    using build_parts_fields(1) [OF 1] build_parts_fields(2) [OF 2] build_parts_fields(3) [OF 3] ok
      unat_counts [OF args(1)] by (auto simp: empty_snapshot_def)
  note f1 = build_parts_fields(1) [OF 1] and f2 = build_parts_fields(2) [OF 2]
    and f3 = build_parts_fields(3) [OF 3]
  have s0: "sn_flow_table s1 = None" "sn_route_table s1 = None"
    using f1 by (simp_all add: empty_snapshot_def)
  have t2: "case sn_flow_table s2 of None \<Rightarrow> nf = 0 | Some (name, h) \<Rightarrow> nf \<noteq> 0 \<and> name = flow_name g \<and>
       (\<exists>t p. hash_create ops t p = Some h)"
    using f2 s0(1) ok(2) by (cases "nf = 0") (auto, blast+)
  have t3: "case sn_route_table s3 of None \<Rightarrow> nr = 0 | Some (name, l) \<Rightarrow> nr \<noteq> 0 \<and> name = route_name g \<and>
       (\<exists>t p. lpm_create ops t p = Some l)"
    using f2 f3 s0(2) ok(3) by (cases "nr = 0") (auto, blast+)
  have "sn_flow_table s3 = sn_flow_table s2" using f3 by simp
  with t2 t3 have tables: "case sn_flow_table s3 of None \<Rightarrow> nf = 0 | Some (name, h) \<Rightarrow> nf \<noteq> 0 \<and> name = flow_name g \<and>
       (\<exists>t p. hash_create ops t p = Some h)"
    "case sn_route_table s3 of None \<Rightarrow> nr = 0 | Some (name, l) \<Rightarrow> nr \<noteq> 0 \<and> name = route_name g \<and>
       (\<exists>t p. lpm_create ops t p = Some l)"
    by simp_all
  show ?thesis
    using ok acts tables gen by (intro exI [of _ s3] exI [of _ s4]) simp
qed

lemma rules_of_take:
  "n = 0 \<or> arr \<noteq> None \<Longrightarrow> rules_of arr n = take (unat n) (case arr of Some a \<Rightarrow> a | None \<Rightarrow> [])"
  by (auto simp: rules_of_def split: option.splits)

lemma length_rules_of: "n = 0 \<or> arr \<noteq> None \<Longrightarrow> array_arg arr n \<Longrightarrow> length (rules_of arr n) = unat n"
  by (auto simp: rules_of_def array_arg_def split: option.splits)

context rte_table_laws
begin

lemma build_body_repr:
  assumes b: "build_body ops t flows nf routes nr g (empty_snapshot g) st = Some (None, s, st')"
    and args: "args_ok flows nf routes nr" "array_arg flows nf" "array_arg routes nr"
  shows "snapshot_repr tv (rules_of flows nf) (rules_of routes nr) s"
proof -
  let ?fl = "case flows of Some a \<Rightarrow> a | None \<Rightarrow> []" and ?rt = "case routes of Some a \<Rightarrow> a | None \<Rightarrow> []"
  from build_body_loops [OF b args] obtain s3 s4 where
    loops: "build_flows ops ?fl 0 (unat nf) s3 = Some (None, s4)"
      "build_routes ops ?rt nf 0 (unat nr) s4 = Some (None, s)"
    and s3: "sn_actions s3 = (if nf + nr = 0 then None else Some (replicate (unat nf + unat nr) zero_action))"
      "sn_action_count s3 = nf + nr" "sn_generation s3 = g"
      "case sn_flow_table s3 of None \<Rightarrow> nf = 0 | Some (name, h) \<Rightarrow> nf \<noteq> 0 \<and> name = flow_name g \<and>
       (\<exists>t p. hash_create ops t p = Some h)"
      "case sn_route_table s3 of None \<Rightarrow> nr = 0 | Some (name, l) \<Rightarrow> nr \<noteq> 0 \<and> name = route_name g \<and>
       (\<exists>t p. lpm_create ops t p = Some l)"
    by blast
  have fl: "rules_of flows nf = take (unat nf) ?fl" "length (rules_of flows nf) = unat nf"
    and rt: "rules_of routes nr = take (unat nr) ?rt" "length (rules_of routes nr) = unat nr"
    using args by (auto simp only: args_ok_def intro: rules_of_take length_rules_of)
  have len: "unat nf \<le> length ?fl" "unat nr \<le> length ?rt"
    using fl rt by (metis length_take min.cobounded1)+
  have small: "unat nf + unat nr \<le> DP_MAX_FLOW_RULES + DP_MAX_ROUTE_RULES" "unat nf + unat nr < 2 ^ 24"
    using args(1) by (simp_all add: args_ok_def DP_MAX_FLOW_RULES_def DP_MAX_ROUTE_RULES_def)
  have cnt: "unat (nf + nr) = unat nf + unat nr" by (rule unat_counts [OF args(1)])
  have zero: "nf = 0 \<longleftrightarrow> rules_of flows nf = []" "nr = 0 \<longleftrightarrow> rules_of routes nr = []"
    using fl(2) rt(2) by (metis length_0_conv unat_eq_zero)+
  have nz: "nf + nr \<noteq> 0" if "nf \<noteq> 0 \<or> nr \<noteq> 0"
    using that cnt by (auto simp: word_unat_eq_iff)
  text \<open>After the flow loop.\<close>
  have s4: "\<exists>acts. sn_actions s4 = (if nf + nr = 0 then None else Some acts) \<and>
      length acts = unat nf + unat nr \<and> sn_action_count s4 = nf + nr \<and> sn_generation s4 = g \<and>
      sn_route_table s4 = sn_route_table s3 \<and>
      (case sn_flow_table s4 of None \<Rightarrow> nf = 0
       | Some (name, h) \<Rightarrow> name = flow_name g \<and> flows_done tv (rules_of flows nf) (name, h) acts) \<and>
      take (unat nf) acts = map fr_action (rules_of flows nf)"
  proof (cases "nf = 0")
    case True
    then show ?thesis using loops(1) s3 fl(2)
      by (auto split: option.splits intro: exI [of _ "replicate (unat nr) zero_action"])
  next
    case False
    let ?acts = "replicate (unat nf + unat nr) zero_action"
    obtain name h where h: "sn_flow_table s3 = Some (name, h)" "name = flow_name g"
      "\<exists>t p. hash_create ops t p = Some h"
      using s3(4) False by (auto split: option.splits)
    have "hash_inv tv h \<and> hash_map tv h = Map.empty"
      using h(3) hash_create_law by blast
    then have start: "flows_done tv (take 0 ?fl) (name, h) ?acts"
      by (simp add: flows_done_def)
    have "sn_actions s3 = Some ?acts" using s3(1) nz False by simp
    from build_flows_done [OF loops(1) h(1) this start] len(1)
    obtain h' acts where "s4 = s3\<lparr>sn_flow_table := Some (name, h'), sn_actions := Some acts\<rparr>"
      "length acts = unat nf + unat nr" "flows_done tv (take (unat nf) ?fl) (name, h') acts" by auto
    then show ?thesis
      using False nz s3(2,3) h(2) fl
      by (auto simp: flows_done_def intro!: exI [of _ acts])
  qed
  then obtain acts where s4: "sn_actions s4 = (if nf + nr = 0 then None else Some acts)"
      "length acts = unat nf + unat nr" "sn_action_count s4 = nf + nr" "sn_generation s4 = g"
      "sn_route_table s4 = sn_route_table s3"
      "case sn_flow_table s4 of None \<Rightarrow> nf = 0
       | Some (name, h) \<Rightarrow> name = flow_name g \<and> flows_done tv (rules_of flows nf) (name, h) acts"
      "take (unat nf) acts = map fr_action (rules_of flows nf)" by blast
  have fl_ok: "list_all flow_rule_ok (rules_of flows nf) \<and> distinct (map flow_rule_key (rules_of flows nf))"
    using s4(6) fl by (auto simp: flows_done_def split: option.splits)
  have flow_side: "case sn_flow_table s4 of None \<Rightarrow> rules_of flows nf = []
      | Some (name, h) \<Rightarrow> name = flow_name g \<and> hash_inv tv h \<and>
          hash_map tv h = key_index (map flow_rule_key (rules_of flows nf))"
    using s4(6) zero(1) by (auto simp: flows_done_def split: option.splits)
  have none: "nf + nr = 0 \<longleftrightarrow> rules_of flows nf = [] \<and> rules_of routes nr = []"
    using nz zero by auto
  show ?thesis
  proof (cases "nr = 0")
    case True
    have "s = s4" "sn_route_table s4 = None"
      using loops(2) s3(5) s4(5) True by (auto split: option.splits)
    moreover have "acts = map fr_action (rules_of flows nf)"
      using s4(2,7) True by simp
    ultimately show ?thesis
      using s4(1,3,4) flow_side none zero(2) True fl(2) rt(2) small(1) cnt fl_ok
      by (auto simp: snapshot_repr_def rules_valid_def split: option.splits)
  next
    case False
    obtain name l where l: "sn_route_table s3 = Some (name, l)" "name = route_name g"
      "\<exists>t p. lpm_create ops t p = Some l"
      using s3(5) False by (auto split: option.splits)
    have "lpm_inv tv l \<and> lpm_rules tv l = Map.empty"
      using l(3) lpm_create_law by blast
    then have start: "routes_done tv (unat nf) (take 0 ?rt) (name, l) acts"
      by (simp add: routes_done_def)
    have a: "sn_actions s4 = Some acts" using s4(1) nz False by simp
    from build_routes_done [OF loops(2) _ a start] len(2) s4(2,5) small l(1)
    obtain l' acts' where s: "s = s4\<lparr>sn_route_table := Some (name, l'), sn_actions := Some acts'\<rparr>"
      "length acts' = unat nf + unat nr" "take (unat nf) acts' = take (unat nf) acts"
      "routes_done tv (unat nf) (take (unat nr) ?rt) (name, l') acts'" by auto
    have "acts' = take (unat nf) acts' @ take (unat nr) (drop (unat nf) acts')"
      using s(2) by simp
    then have "acts' = map fr_action (rules_of flows nf) @ map rr_action (rules_of routes nr)"
      using s(3,4) s4(7) rt len(2) by (simp add: routes_done_def)
    moreover have "lpm_inv tv l' \<and>
        lpm_rules tv l' = route_index (length (rules_of flows nf)) (map route_key (rules_of routes nr)) \<and>
        list_all route_rule_ok (rules_of routes nr) \<and> distinct (map route_key (rules_of routes nr))"
      using s(4) fl(2) rt(1) by (simp add: routes_done_def)
    ultimately show ?thesis
      using s(1) s4(3,4) l(2) flow_side none zero(2) False fl(2) rt(2) small(1) cnt fl_ok
      by (auto simp: snapshot_repr_def rules_valid_def split: option.splits)
  qed
qed

lemma dp_snapshot_build_repr:
  assumes "dp_snapshot_build ops t flows nf routes nr g st = Some (ret, Some s, st')"
    and "array_arg flows nf" "array_arg routes nr"
  shows "args_ok flows nf routes nr \<and> snapshot_repr tv (rules_of flows nf) (rules_of routes nr) s"
  using dp_snapshot_build_Some [OF assms(1)] build_body_repr assms(2,3) by blast

end

text \<open>The return code the rules themselves call for.\<close>

definition rules_code :: "dp_flow_rule list \<Rightarrow> dp_route_rule list \<Rightarrow> int" where
  "rules_code flows routes =
     (case flows_error {} flows of
        Some e \<Rightarrow> e
      | None \<Rightarrow> (case routes_error {} routes of Some e \<Rightarrow> e | None \<Rightarrow> 0))"

lemma flows_error_codes: "flows_error seen rs \<in> {None, Some (- EINVAL), Some (- EEXIST)}"
  by (induction rs arbitrary: seen) auto

lemma routes_error_codes: "routes_error seen rs \<in> {None, Some (- EINVAL), Some (- EEXIST)}"
  by (induction rs arbitrary: seen) auto

lemma rules_code_valid: "rules_code flows routes = 0 \<longleftrightarrow> rules_valid flows routes"
  using flows_error_codes [of "{}" flows] routes_error_codes [of "{}" routes]
    flows_error_None [of "{}" flows] routes_error_None [of "{}" routes]
  by (auto simp: rules_code_def rules_valid_def split: option.splits)

context rte_table_room
begin

lemma build_tables_succeed:
  "\<exists>s1 st1. build_actions ops t n s st = (None, s1, st1)"
  "\<exists>s1 st1. build_flow_table ops t n g s st = (None, s1, st1)"
  "\<exists>s1 st1. build_route_table ops t n g s st = (None, s1, st1)"
  by (auto simp: build_actions_def build_flow_table_def build_route_table_def Let_def
      zmalloc_succeeds hash_created lpm_created simp del: not_None_eq split: option.splits)

lemma build_body_exact:
  assumes args: "args_ok flows nf routes nr" "array_arg flows nf" "array_arg routes nr"
    and deep: "card (deep_blocks (route_key ` set (rules_of routes nr))) \<le> 256"
  shows "\<exists>e s st'. build_body ops t flows nf routes nr g (empty_snapshot g) st = Some (e, s, st') \<and>
    (case e of None \<Rightarrow> 0 | Some r \<Rightarrow> r) = rules_code (rules_of flows nf) (rules_of routes nr) \<and>
    (e = None \<longleftrightarrow> rules_valid (rules_of flows nf) (rules_of routes nr))"
proof -
  let ?fl = "case flows of Some a \<Rightarrow> a | None \<Rightarrow> []" and ?rt = "case routes of Some a \<Rightarrow> a | None \<Rightarrow> []"
  let ?F = "rules_of flows nf" and ?R = "rules_of routes nr"
  obtain s1 st1 where 1: "build_actions ops t (nf + nr) (empty_snapshot g) st = (None, s1, st1)"
    using build_tables_succeed(1) by blast
  obtain s2 st2 where 2: "build_flow_table ops (t + 1) nf g s1 st1 = (None, s2, st2)"
    using build_tables_succeed(2) by blast
  obtain s3 st3 where 3: "build_route_table ops (t + 2) nr g s2 st2 = (None, s3, st3)"
    using build_tables_succeed(3) by blast
  note f1 = build_parts_fields(1) [OF 1] and f2 = build_parts_fields(2) [OF 2]
    and f3 = build_parts_fields(3) [OF 3]
  have fl: "?F = take (unat nf) ?fl" "length ?F = unat nf"
    and rt: "?R = take (unat nr) ?rt" "length ?R = unat nr"
    using args by (auto simp only: args_ok_def intro: rules_of_take length_rules_of)
  have len: "unat nf \<le> length ?fl" "unat nr \<le> length ?rt"
    using fl rt by (metis length_take min.cobounded1)+
  have small: "unat nf \<le> DP_MAX_FLOW_RULES" "unat nr \<le> DP_MAX_ROUTE_RULES" "unat nf + unat nr < 2 ^ 24"
    using args(1) by (simp_all add: args_ok_def DP_MAX_FLOW_RULES_def DP_MAX_ROUTE_RULES_def)
  have nz: "nf + nr \<noteq> 0" if "nf \<noteq> 0 \<or> nr \<noteq> 0"
    using that unat_counts [OF args(1)] by (auto simp: word_unat_eq_iff)
  let ?acts = "replicate (unat nf + unat nr) zero_action"
  have a3: "nf \<noteq> 0 \<or> nr \<noteq> 0 \<Longrightarrow> sn_actions s3 = Some ?acts"
    using f1 f2 f3 nz unat_counts [OF args(1)] by auto
  have flows: "\<exists>s4. build_flows ops ?fl 0 (unat nf) s3 = Some (flows_error {} ?F, s4)"
  proof (cases "nf = 0")
    case True
    then show ?thesis using fl(2) by simp
  next
    case False
    then obtain h p where h: "sn_flow_table s3 = Some (flow_name g, h)"
      "hash_create ops (t + 1) p = Some h" "hp_entries p = DP_MAX_FLOW_RULES * 2"
      using f2 f3 by auto
    have "flows_done tv (take 0 ?fl) (flow_name g, h) ?acts"
      using hash_create_law [OF h(2)] by (simp add: flows_done_def)
    moreover have "unat nf \<le> hash_room tv h"
      using hash_create_room [OF h(2)] h(3) small(1) by simp
    ultimately show ?thesis
      using build_flows_exact [OF h(1) a3, of 0 ?fl "unat nf"] False len(1) fl(1) by simp
  qed
  then obtain s4 where s4: "build_flows ops ?fl 0 (unat nf) s3 = Some (flows_error {} ?F, s4)"
    by blast
  have keep: "loop_keeps s3 (flows_error {} ?F) s4" "sn_route_table s4 = sn_route_table s3"
  proof -
    have "\<exists>e s'. build_flows ops ?fl 0 (unat nf) s3 = Some (e, s') \<and> loop_keeps s3 e s' \<and>
        sn_route_table s' = sn_route_table s3"
      using len(1) a3 f2 f3 by (intro build_flows_total) (auto simp: word_unat_eq_iff)
    then show "loop_keeps s3 (flows_error {} ?F) s4" "sn_route_table s4 = sn_route_table s3"
      using s4 by auto
  qed
  have routes: "\<exists>s5. build_routes ops ?rt nf 0 (unat nr) s4 = Some (routes_error {} ?R, s5)"
  proof (cases "nr = 0")
    case True
    then show ?thesis using rt(2) by simp
  next
    case False
    then obtain l p where l: "sn_route_table s4 = Some (route_name g, l)"
      "lpm_create ops (t + 2) p = Some l" "lp_max_rules p = DP_MAX_ROUTE_RULES" "lp_number_tbl8s p = 256"
      using f3 keep(2) by auto
    obtain acts where acts: "sn_actions s4 = Some acts" "length acts = unat nf + unat nr"
      using a3 False keep(1) by (auto simp: loop_keeps_def)
    have "routes_done tv (unat nf) (take 0 ?rt) (route_name g, l) acts"
      using lpm_create_law [OF l(2)] by (simp add: routes_done_def)
    moreover have "unat nr \<le> lpm_room tv l" "lpm_tbl8s tv l = 256"
      using lpm_create_room [OF l(2)] l(3,4) small(2) by simp_all
    ultimately show ?thesis
      using build_routes_exact [OF l(1) acts(1), of nf 0 ?rt "unat nr"] len(2) acts(2) small(3) rt(1) deep
      by simp
  qed
  then obtain s5 where s5: "build_routes ops ?rt nf 0 (unat nr) s4 = Some (routes_error {} ?R, s5)"
    by blast
  have "build_body ops t flows nf routes nr g (empty_snapshot g) st =
      (case flows_error {} ?F of Some e \<Rightarrow> Some (Some e, s4, st3) | None \<Rightarrow> Some (routes_error {} ?R, s5, st3))"
    using 1 2 3 s4 s5 by (auto simp: build_body_def split: option.splits)
  then show ?thesis
    using rules_code_valid [of ?F ?R] flows_error_codes [of "{}" ?F]
      routes_error_codes [of "{}" ?R] flows_error_None [of "{}" ?F] routes_error_None [of "{}" ?R]
    by (auto simp: rules_code_def split: option.splits)
qed

lemma dp_snapshot_build_exact:
  assumes args: "args_ok flows nf routes nr" "array_arg flows nf" "array_arg routes nr"
    and deep: "card (deep_blocks (route_key ` set (rules_of routes nr))) \<le> 256"
  shows "\<exists>res st'. dp_snapshot_build ops t flows nf routes nr g st =
    Some (rules_code (rules_of flows nf) (rules_of routes nr), res, st')"
proof -
  let ?st = "rte_acquire (Obj_Snapshot g) st"
  from build_body_exact [OF assms, of "t + 1" g ?st] obtain e s st' where
    b: "build_body ops (t + 1) flows nf routes nr g (empty_snapshot g) ?st = Some (e, s, st')"
    "(case e of None \<Rightarrow> 0 | Some r \<Rightarrow> r) = rules_code (rules_of flows nf) (rules_of routes nr)"
    by blast
  have "\<exists>ret res st'. dp_snapshot_build ops t flows nf routes nr g st = Some (ret, res, st')"
    using dp_snapshot_build_cases [OF errno_law args(2,3), of t g st] by blast
  then show ?thesis
    using b args(1) zmalloc_succeeds
    by (auto simp: dp_snapshot_build_def args_ok_def empty_snapshot_def Let_def not_less
        split: option.splits Option.bind_splits)
qed

end

section \<open>Lemmas: lookup\<close>

text \<open>
  The policy a rule set defines: the flow rule with the packet's five fields decides, then the
  longest matching route, then nothing.
\<close>

definition policy :: "dp_flow_rule list \<Rightarrow> dp_route_rule list \<Rightarrow> dp_packet_meta \<Rightarrow>
    dp_lookup_result \<times> dp_rule_action option" where
  "policy flows routes meta =
     (case find (\<lambda>r. flow_rule_key r = dp_flow_key_from_meta meta) flows of
        Some r \<Rightarrow> (DP_LOOKUP_FLOW_HIT, Some (fr_action r))
      | None \<Rightarrow>
         (case longest_match (map_of (map (\<lambda>r. (route_key r, rr_action r)) routes)) (pm_dst_ipv4 meta) of
            Some a \<Rightarrow> (DP_LOOKUP_ROUTE_HIT, Some a)
          | None \<Rightarrow> (DP_LOOKUP_MISS, None)))"

text \<open>The action a lookup result points to.\<close>

definition pointed_action :: "('h, 'l) dp_rule_snapshot \<Rightarrow> nat option \<Rightarrow> dp_rule_action option" where
  "pointed_action s p = do { i \<leftarrow> p; acts \<leftarrow> sn_actions s; idx acts i }"

lemma find_key_index:
  assumes "distinct (map f xs)"
  shows "find (\<lambda>x. f x = k) xs = map_option (\<lambda>i. xs ! i) (key_index (map f xs) k)"
proof (cases "key_index (map f xs) k")
  case None
  then have "find (\<lambda>x. f x = k) xs = None" by (auto simp: key_index_None find_None_iff)
  with None show ?thesis by simp
next
  case (Some i)
  then have i: "i < length xs" "f (xs ! i) = k"
    using key_index_Some [OF assms] by auto
  have "f (xs ! j) \<noteq> k" if "j < i" for j
    using nth_eq_iff_index_eq [OF assms, of j i] i that by auto
  then have "find (\<lambda>x. f x = k) xs = Some (xs ! i)"
    using i by (auto simp: find_Some_iff)
  with Some show ?thesis by simp
qed

lemma route_map_index:
  assumes "distinct (map f xs)" "n + length xs < 2 ^ 32"
  shows "map_of (map (\<lambda>x. (f x, g x)) xs) k =
    map_option (\<lambda>v. g (xs ! (unat v - n))) (route_index n (map f xs) k)"
proof (cases "key_index (map f xs) k")
  case None
  then have "map_of (map (\<lambda>x. (f x, g x)) xs) k = None"
    by (auto simp: key_index_None map_of_eq_None_iff image_iff)
  with None show ?thesis by (simp add: route_index_def)
next
  case (Some i)
  then have i: "i < length xs" "f (xs ! i) = k"
    using key_index_Some [OF assms(1)] by auto
  have "map_of (map (\<lambda>x. (f x, g x)) xs) k = Some (g (xs ! i))"
    using i assms(1) by (intro map_of_is_SomeI) (auto simp: comp_def)
  moreover have "unat (word_of_nat (n + i) :: u32) = n + i"
    using i assms(2) by (simp add: unat_of_nat del: of_nat_add)
  ultimately show ?thesis using Some by (simp add: route_index_def del: of_nat_add)
qed

lemma longest_match_empty [simp]: "longest_match (\<lambda>_. None) ip = None"
proof -
  have "match_from n (\<lambda>_. None) ip = None" for n by (induction n) simp_all
  then show ?thesis by (simp add: longest_match_def)
qed

context rte_table_laws
begin

lemma lookup_flow:
  assumes repr: "snapshot_repr tv flows routes s"
    and i: "key_index (map flow_rule_key flows) (dp_flow_key_from_meta meta) = Some i"
  shows "dp_lookup_packet ops meta (Some s) = (DP_LOOKUP_FLOW_HIT, Some i)"
proof -
  have "flows \<noteq> []" using i by auto
  then obtain h where h: "sn_flow_table s = Some (flow_name (sn_generation s), h)" "hash_inv tv h"
    "hash_map tv h = key_index (map flow_rule_key flows)"
    using repr by (auto simp: snapshot_repr_def split: option.splits)
  show ?thesis
    using hash_lookup_law [OF h(2), of "dp_flow_key_from_meta meta"] h i
    by (simp add: dp_lookup_packet_def Let_def split_beta)
qed

lemma lookup_route:
  assumes repr: "snapshot_repr tv flows routes s"
    and no_flow: "key_index (map flow_rule_key flows) (dp_flow_key_from_meta meta) = None"
  shows "dp_lookup_packet ops meta (Some s) =
    (case longest_match (route_index (length flows) (map route_key routes)) (pm_dst_ipv4 meta) of
       Some v \<Rightarrow> (DP_LOOKUP_ROUTE_HIT, Some (unat v)) | None \<Rightarrow> (DP_LOOKUP_MISS, None))"
proof -
  have nf: "\<not> 0 \<le> fst (hash_lookup_data ops h (dp_flow_key_from_meta meta))"
    if "sn_flow_table s = Some (name, h)" for name h
    using hash_lookup_hit [of h "dp_flow_key_from_meta meta"] that repr no_flow
    by (simp add: snapshot_repr_def)
  show ?thesis
  proof (cases "sn_route_table s")
    case None
    then have "routes = []" using repr by (simp add: snapshot_repr_def)
    then show ?thesis
      using nf None by (cases "sn_flow_table s") (auto simp: dp_lookup_packet_def Let_def split_beta)
  next
    case (Some nl)
    then obtain l where l: "sn_route_table s = Some (route_name (sn_generation s), l)" "lpm_inv tv l"
      "lpm_rules tv l = route_index (length flows) (map route_key routes)"
      using repr by (cases nl) (auto simp: snapshot_repr_def)
    let ?m = "longest_match (route_index (length flows) (map route_key routes)) (pm_dst_ipv4 meta)"
    have small: "v < sn_action_count s" if "?m = Some v" for v
    proof -
      have "v \<in> ran (route_index (length flows) (map route_key routes))"
        using longest_match_range [OF that] .
      then obtain k i where "key_index (map route_key routes) k = Some i" "v = word_of_nat (length flows + i)"
        by (auto simp: ran_def route_index_def)
      moreover have "distinct (map route_key routes)" using repr by (simp add: snapshot_repr_def rules_valid_def)
      ultimately have "i < length routes" "v = word_of_nat (length flows + i)"
        using key_index_Some by fastforce+
      then show ?thesis
        using repr by (simp add: snapshot_repr_def word_less_nat_alt unat_of_nat DP_MAX_FLOW_RULES_def
            DP_MAX_ROUTE_RULES_def del: of_nat_add)
    qed
    show ?thesis
      using lpm_lookup_law [OF l(2), of "pm_dst_ipv4 meta"] l nf small
      by (cases "sn_flow_table s"; cases ?m) (auto simp: dp_lookup_packet_def Let_def split_beta)
  qed
qed

end

context rte_table_laws
begin

lemma lookup_is_policy:
  assumes repr: "snapshot_repr tv flows routes s"
  shows "(case dp_lookup_packet ops meta (Some s) of (r, p) \<Rightarrow> (r, pointed_action s p)) =
    policy flows routes meta"
proof -
  let ?k = "dp_flow_key_from_meta meta" and ?ip = "pm_dst_ipv4 meta"
  have valid: "distinct (map flow_rule_key flows)" "distinct (map route_key routes)"
    using repr by (simp_all add: snapshot_repr_def rules_valid_def)
  have acts: "sn_actions s = Some (map fr_action flows @ map rr_action routes)" if "flows \<noteq> [] \<or> routes \<noteq> []"
    using repr that by (auto simp: snapshot_repr_def)
  have small: "length flows + length routes < 2 ^ 32"
    using repr by (simp add: snapshot_repr_def DP_MAX_FLOW_RULES_def DP_MAX_ROUTE_RULES_def)
  show ?thesis
  proof (cases "key_index (map flow_rule_key flows) ?k")
    case (Some i)
    then have "i < length flows" using key_index_Some [OF valid(1)] by simp
    moreover from this have "flows \<noteq> []" by auto
    ultimately show ?thesis
      using lookup_flow [OF repr Some] Some acts
      by (simp add: policy_def find_key_index [OF valid(1)] pointed_action_def idx_def nth_append)
  next
    case None
    let ?m = "longest_match (route_index (length flows) (map route_key routes)) ?ip"
    have m: "longest_match (map_of (map (\<lambda>r. (route_key r, rr_action r)) routes)) ?ip =
        map_option (\<lambda>v. rr_action (routes ! (unat v - length flows))) ?m"
      unfolding longest_match_map [symmetric]
      by (intro longest_match_cong route_map_index [OF valid(2) small])
    show ?thesis
    proof (cases ?m)
      case None
      then show ?thesis
        using lookup_route [OF repr \<open>key_index _ _ = None\<close>] m \<open>key_index _ _ = None\<close>
        by (simp add: policy_def find_key_index [OF valid(1)] pointed_action_def)
    next
      case (Some v)
      then have "v \<in> ran (route_index (length flows) (map route_key routes))"
        by (rule longest_match_range)
      then obtain k i where "key_index (map route_key routes) k = Some i" "v = word_of_nat (length flows + i)"
        by (auto simp: ran_def route_index_def)
      then have v: "i < length routes" "unat v = length flows + i"
        using key_index_Some [OF valid(2)] small by (auto simp: unat_of_nat simp del: of_nat_add)
      then have "routes \<noteq> []" by auto
      then show ?thesis
        using lookup_route [OF repr None] m None Some v acts
        by (simp add: policy_def find_key_index [OF valid(1)] pointed_action_def idx_def nth_append)
    qed
  qed
qed

end

end
