(* ===== verification/Dp_Publish.thy ===== *)
theory Dp_Publish
  imports Dp_Snapshot
begin

text \<open>
  The operations on the active snapshot: the state invariant \<open>rules_inv\<close>, the outcomes of
  \<open>dp_configure_rules\<close>, \<open>dp_publish_rules\<close> and \<open>dp_rules_teardown\<close>, and the properties of the
  rule component.
\<close>

section \<open>Lemmas: the active snapshot\<close>

text \<open>
  What holds whenever no rule operation is under way: the lock is free, the ledger holds exactly
  the active snapshot's objects and the QSBR variable, the active snapshot represents valid rules
  and carries the current generation.
\<close>

definition rule_objs :: "('h, 'l, 'q) dp_state \<Rightarrow> rte_obj multiset" where
  "rule_objs st =
     (case g_active_rules st of None \<Rightarrow> {#} | Some s \<Rightarrow> snapshot_objs s) +
     (case g_rules_qsbr st of None \<Rightarrow> {#} | Some _ \<Rightarrow> {#Obj_Qsbr#})"

definition rules_inv :: "('h, 'l) table_view \<Rightarrow> ('h, 'l, 'q) dp_state \<Rightarrow> bool" where
  "rules_inv tv st \<longleftrightarrow>
     \<not> g_writer_lock st \<and> \<not> g_writer_active st \<and> g_live st = rule_objs st \<and>
     (g_rules_configured st \<longleftrightarrow> g_active_rules st \<noteq> None) \<and>
     (g_rules_configured st \<longrightarrow> g_rules_qsbr st \<noteq> None) \<and>
     (\<forall>s. g_active_rules st = Some s \<longrightarrow> sn_generation s = st_rules_generation (g_stats st) \<and>
       (\<exists>flows routes. snapshot_repr tv flows routes s))"

lemma rules_inv_start: "rules_inv tv dp_start"
  by (simp add: rules_inv_def dp_start_def rule_objs_def)

lemma on_stats_simps [simp]:
  "g_live (on_stats f st) = g_live st" "g_active_rules (on_stats f st) = g_active_rules st"
  "g_rules_qsbr (on_stats f st) = g_rules_qsbr st" "g_stats (on_stats f st) = f (g_stats st)"
  "g_writer_lock (on_stats f st) = g_writer_lock st" "g_writer_active (on_stats f st) = g_writer_active st"
  "g_rules_configured (on_stats f st) = g_rules_configured st" "g_initialized (on_stats f st) = g_initialized st"
  "g_info (on_stats f st) = g_info st"
  by (simp_all add: on_stats_def)

lemma dp_qsbr_create_cases:
  assumes "\<And>t. 0 \<le> rte_errno ops t"
  shows "(\<exists>q. dp_qsbr_create qs ops t st = Some (0, st\<lparr>g_live := add_mset Obj_Qsbr (g_live st), g_rules_qsbr := Some q\<rparr>) \<and>
        g_rules_qsbr st = None \<and> (\<exists>t n. qsbr_init qs t n = (0, q))) \<or>
    dp_qsbr_create qs ops t st = Some (0, st) \<and> g_rules_qsbr st \<noteq> None \<or>
    (\<exists>ret. dp_qsbr_create qs ops t st = Some (ret, st) \<and> ret < 0 \<and> g_rules_qsbr st = None)"
proof -
  have same: "st\<lparr>g_live := g_live st, g_rules_qsbr := None\<rparr> = st" if "g_rules_qsbr st = None"
    using that by simp
  obtain r q where init: "qsbr_init qs (t + 2) (qsbr_max_lcore qs) = (r, q)" by fastforce
  show ?thesis
    using errno_or_neg [OF assms, of EINVAL] errno_or_neg [OF assms, of ENOMEM] init same
    by (auto simp: dp_qsbr_create_def Let_def rte_acquire_def rte_release_def split: option.splits)
qed

lemma publish_restores:
  "\<not> g_writer_lock st \<Longrightarrow> \<not> g_writer_active st \<Longrightarrow>
    publish_exit (on_stats f (publish_enter st)) = on_stats f st"
  "\<not> g_writer_lock st \<Longrightarrow> \<not> g_writer_active st \<Longrightarrow> publish_exit (publish_enter st) = st"
  by (simp_all add: publish_exit_def publish_enter_def on_stats_def)

lemma publish_enter_simps [simp]:
  "g_live (publish_enter st) = g_live st" "g_active_rules (publish_enter st) = g_active_rules st"
  "g_rules_qsbr (publish_enter st) = g_rules_qsbr st" "g_stats (publish_enter st) = g_stats st"
  "g_rules_configured (publish_enter st) = g_rules_configured st"
  "g_initialized (publish_enter st) = g_initialized st"
  by (simp_all add: publish_enter_def)

definition count_failed :: "dp_stats \<Rightarrow> dp_stats" where
  "count_failed x = x\<lparr>st_rules_publish_failed := st_rules_publish_failed x + 1\<rparr>"

definition count_published :: "dp_stats \<Rightarrow> dp_stats" where
  "count_published x = x\<lparr>st_rules_generation := st_rules_generation x + 1,
     st_rules_publish_success := st_rules_publish_success x + 1\<rparr>"

lemma publish_build_cases:
  assumes e: "\<And>t. 0 \<le> rte_errno ops t" and arr: "array_arg flows nf" "array_arg routes nr"
  shows "(\<exists>s. publish_build ops t flows nf routes nr st =
        Some (0, Some s, st\<lparr>g_live := g_live st + snapshot_objs s\<rparr>) \<and>
        dp_snapshot_build ops t flows nf routes nr (st_rules_generation (g_stats st) + 1) st =
          Some (0, Some s, st\<lparr>g_live := g_live st + snapshot_objs s\<rparr>) \<and>
        sn_generation s = st_rules_generation (g_stats st) + 1 \<and>
        g_initialized st \<and> g_rules_configured st \<and> g_rules_qsbr st \<noteq> None \<and> g_active_rules st \<noteq> None) \<or>
    (\<exists>ret f. publish_build ops t flows nf routes nr st = Some (ret, None, on_stats f st) \<and> ret < 0 \<and>
       (f = (\<lambda>x. x) \<and> ret = - ENODEV \<or> f = count_failed))"
proof (cases "g_initialized st \<and> g_rules_configured st \<and> g_rules_qsbr st \<noteq> None \<and> g_active_rules st \<noteq> None")
  case True
  from dp_snapshot_build_cases [OF e arr, of t "st_rules_generation (g_stats st) + 1" st]
  show ?thesis
  proof (elim disjE exE conjE)
    fix s
    assume "dp_snapshot_build ops t flows nf routes nr (st_rules_generation (g_stats st) + 1) st =
        Some (0, Some s, st\<lparr>g_live := g_live st + snapshot_objs s\<rparr>)"
      "sn_generation s = st_rules_generation (g_stats st) + 1"
    with True show ?thesis by (intro disjI1 exI [of _ s]) (auto simp: publish_build_def)
  next
    fix ret
    assume "dp_snapshot_build ops t flows nf routes nr (st_rules_generation (g_stats st) + 1) st =
        Some (ret, None, st)" "ret < 0"
    with True show ?thesis
      by (intro disjI2 exI [of _ ret] exI [of _ count_failed])
        (auto simp: publish_build_def count_failed_def [abs_def])
  qed
next
  case False
  have "publish_build ops t flows nf routes nr st = Some (- ENODEV, None, st)"
    using False by (auto simp: publish_build_def)
  moreover have "on_stats (\<lambda>x. x) st = st" by (simp add: on_stats_def)
  ultimately show ?thesis
    by (intro disjI2 exI [of _ "- ENODEV"] exI [of _ "\<lambda>x. x"]) simp
qed

definition published ::
  "('h, 'l) dp_rule_snapshot \<Rightarrow> 'q \<Rightarrow> ('h, 'l) dp_rule_snapshot \<Rightarrow> ('h, 'l, 'q) dp_state \<Rightarrow>
   ('h, 'l, 'q) dp_state" where
  "published old q s st = st\<lparr>g_active_rules := Some s, g_rules_qsbr := Some q,
     g_live := snapshot_objs s + {#Obj_Qsbr#},
     g_stats := freed_stats old True True (count_published (g_stats st))\<rparr>"

lemma dp_publish_rules_cases:
  assumes e: "\<And>t. 0 \<le> rte_errno ops t" and arr: "array_arg flows nf" "array_arg routes nr"
    and inv: "rules_inv tv st" and gen: "generation \<noteq> None"
  shows "(\<exists>ret f. dp_publish_rules qs ops t reports flows nf routes nr generation st =
        Some (Returned (ret, generation) (on_stats f st)) \<and> ret < 0 \<and>
        (f = (\<lambda>x. x) \<and> ret = - ENODEV \<or> f = count_failed)) \<or>
    (\<exists>s old q token q1.
       g_active_rules st = Some old \<and> g_rules_qsbr st = Some q \<and> qsbr_start qs q = (token, q1) \<and>
       dp_snapshot_build ops t flows nf routes nr (st_rules_generation (g_stats st) + 1) (publish_enter st) =
         Some (0, Some s, publish_enter st\<lparr>g_live := g_live st + snapshot_objs s\<rparr>) \<and>
       sn_generation s = st_rules_generation (g_stats st) + 1 \<and>
       dp_publish_rules qs ops t reports flows nf routes nr generation st =
         Some (case await_grace qs token reports q1 of
           None \<Rightarrow> Still_Waiting ((publish_enter st)\<lparr>g_active_rules := Some s, g_rules_qsbr := Some q1,
             g_live := g_live st + snapshot_objs s, g_stats := count_published (g_stats st)\<rparr>)
         | Some q2 \<Rightarrow> Returned (0, Some (st_rules_generation (g_stats st) + 1)) (published old q2 s st)))"
proof -
  have lock: "\<not> g_writer_lock st" "\<not> g_writer_active st" using inv by (simp_all add: rules_inv_def)
  obtain g0 where gen: "generation = Some g0" using gen by blast
  consider (ok) s old q where "publish_build ops t flows nf routes nr (publish_enter st) =
        Some (0, Some s, publish_enter st\<lparr>g_live := g_live st + snapshot_objs s\<rparr>)"
      "dp_snapshot_build ops t flows nf routes nr (st_rules_generation (g_stats st) + 1) (publish_enter st) =
         Some (0, Some s, publish_enter st\<lparr>g_live := g_live st + snapshot_objs s\<rparr>)"
      "sn_generation s = st_rules_generation (g_stats st) + 1"
      "g_active_rules st = Some old" "g_rules_qsbr st = Some q"
    | (fail) ret f where "publish_build ops t flows nf routes nr (publish_enter st) =
      Some (ret, None, on_stats f (publish_enter st))" "ret < 0"
      "f = (\<lambda>x. x) \<and> ret = - ENODEV \<or> f = count_failed"
    using publish_build_cases [OF e arr, of t "publish_enter st"]
    by (elim disjE exE conjE) (simp, blast, simp, blast)
  then show ?thesis
  proof cases
    case fail
    then have "dp_publish_rules qs ops t reports flows nf routes nr generation st =
        Some (Returned (ret, generation) (on_stats f st))"
      using gen publish_restores [OF lock] by (simp add: dp_publish_rules_def Let_def)
    with fail show ?thesis by blast
  next
    case ok
    obtain token q1 where st: "qsbr_start qs q = (token, q1)" by fastforce
    have live: "g_live st + snapshot_objs s = (snapshot_objs s + {#Obj_Qsbr#}) + snapshot_objs old"
      using inv ok(4,5) by (simp add: rules_inv_def rule_objs_def)
    have run: "dp_publish_rules qs ops t reports flows nf routes nr generation st =
        (case await_grace qs token reports q1 of
           None \<Rightarrow> Some (Still_Waiting ((publish_enter st)\<lparr>g_live := g_live st + snapshot_objs s,
             g_active_rules := Some s, g_stats := count_published (g_stats st), g_rules_qsbr := Some q1\<rparr>))
         | Some q2 \<Rightarrow> do {
             st' \<leftarrow> dp_snapshot_free (Some old) True True ((publish_enter st)\<lparr>g_live := g_live st + snapshot_objs s,
               g_active_rules := Some s, g_stats := count_published (g_stats st), g_rules_qsbr := Some q2\<rparr>);
             Some (Returned (0, Some (st_rules_generation (g_stats st) + 1)) (publish_exit st')) })"
      using gen ok st
      by (simp add: dp_publish_rules_def Let_def publish_exchange_def publish_account_def publish_start_def
          on_stats_def count_published_def split: option.splits)
    have "dp_publish_rules qs ops t reports flows nf routes nr generation st =
         Some (case await_grace qs token reports q1 of
           None \<Rightarrow> Still_Waiting ((publish_enter st)\<lparr>g_active_rules := Some s, g_rules_qsbr := Some q1,
             g_live := g_live st + snapshot_objs s, g_stats := count_published (g_stats st)\<rparr>)
         | Some q2 \<Rightarrow> Returned (0, Some (st_rules_generation (g_stats st) + 1)) (published old q2 s st))"
      unfolding run using lock
      by (subst dp_snapshot_free_frees [where m = "snapshot_objs s + {#Obj_Qsbr#}"])
        (auto simp: live published_def publish_exit_def publish_enter_def split: option.splits)
    with ok st show ?thesis by blast
  qed
qed

context qsbr_laws
begin

lemma await_grace_done:
  assumes "qs_inv qv q" "qs_token qv q = tok" "qs_waits qv q \<subseteq> set reports"
    "set reports \<subseteq> qs_online qv q"
  shows "\<exists>q'. await_grace qs tok reports q = Some q' \<and> qs_inv qv q' \<and> qs_waits qv q' = {} \<and>
    qs_online qv q' = qs_online qv q"
  using assms
proof (induction reports arbitrary: q)
  case Nil
  then show ?case using check_law by auto
next
  case (Cons r rs)
  show ?case
  proof (cases "qs_waits qv q = {}")
    case True
    then show ?thesis using Cons.prems check_law by auto
  next
    case False
    define q1 where "q1 = qsbr_quiescent qs q r"
    have q1: "qs_inv qv q1" "qs_online qv q1 = qs_online qv q" "qs_waits qv q1 = qs_waits qv q - {r}"
      "qs_token qv q1 = qs_token qv q"
      using quiescent_law [OF Cons.prems(1) q1_def] Cons.prems(4) by auto
    have "\<exists>q'. await_grace qs tok rs q1 = Some q' \<and> qs_inv qv q' \<and> qs_waits qv q' = {} \<and>
        qs_online qv q' = qs_online qv q1"
      using Cons.prems q1 by (intro Cons.IH) auto
    then show ?thesis using q1(2) False check_law [OF Cons.prems(1)] Cons.prems(2)
      by (auto simp: q1_def)
  qed
qed

end

lemma dp_rules_teardown_frees:
  assumes "rules_inv tv st"
  shows "\<exists>x. dp_rules_teardown st = Some (st\<lparr>g_active_rules := None, g_rules_qsbr := None, g_live := {#},
      g_rules_configured := False, g_stats := x\<rparr>)"
proof -
  let ?st = "st\<lparr>g_writer_lock := True, g_writer_active := True, g_active_rules := None\<rparr>"
  let ?q = "case g_rules_qsbr st of None \<Rightarrow> {#} | Some _ \<Rightarrow> {#Obj_Qsbr#}"
  obtain x where free: "dp_snapshot_free (g_active_rules st) False True ?st =
      Some (?st\<lparr>g_live := ?q, g_stats := x\<rparr>)"
  proof (cases "g_active_rules st")
    case None
    then show ?thesis
      using assms that [of "g_stats st"] by (simp add: rules_inv_def rule_objs_def)
  next
    case (Some s)
    then have "g_live ?st = ?q + snapshot_objs s"
      using assms by (simp add: rules_inv_def rule_objs_def)
    from dp_snapshot_free_frees [OF this] Some that show ?thesis by simp
  qed
  have lock: "\<not> g_writer_lock st" "\<not> g_writer_active st" using assms by (simp_all add: rules_inv_def)
  show ?thesis
  proof (cases "g_rules_qsbr st")
    case None
    then show ?thesis
      using free lock by (intro exI [of _ x]) (simp add: dp_rules_teardown_def Let_def)
  next
    case (Some q)
    then show ?thesis
      using free lock
      by (intro exI [of _ "x\<lparr>st_qsbr_freed := 1\<rparr>"])
        (simp add: dp_rules_teardown_def Let_def rte_release_def on_stats_def)
  qed
qed

context rte_table_laws
begin

lemma published_inv:
  assumes inv: "rules_inv tv st" and old: "g_active_rules st = Some old"
    and b: "dp_snapshot_build ops t flows nf routes nr (st_rules_generation (g_stats st) + 1) st0 =
      Some (0, Some s, st1)"
    and gen: "sn_generation s = st_rules_generation (g_stats st) + 1"
    and arr: "array_arg flows nf" "array_arg routes nr"
  shows "rules_inv tv (published old q s st)"
  using dp_snapshot_build_repr [OF b arr] inv old gen
  by (auto simp: rules_inv_def published_def rule_objs_def count_published_def)

lemma dp_configure_rules_cases:
  assumes arr: "array_arg flows nf" "array_arg routes nr" and inv: "rules_inv tv st"
  shows "\<exists>ret st'. dp_configure_rules qs ops t flows nf routes nr st = Some (ret, st') \<and> rules_inv tv st' \<and>
    (if ret = 0 then (\<exists>s. g_active_rules st' = Some s \<and> args_ok flows nf routes nr \<and>
         snapshot_repr tv (rules_of flows nf) (rules_of routes nr) s \<and> sn_generation s = 1) \<and>
       g_rules_configured st' \<and> st_rules_generation (g_stats st') = 1
     else ret < 0 \<and> g_active_rules st' = g_active_rules st \<and>
       g_rules_configured st' = g_rules_configured st)"
proof (cases "g_initialized st \<and> \<not> (g_rules_configured st \<or> g_ready st \<or> g_running st \<or> g_ran st)")
  case False
  then show ?thesis using inv by (auto simp: dp_configure_rules_def)
next
  case True
  have none: "g_active_rules st = None" using True inv by (simp add: rules_inv_def)
  have build: "\<exists>ret st'. configure_snapshot ops (t + 3) flows nf routes nr st1 = Some (ret, st') \<and> rules_inv tv st' \<and>
    (if ret = 0 then (\<exists>s. g_active_rules st' = Some s \<and> args_ok flows nf routes nr \<and>
         snapshot_repr tv (rules_of flows nf) (rules_of routes nr) s \<and> sn_generation s = 1) \<and>
       g_rules_configured st' \<and> st_rules_generation (g_stats st') = 1
     else ret < 0 \<and> g_active_rules st' = g_active_rules st \<and> g_rules_configured st' = g_rules_configured st)"
    if inv1: "rules_inv tv st1" "g_rules_qsbr st1 \<noteq> None"
      "g_active_rules st1 = g_active_rules st" "g_rules_configured st1 = g_rules_configured st" for st1
  proof -
    from dp_snapshot_build_cases [OF errno_law arr, of "t + 3" 1 st1] show ?thesis
    proof (elim disjE exE conjE)
      fix s
      assume b: "dp_snapshot_build ops (t + 3) flows nf routes nr 1 st1 =
          Some (0, Some s, st1\<lparr>g_live := g_live st1 + snapshot_objs s\<rparr>)" and g: "sn_generation s = 1"
      show ?thesis
        using dp_snapshot_build_repr [OF b arr] inv1 b g none
        by (auto simp: configure_snapshot_def rules_inv_def rule_objs_def)
    next
      fix ret
      assume b: "dp_snapshot_build ops (t + 3) flows nf routes nr 1 st1 = Some (ret, None, st1)" "ret < 0"
      then show ?thesis
        using inv1 none by (auto simp: configure_snapshot_def rules_inv_def rule_objs_def)
    qed
  qed
  from dp_qsbr_create_cases [OF errno_law, of qs t st] show ?thesis
  proof (elim disjE exE conjE)
    fix q
    assume c: "dp_qsbr_create qs ops t st =
        Some (0, st\<lparr>g_live := add_mset Obj_Qsbr (g_live st), g_rules_qsbr := Some q\<rparr>)" "g_rules_qsbr st = None"
    have "rules_inv tv (st\<lparr>g_live := add_mset Obj_Qsbr (g_live st), g_rules_qsbr := Some q\<rparr>)"
      using inv c(2) none by (auto simp: rules_inv_def rule_objs_def)
    from build [OF this] show ?thesis
      using True c by (simp add: dp_configure_rules_def)
  next
    assume c: "dp_qsbr_create qs ops t st = Some (0, st)" "g_rules_qsbr st \<noteq> None"
    from build [OF inv c(2)] show ?thesis
      using True c by (simp add: dp_configure_rules_def)
  next
    fix ret
    assume c: "dp_qsbr_create qs ops t st = Some (ret, st)" "ret < 0"
    then show ?thesis
      using True inv none by (simp add: dp_configure_rules_def)
  qed
qed

end

section \<open>Runs of rule operations\<close>

text \<open>
  A run of the rule operations in any order: configuring, publishing until it returns, tearing
  down, a reader coming, reporting and going, and any step of another component, which leaves
  the rule fields alone (\<open>rules_frame\<close>).
\<close>

definition rules_frame :: "('h, 'l, 'q) dp_state \<Rightarrow> ('h, 'l, 'q) dp_state \<Rightarrow> bool" where
  "rules_frame st st' \<longleftrightarrow>
     g_active_rules st' = g_active_rules st \<and> g_rules_qsbr st' = g_rules_qsbr st \<and>
     g_rules_configured st' = g_rules_configured st \<and> g_live st' = g_live st \<and>
     g_writer_lock st' = g_writer_lock st \<and> g_writer_active st' = g_writer_active st \<and>
     st_rules_generation (g_stats st') = st_rules_generation (g_stats st)"

inductive rules_run ::
  "'q qsbr_ops \<Rightarrow> ('h, 'l) rte_table_ops \<Rightarrow> ('h, 'l, 'q) dp_state \<Rightarrow> bool" for qs ops where
  run_start: "rules_run qs ops dp_start"
| run_configure: "rules_run qs ops st \<Longrightarrow> array_arg flows nf \<Longrightarrow> array_arg routes nr \<Longrightarrow>
    dp_configure_rules qs ops t flows nf routes nr st = Some (ret, st') \<Longrightarrow> rules_run qs ops st'"
| run_publish: "rules_run qs ops st \<Longrightarrow> array_arg flows nf \<Longrightarrow> array_arg routes nr \<Longrightarrow>
    dp_publish_rules qs ops t reports flows nf routes nr generation st = Some (Returned r st') \<Longrightarrow>
    rules_run qs ops st'"
| run_teardown: "rules_run qs ops st \<Longrightarrow> dp_rules_teardown st = Some st' \<Longrightarrow> rules_run qs ops st'"
| run_register: "rules_run qs ops st \<Longrightarrow> dp_rules_reader_register qs ops t r st = (ret, st') \<Longrightarrow>
    rules_run qs ops st'"
| run_quiescent: "rules_run qs ops st \<Longrightarrow> dp_rules_reader_quiescent qs r st = Some st' \<Longrightarrow>
    rules_run qs ops st'"
| run_unregister: "rules_run qs ops st \<Longrightarrow> dp_rules_reader_unregister qs r st = Some st' \<Longrightarrow>
    rules_run qs ops st'"
| run_other: "rules_run qs ops st \<Longrightarrow> rules_frame st st' \<Longrightarrow> rules_run qs ops st'"

lemma rules_inv_frame: "rules_inv tv st \<Longrightarrow> rules_frame st st' \<Longrightarrow> rules_inv tv st'"
  by (simp add: rules_inv_def rules_frame_def rule_objs_def)

lemma rules_inv_qsbr:
  "rules_inv tv st \<Longrightarrow> g_rules_qsbr st \<noteq> None \<Longrightarrow>
    rules_inv tv (st\<lparr>g_rules_qsbr := Some q, g_registered_readers := n\<rparr>)"
  "rules_inv tv st \<Longrightarrow> g_rules_qsbr st \<noteq> None \<Longrightarrow> rules_inv tv (st\<lparr>g_rules_qsbr := Some q\<rparr>)"
  by (auto simp: rules_inv_def rule_objs_def)

lemma rules_inv_on_stats:
  "rules_inv tv st \<Longrightarrow> (\<And>x. st_rules_generation (f x) = st_rules_generation x) \<Longrightarrow>
    rules_inv tv (on_stats f st)"
  by (simp add: rules_inv_def rule_objs_def)

lemma reader_ops_inv:
  "rules_inv tv st \<Longrightarrow> dp_rules_reader_register qs ops t r st = (ret, st') \<Longrightarrow> rules_inv tv st'"
  "rules_inv tv st \<Longrightarrow> dp_rules_reader_quiescent qs r st = Some st' \<Longrightarrow> rules_inv tv st'"
  "rules_inv tv st \<Longrightarrow> dp_rules_reader_unregister qs r st = Some st' \<Longrightarrow> rules_inv tv st'"
  by (auto simp: dp_rules_reader_register_def dp_rules_reader_quiescent_def
      dp_rules_reader_unregister_def Let_def split_beta rules_inv_qsbr
      split: option.splits if_splits Option.bind_splits)

lemma teardown_inv:
  assumes "rules_inv tv st" "dp_rules_teardown st = Some st'"
  shows "rules_inv tv st' \<and> g_live st' = {#} \<and> g_active_rules st' = None \<and> g_rules_qsbr st' = None \<and>
    \<not> g_rules_configured st'"
  using dp_rules_teardown_frees [OF assms(1)] assms by (auto simp: rules_inv_def rule_objs_def)

context rte_table_laws
begin

text \<open>The outcome of a publication, for every state between rule operations.\<close>

lemma publish_outcome:
  assumes inv: "rules_inv tv st" and arr: "array_arg flows nf" "array_arg routes nr"
    and gen: "generation \<noteq> None"
  shows "\<exists>out. dp_publish_rules qs ops t reports flows nf routes nr generation st = Some out \<and>
    (case out of
       Returned (ret, g) st' \<Rightarrow> rules_inv tv st' \<and>
         (if ret = 0 then
            g = Some (st_rules_generation (g_stats st) + 1) \<and>
            st_rules_generation (g_stats st') = st_rules_generation (g_stats st) + 1 \<and>
            st_rules_publish_success (g_stats st') = st_rules_publish_success (g_stats st) + 1 \<and>
            st_rules_publish_failed (g_stats st') = st_rules_publish_failed (g_stats st) \<and>
            st_rules_reclaimed (g_stats st') = st_rules_reclaimed (g_stats st) + 1 \<and>
            args_ok flows nf routes nr \<and>
            (\<exists>s. g_active_rules st' = Some s \<and> snapshot_repr tv (rules_of flows nf) (rules_of routes nr) s)
          else ret < 0 \<and> g = generation \<and> (\<exists>f. st' = on_stats f st \<and> (f = (\<lambda>x. x) \<and> ret = - ENODEV \<or> f = count_failed)))
     | Still_Waiting st' \<Rightarrow> g_writer_lock st' \<and>
         (\<exists>old s. g_active_rules st = Some old \<and> g_active_rules st' = Some s \<and>
            snapshot_repr tv (rules_of flows nf) (rules_of routes nr) s \<and>
            snapshot_objs old \<subseteq># g_live st'))"
proof -
  from dp_publish_rules_cases [OF errno_law arr inv gen, of qs t reports] show ?thesis
  proof (elim disjE exE conjE)
    fix ret f
    assume p: "dp_publish_rules qs ops t reports flows nf routes nr generation st =
        Some (Returned (ret, generation) (on_stats f st))" "ret < 0" and f: "f = (\<lambda>x. x)" "ret = - ENODEV"
    have "on_stats (\<lambda>x. x) st = st" by (simp add: on_stats_def)
    moreover from this have "\<exists>f. st = on_stats f st \<and> (f = (\<lambda>x. x) \<or> f = count_failed)" by metis
    ultimately show ?thesis
      using p f inv by (intro exI [of _ "Returned (ret, generation) (on_stats f st)"]) simp
  next
    fix ret f
    assume p: "dp_publish_rules qs ops t reports flows nf routes nr generation st =
        Some (Returned (ret, generation) (on_stats f st))" "ret < 0" and f: "f = count_failed"
    have "rules_inv tv (on_stats count_failed st)"
      by (rule rules_inv_on_stats [OF inv]) (simp add: count_failed_def)
    with p f show ?thesis by (intro exI [of _ "Returned (ret, generation) (on_stats f st)"]) auto
  next
    fix s old q token q1
    assume o: "g_active_rules st = Some old" "g_rules_qsbr st = Some q"
      and b: "dp_snapshot_build ops t flows nf routes nr (st_rules_generation (g_stats st) + 1) (publish_enter st) =
         Some (0, Some s, publish_enter st\<lparr>g_live := g_live st + snapshot_objs s\<rparr>)"
      and g: "sn_generation s = st_rules_generation (g_stats st) + 1"
      and p: "dp_publish_rules qs ops t reports flows nf routes nr generation st =
         Some (case await_grace qs token reports q1 of
           None \<Rightarrow> Still_Waiting ((publish_enter st)\<lparr>g_active_rules := Some s, g_rules_qsbr := Some q1,
             g_live := g_live st + snapshot_objs s, g_stats := count_published (g_stats st)\<rparr>)
         | Some q2 \<Rightarrow> Returned (0, Some (st_rules_generation (g_stats st) + 1)) (published old q2 s st))"
    have r: "args_ok flows nf routes nr" "snapshot_repr tv (rules_of flows nf) (rules_of routes nr) s"
      using dp_snapshot_build_repr [OF b arr] by simp_all
    have "snapshot_objs old \<subseteq># g_live st + snapshot_objs s"
      using inv o(1) by (simp add: rules_inv_def rule_objs_def)
    then show ?thesis
      using p o(1) r published_inv [OF inv o(1) b g arr]
      by (cases "await_grace qs token reports q1")
        (auto simp: published_def count_published_def publish_enter_def)
  qed
qed

lemma rules_run_inv: "rules_run qs ops st \<Longrightarrow> rules_inv tv st"
proof (induction rule: rules_run.induct)
  case run_start
  then show ?case by (rule rules_inv_start)
next
  case (run_configure st flows nf routes nr t ret st')
  then show ?case using dp_configure_rules_cases [OF run_configure(2,3,5), of qs t] by auto
next
  case (run_publish st flows nf routes nr t reports generation r st')
  show ?case
  proof (cases "generation = None")
    case True
    then show ?thesis using run_publish by (simp add: dp_publish_rules_def)
  next
    case False
    from publish_outcome [OF run_publish(5,2,3) False, of qs t reports] run_publish(4)
    show ?thesis by (cases r) auto
  qed
next
  case (run_teardown st st')
  then show ?case using teardown_inv by blast
qed (auto intro: reader_ops_inv rules_inv_frame)

end

section \<open>Concrete instances\<close>

definition sample_action :: dp_rule_action where
  "sample_action = zero_action\<lparr>ra_type := DP_ACTION_FORWARD\<rparr>"

definition sample_flow :: dp_flow_rule where
  "sample_flow = zero_flow_rule\<lparr>fr_src_ipv4 := 0x0a000001, fr_dst_ipv4 := 0x0a000002,
     fr_src_port := 1000, fr_dst_port := 443, fr_l4_proto := IPPROTO_TCP, fr_action := sample_action\<rparr>"

definition sample_route :: dp_route_rule where
  "sample_route = zero_route_rule\<lparr>rr_prefix := 0x0a000000, rr_depth := 8, rr_action := sample_action\<rparr>"

lemma sample_rules_ok: "flow_rule_ok sample_flow" "route_rule_ok sample_route"
proof -
  have a: "action_ok sample_action"
    by (simp add: sample_action_def action_ok_def zero_action_def action_consts)
  then show "flow_rule_ok sample_flow"
    by (simp add: flow_rule_ok_def sample_flow_def zero_flow_rule_def)
  have "(0x0a000000 :: u32) AND depth_mask 8 = 0x0a000000"
    by (simp add: depth_mask_def mask_eq_exp_minus_1)
  with a show "route_rule_ok sample_route"
    by (simp add: route_rule_ok_def sample_route_def zero_route_rule_def)
qed

lemma sample_args:
  "array_arg (Some [sample_flow]) 1" "array_arg (Some [sample_route]) 1"
  "args_ok (Some [sample_flow]) 1 (Some [sample_route]) 1"
  "rules_of (Some [sample_flow]) 1 = [sample_flow]" "rules_of (Some [sample_route]) 1 = [sample_route]"
  by (simp_all add: array_arg_def args_ok_def rules_of_def DP_MAX_FLOW_RULES_def DP_MAX_ROUTE_RULES_def)

lemma sample_rules_valid: "rules_valid [sample_flow] [sample_route]"
  using sample_rules_ok by (simp add: rules_valid_def)

lemma sample_deep: "card (deep_blocks (route_key ` set [sample_route])) \<le> 256"
proof -
  have "deep_blocks (route_key ` set [sample_route]) = {}"
    by (simp add: deep_blocks_def route_key_def sample_route_def)
  then show ?thesis by simp
qed

text \<open>A built snapshot, and a state with it active.\<close>

lemma sample_build:
  "\<exists>s st'. dp_snapshot_build (ref_tables []) t (Some [sample_flow]) 1 (Some [sample_route]) 1 g
      (st :: (ref_hash, ref_lpm, ref_qsbr) dp_state) = Some (0, Some s, st') \<and> g_rules_qsbr st' = g_rules_qsbr st"
proof -
  have e: "0 \<le> rte_errno (ref_tables []) k" for k by (simp add: ref_tables_def errno_simps)
  have "rules_code [sample_flow] [sample_route] = 0"
    using sample_rules_valid by (simp add: rules_code_valid)
  then show ?thesis
    using reft_room.dp_snapshot_build_exact [OF sample_args(3,1,2), of t g st] sample_deep
      dp_snapshot_build_cases [OF e sample_args(1,2), of t g st]
    by (auto simp: sample_args)
qed

definition sample_state :: "(ref_hash, ref_lpm, ref_qsbr) dp_state" where
  "sample_state = dp_start\<lparr>g_initialized := True\<rparr>"

lemma sample_state_run: "rules_run (ref_qsbr_ops 128) (ref_tables []) sample_state"
  by (rule run_other [OF run_start]) (simp add: rules_frame_def sample_state_def)

lemma sample_configured:
  "\<exists>st. dp_configure_rules (ref_qsbr_ops 128) (ref_tables []) 0 (Some [sample_flow]) 1
      (Some [sample_route]) 1 sample_state = Some (0, st) \<and>
    g_rules_qsbr st = Some \<lparr>rq_token = 1, rq_counters = replicate 128 0\<rparr>"
proof -
  let ?q = "\<lparr>rq_token = 1, rq_counters = replicate 128 0\<rparr>"
  let ?st = "sample_state\<lparr>g_live := {#Obj_Qsbr#}, g_rules_qsbr := Some ?q\<rparr>"
  have "dp_qsbr_create (ref_qsbr_ops 128) (ref_tables []) 0 sample_state = Some (0, ?st)"
    by (simp add: dp_qsbr_create_def ref_qsbr_ops_def ref_tables_def sample_state_def dp_start_def
        rte_acquire_def)
  moreover obtain s st' where "dp_snapshot_build (ref_tables []) 3 (Some [sample_flow]) 1
      (Some [sample_route]) 1 1 ?st = Some (0, Some s, st')" "g_rules_qsbr st' = Some ?q"
    using sample_build [of 3 1 ?st] by auto
  ultimately show ?thesis
    by (simp add: dp_configure_rules_def configure_snapshot_def)
      (simp add: sample_state_def dp_start_def)
qed

text \<open>The policy, spelled out on the rules.\<close>

lemma route_covers:
  "route_rule_ok x \<Longrightarrow> prefix_matches (rr_prefix x) (rr_depth x) ip \<longleftrightarrow> route_key x = (ip AND depth_mask (rr_depth x), rr_depth x)"
  by (auto simp: prefix_matches_def route_key_def)

lemma longest_match_covers:
  assumes "1 \<le> unat d" "unat d \<le> 32" "rules (ip AND depth_mask d, d) \<noteq> None"
  shows "longest_match rules ip \<noteq> None"
proof -
  have "match_from n rules ip \<noteq> None" if "unat d \<le> n" "n < 256" for n
    using that
  proof (induction n)
    case 0
    then show ?case using assms(1) by simp
  next
    case (Suc n)
    show ?case
    proof (cases "unat d = Suc n")
      case True
      then have "d = word_of_nat (Suc n)"
        using Suc.prems by (simp add: word_unat_eq_iff unat_of_nat del: of_nat_Suc)
      then show ?thesis using assms(3) by (auto split: option.splits)
    next
      case False
      then show ?thesis using Suc by (auto split: option.splits)
    qed
  qed
  then show ?thesis using assms(2) by (simp add: longest_match_def)
qed

lemma policy_routes:
  assumes valid: "rules_valid flows routes" and r: "policy flows routes meta = (r, a)" "r \<noteq> DP_LOOKUP_FLOW_HIT"
  shows "(\<forall>f \<in> set flows. flow_rule_key f \<noteq> dp_flow_key_from_meta meta) \<and>
    (if r = DP_LOOKUP_ROUTE_HIT then
       \<exists>x \<in> set routes. prefix_matches (rr_prefix x) (rr_depth x) (pm_dst_ipv4 meta) \<and> a = Some (rr_action x) \<and>
         (\<forall>y \<in> set routes. prefix_matches (rr_prefix y) (rr_depth y) (pm_dst_ipv4 meta) \<longrightarrow>
            unat (rr_depth y) \<le> unat (rr_depth x))
     else \<forall>y \<in> set routes. \<not> prefix_matches (rr_prefix y) (rr_depth y) (pm_dst_ipv4 meta))"
proof -
  let ?ip = "pm_dst_ipv4 meta"
  let ?m = "map_of (map (\<lambda>r. (route_key r, rr_action r)) routes)"
  have ok: "route_rule_ok x" if "x \<in> set routes" for x
    using valid that by (auto simp: rules_valid_def list_all_iff)
  have nof: "find (\<lambda>r. flow_rule_key r = dp_flow_key_from_meta meta) flows = None"
    using r by (auto simp: policy_def split: option.splits)
  have in_m: "?m (?ip AND depth_mask (rr_depth y), rr_depth y) \<noteq> None"
    if "y \<in> set routes" "prefix_matches (rr_prefix y) (rr_depth y) ?ip" for y
    using that route_covers [OF ok [OF that(1)], of ?ip]
    by (auto simp: map_of_eq_None_iff image_iff simp del: not_None_eq) (metis)
  show ?thesis
  proof (cases "longest_match ?m ?ip")
    case None
    have "\<not> prefix_matches (rr_prefix y) (rr_depth y) ?ip" if y: "y \<in> set routes" for y
    proof
      assume c: "prefix_matches (rr_prefix y) (rr_depth y) ?ip"
      have d: "1 \<le> unat (rr_depth y)" "unat (rr_depth y) \<le> 32"
        using ok [OF y] by (simp_all add: route_rule_ok_def)
      show False using longest_match_covers [where rules = ?m, OF d in_m [OF y c]] None by simp
    qed
    then show ?thesis using r nof None by (auto simp: policy_def find_None_iff)
  next
    case (Some v)
    then obtain d where d: "1 \<le> unat d" "unat d \<le> 32" "?m (?ip AND depth_mask d, d) = Some v"
      and top: "\<And>d'. unat d < unat d' \<Longrightarrow> unat d' \<le> 32 \<Longrightarrow> ?m (?ip AND depth_mask d', d') = None"
      by (auto simp: longest_match_Some)
    obtain x where x: "x \<in> set routes" "route_key x = (?ip AND depth_mask d, d)" "v = rr_action x"
      using map_of_SomeD [OF d(3)] by auto
    have "unat (rr_depth y) \<le> unat (rr_depth x)"
      if y: "y \<in> set routes" and c: "prefix_matches (rr_prefix y) (rr_depth y) ?ip" for y
    proof (rule ccontr)
      assume "\<not> unat (rr_depth y) \<le> unat (rr_depth x)"
      then have "?m (?ip AND depth_mask (rr_depth y), rr_depth y) = None"
        using ok [OF y] x(2) by (intro top) (auto simp: route_key_def route_rule_ok_def)
      with in_m [OF y c] show False by simp
    qed
    moreover have "prefix_matches (rr_prefix x) (rr_depth x) ?ip"
      using x(2) by (simp add: prefix_matches_def route_key_def)
    ultimately show ?thesis
      using r nof Some x by (auto simp: policy_def find_None_iff)
  qed
qed

section \<open>Properties\<close>

text \<open>
  C20. \<open>dp_snapshot_build\<close> is all or nothing. For any arguments whose arrays are as long as
  announced and any outcome of the DPDK calls it touches no memory outside the arrays, frees
  nothing twice, and either returns 0 and a snapshot of the requested generation whose objects
  are the only ones added to the allocated ones, or a negative code, no snapshot and the state
  as it was: every failure path gives back all it had allocated.
\<close>

theorem snapshot_build_all_or_nothing:
  assumes "\<forall>t. 0 \<le> rte_errno ops t" and "array_arg flows nf" and "array_arg routes nr"
  shows "\<exists>ret res st'. dp_snapshot_build ops t flows nf routes nr g st = Some (ret, res, st') \<and>
    (case res of
       Some s \<Rightarrow> ret = 0 \<and> sn_generation s = g \<and> st' = st\<lparr>g_live := g_live st + snapshot_objs s\<rparr>
     | None \<Rightarrow> ret < 0 \<and> st' = st)"
proof -
  have e: "0 \<le> rte_errno ops t" for t using assms(1) by blast
  from dp_snapshot_build_cases [OF e assms(2,3), of t g st] show ?thesis by fastforce
qed

theorem snapshot_build_all_or_nothing_witness:
  "\<exists>ret res st'. dp_snapshot_build (ref_tables [3]) 0 (Some [sample_flow]) 1 (Some [sample_route]) 1 2
      sample_state = Some (ret, res, st') \<and>
    (res = None \<longrightarrow> ret < 0 \<and> st' = sample_state)"
  using snapshot_build_all_or_nothing [of "ref_tables [3]" "Some [sample_flow]" 1 "Some [sample_route]" 1
      0 2 sample_state] sample_args(1,2)
  by (fastforce simp: ref_tables_def errno_simps split: option.splits)



text \<open>
  C2. A built snapshot implements the policy of the rules it was built from: for every packet
  the lookup gives the action of the flow rule with the packet's addresses, ports and protocol,
  else the action of the longest matching route, else a miss, and the action it points to lies
  inside the snapshot's array.
\<close>

theorem lookup_implements_policy:
  assumes "rte_table_laws ops tv" and "array_arg flows nf" and "array_arg routes nr"
    and "dp_snapshot_build ops t flows nf routes nr g st = Some (0, Some s, st')"
  shows "(case dp_lookup_packet ops meta (Some s) of (r, p) \<Rightarrow> (r, pointed_action s p)) =
    policy (rules_of flows nf) (rules_of routes nr) meta"
  using rte_table_laws.dp_snapshot_build_repr [OF assms(1,4,2,3)]
    rte_table_laws.lookup_is_policy [OF assms(1)] by blast

theorem lookup_implements_policy_witness:
  "\<exists>s. (case dp_lookup_packet (ref_tables []) zero_meta (Some s) of (r, p) \<Rightarrow> (r, pointed_action s p)) =
    policy [sample_flow] [sample_route] zero_meta"
proof -
  obtain s st' where "dp_snapshot_build (ref_tables []) 0 (Some [sample_flow]) 1 (Some [sample_route]) 1 1
      sample_state = Some (0, Some s, st')" using sample_build by blast
  from lookup_implements_policy [OF reft.rte_table_laws_axioms sample_args(1,2) this, of zero_meta]
  show ?thesis by (auto simp: sample_args(4,5))
qed

text \<open>
  C21. The route part of the policy is longest prefix match: a route hit comes from a configured
  route that covers the destination, with no covering route of greater depth and no flow rule
  for the packet, and a miss means that nothing covers the packet.
\<close>

theorem lookup_longest_prefix:
  assumes "rte_table_laws ops tv" and "snapshot_repr tv flows routes s"
    and "dp_lookup_packet ops meta (Some s) = (r, p)" and "r \<noteq> DP_LOOKUP_FLOW_HIT"
  shows "(\<forall>f \<in> set flows. flow_rule_key f \<noteq> dp_flow_key_from_meta meta) \<and>
    (if r = DP_LOOKUP_ROUTE_HIT then
       \<exists>x \<in> set routes. prefix_matches (rr_prefix x) (rr_depth x) (pm_dst_ipv4 meta) \<and>
         pointed_action s p = Some (rr_action x) \<and>
         (\<forall>y \<in> set routes. prefix_matches (rr_prefix y) (rr_depth y) (pm_dst_ipv4 meta) \<longrightarrow>
            unat (rr_depth y) \<le> unat (rr_depth x))
     else \<forall>y \<in> set routes. \<not> prefix_matches (rr_prefix y) (rr_depth y) (pm_dst_ipv4 meta))"
proof -
  have "policy flows routes meta = (r, pointed_action s p)"
    using rte_table_laws.lookup_is_policy [OF assms(1,2), of meta] assms(3) by simp
  moreover have "rules_valid flows routes" using assms(2) by (simp add: snapshot_repr_def)
  ultimately show ?thesis using policy_routes assms(4) by blast
qed

theorem lookup_longest_prefix_witness:
  "\<exists>s p. dp_lookup_packet (ref_tables []) (zero_meta\<lparr>pm_dst_ipv4 := 0x0a010203\<rparr>) (Some s) =
      (DP_LOOKUP_ROUTE_HIT, p) \<and> pointed_action s p = Some sample_action"
proof -
  let ?m = "zero_meta\<lparr>pm_dst_ipv4 := 0x0a010203\<rparr>"
  obtain s st' where b: "dp_snapshot_build (ref_tables []) 0 (Some [sample_flow]) 1 (Some [sample_route]) 1 1
      sample_state = Some (0, Some s, st')" using sample_build by blast
  have repr: "snapshot_repr ref_view [sample_flow] [sample_route] s"
    using reft.dp_snapshot_build_repr [OF b sample_args(1,2)] by (simp add: sample_args(4,5))
  obtain r p where l: "dp_lookup_packet (ref_tables []) ?m (Some s) = (r, p)" by fastforce
  have "flow_rule_key sample_flow \<noteq> dp_flow_key_from_meta ?m"
    by (simp add: flow_rule_key_def dp_flow_key_from_meta_def sample_flow_def zero_flow_key_def
        zero_meta_def IPPROTO_TCP_def zero_flow_rule_def)
  then have "fst (policy [sample_flow] [sample_route] ?m) \<noteq> DP_LOOKUP_FLOW_HIT"
    by (simp add: policy_def split: option.splits)
  then have r: "r \<noteq> DP_LOOKUP_FLOW_HIT"
    using reft.lookup_is_policy [OF repr, of "[]" ?m] l by (metis case_prod_conv fst_conv)
  have c: "prefix_matches (rr_prefix sample_route) (rr_depth sample_route) (pm_dst_ipv4 ?m)"
    by (simp add: prefix_matches_def sample_route_def depth_mask_def mask_eq_exp_minus_1)
  from lookup_longest_prefix [OF reft.rte_table_laws_axioms repr l r] c
  have "r = DP_LOOKUP_ROUTE_HIT" "pointed_action s p = Some sample_action"
    by (auto simp: sample_route_def split: if_splits)
  with l show ?thesis by blast
qed

text \<open>
  C26. In every state the rule operations can reach, in any order and with any failures, no rule
  operation is left half done: the lock is free, the allocated DPDK objects are exactly those of
  the active snapshot and the QSBR variable, a configured router has an active snapshot that
  represents valid rules and carries the current generation, and the tables of the next
  generation have names that no live table bears.
\<close>

theorem rules_state_invariant:
  assumes "rte_table_laws ops tv" and "rules_run qs ops st"
  shows "rules_inv tv st \<and>
    Obj_Hash (flow_name (st_rules_generation (g_stats st) + 1)) \<notin># g_live st \<and>
    Obj_Lpm (route_name (st_rules_generation (g_stats st) + 1)) \<notin># g_live st"
proof -
  have inv: "rules_inv tv st" by (rule rte_table_laws.rules_run_inv [OF assms])
  then show ?thesis
    by (fastforce simp: rules_inv_def rule_objs_def snapshot_objs_def snapshot_repr_def names_inj
        split: option.splits)
qed

theorem rules_state_invariant_witness:
  "\<exists>st. dp_configure_rules (ref_qsbr_ops 128) (ref_tables []) 0 (Some [sample_flow]) 1
      (Some [sample_route]) 1 sample_state = Some (0, st) \<and> rules_inv ref_view st"
proof -
  obtain st where c: "dp_configure_rules (ref_qsbr_ops 128) (ref_tables []) 0 (Some [sample_flow]) 1
      (Some [sample_route]) 1 sample_state = Some (0, st)" using sample_configured by blast
  from run_configure [OF sample_state_run sample_args(1,2) c]
  show ?thesis using rules_state_invariant [OF reft.rte_table_laws_axioms] c by blast
qed

text \<open>
  C6. Publication is atomic. From any state between rule operations \<open>dp_publish_rules\<close> does not
  fault, and when it returns, either it returned 0: the generation went up by one and was
  reported, the active snapshot represents exactly the rules given, the old snapshot is freed
  and counted as reclaimed; or it returned a negative code: nothing changed but possibly the
  failure counter, the generation out-parameter included. While it still waits for readers, the
  new snapshot is active and every object of the old one is still allocated.
\<close>

theorem publish_atomic:
  assumes "rte_table_laws ops tv" and "rules_inv tv st"
    and "array_arg flows nf" and "array_arg routes nr" and "generation \<noteq> None"
  shows "\<exists>out. dp_publish_rules qs ops t reports flows nf routes nr generation st = Some out \<and>
    (case out of
       Returned (ret, g) st' \<Rightarrow> rules_inv tv st' \<and>
         (if ret = 0 then
            g = Some (st_rules_generation (g_stats st) + 1) \<and>
            st_rules_generation (g_stats st') = st_rules_generation (g_stats st) + 1 \<and>
            st_rules_publish_success (g_stats st') = st_rules_publish_success (g_stats st) + 1 \<and>
            st_rules_publish_failed (g_stats st') = st_rules_publish_failed (g_stats st) \<and>
            st_rules_reclaimed (g_stats st') = st_rules_reclaimed (g_stats st) + 1 \<and>
            args_ok flows nf routes nr \<and>
            (\<exists>s. g_active_rules st' = Some s \<and> snapshot_repr tv (rules_of flows nf) (rules_of routes nr) s)
          else ret < 0 \<and> g = generation \<and>
            (\<exists>f. st' = on_stats f st \<and> (f = (\<lambda>x. x) \<and> ret = - ENODEV \<or> f = count_failed)))
     | Still_Waiting st' \<Rightarrow> g_writer_lock st' \<and>
         (\<exists>old s. g_active_rules st = Some old \<and> g_active_rules st' = Some s \<and>
            snapshot_repr tv (rules_of flows nf) (rules_of routes nr) s \<and>
            snapshot_objs old \<subseteq># g_live st'))"
  by (rule rte_table_laws.publish_outcome [OF assms])

theorem publish_atomic_witness:
  "\<exists>st out. dp_publish_rules (ref_qsbr_ops 128) (ref_tables []) 10 [] (Some [sample_flow]) 1 (Some [sample_route]) 1
      (Some 0) st = Some out \<and> g_active_rules st \<noteq> None"
proof -
  obtain st where c: "dp_configure_rules (ref_qsbr_ops 128) (ref_tables []) 0 (Some [sample_flow]) 1
      (Some [sample_route]) 1 sample_state = Some (0, st)" using sample_configured by blast
  have inv: "rules_inv ref_view st"
    by (rule reft.rules_run_inv [OF run_configure [OF sample_state_run sample_args(1,2) c]])
  moreover have "g_active_rules st \<noteq> None"
    using reft.dp_configure_rules_cases [OF sample_args(1,2) reft.rules_run_inv [OF sample_state_run],
        where qs = "ref_qsbr_ops 128" and t = 0 and fails = "[]"] c by auto
  ultimately show ?thesis
    using publish_atomic [OF reft.rte_table_laws_axioms inv sample_args(1,2), where generation = "Some 0" and
        qs = "ref_qsbr_ops 128" and t = 10 and reports = "[]"] by fastforce
qed

lemma publish_not_waiting:
  assumes "rte_table_laws ops tv" and "qsbr_laws qs qv" and "rules_inv tv st"
    and "array_arg flows nf" and "array_arg routes nr"
    and "g_rules_qsbr st = Some q" and "qs_inv qv q" and "set reports = qs_online qv q"
  shows "\<exists>r st'. dp_publish_rules qs ops t reports flows nf routes nr generation st = Some (Returned r st')"
proof (cases "generation = None")
  case True
  then show ?thesis by (simp add: dp_publish_rules_def)
next
  case False
  from dp_publish_rules_cases [OF rte_table_laws.errno_law [OF assms(1)] assms(4,5,3) False, of qs t reports]
  show ?thesis
  proof (elim disjE exE conjE)
    fix s old q0 token q1
    assume q: "g_rules_qsbr st = Some q0" "qsbr_start qs q0 = (token, q1)"
      and p: "dp_publish_rules qs ops t reports flows nf routes nr generation st =
         Some (case await_grace qs token reports q1 of
           None \<Rightarrow> Still_Waiting ((publish_enter st)\<lparr>g_active_rules := Some s, g_rules_qsbr := Some q1,
             g_live := g_live st + snapshot_objs s, g_stats := count_published (g_stats st)\<rparr>)
         | Some q2 \<Rightarrow> Returned (0, Some (st_rules_generation (g_stats st) + 1)) (published old q2 s st))"
    have "qs_inv qv q1 \<and> qs_online qv q1 = qs_online qv q \<and> qs_waits qv q1 = qs_online qv q \<and> qs_token qv q1 = token"
      using qsbr_laws.start_law [OF assms(2,7)] q assms(6) by simp
    then obtain q2 where "await_grace qs token reports q1 = Some q2"
      using qsbr_laws.await_grace_done [OF assms(2), of q1 token reports] assms(8) by auto
    with p show ?thesis by simp
  qed auto
qed

text \<open>
  C27. A publication returns once every reader that was online has reported: given QSBR as
  documented, \<open>dp_publish_rules\<close> never waits forever when the readers keep reporting, in any
  order and any number of times, and no reader that does not exist is waited for.
\<close>

theorem publish_returns:
  assumes "rte_table_laws ops tv" and "qsbr_laws qs qv" and "rules_inv tv st"
    and "array_arg flows nf" and "array_arg routes nr"
    and "g_rules_qsbr st = Some q" and "qs_inv qv q" and "set reports = qs_online qv q"
  shows "\<exists>r st'. dp_publish_rules qs ops t reports flows nf routes nr generation st = Some (Returned r st')"
  by (rule publish_not_waiting [OF assms])

theorem publish_returns_witness:
  "\<exists>st q r st'. g_active_rules st \<noteq> None \<and> g_rules_qsbr st = Some q \<and> qs_online (ref_qsbr_view 128) q = {0} \<and>
    dp_publish_rules (ref_qsbr_ops 128) (ref_tables []) 10 [0] (Some [sample_flow]) 1 (Some [sample_route]) 1
      (Some 0) st = Some (Returned r st')"
proof -
  let ?q = "\<lparr>rq_token = 1, rq_counters = replicate 128 0\<rparr>" and ?q' = "\<lparr>rq_token = 1, rq_counters = (replicate 128 0)[0 := 1]\<rparr>"
  obtain st where c: "dp_configure_rules (ref_qsbr_ops 128) (ref_tables []) 0 (Some [sample_flow]) 1
      (Some [sample_route]) 1 sample_state = Some (0, st)" "g_rules_qsbr st = Some ?q" using sample_configured by blast
  obtain st' where g: "dp_rules_reader_register (ref_qsbr_ops 128) (ref_tables []) 0 0 st = (0, st')"
    "g_rules_qsbr st' = Some ?q'" "g_active_rules st' = g_active_rules st"
    using c(2) by (simp add: dp_rules_reader_register_def ref_qsbr_ops_def)
  have "g_active_rules st \<noteq> None"
    using reft.dp_configure_rules_cases [OF sample_args(1,2) reft.rules_run_inv [OF sample_state_run],
        where qs = "ref_qsbr_ops 128" and t = 0 and fails = "[]"] c(1) by auto
  then have act: "g_active_rules st' \<noteq> None" using g(3) by simp
  have inv: "rules_inv ref_view st'"
    by (rule reft.rules_run_inv [OF run_register [OF run_configure [OF sample_state_run sample_args(1,2) c(1)] g(1)]])
  have q: "qs_inv (ref_qsbr_view 128) ?q'" "qs_online (ref_qsbr_view 128) ?q' = {0}"
    by (auto simp: ref_qsbr_view_def rq_inv_def rq_online_def nth_list_update dest!: subsetD [OF set_update_subset_insert])
  then have r: "set [0] = qs_online (ref_qsbr_view 128) ?q'" by simp
  note run = publish_returns [where t = 10 and reports = "[0]" and generation = "Some 0", OF reft.rte_table_laws_axioms
      refq.qsbr_laws_axioms inv sample_args(1,2) g(2) q(1) r]
  show ?thesis
    by (rule exE [OF run], erule exE, intro exI conjI, rule act, rule g(2), rule q(2), assumption)
qed

text \<open>
  Teardown frees everything the rules allocated: from any reachable state it does not fault,
  leaves no DPDK object of the rules allocated and no pointer to one behind, and the rules are
  no longer configured.
\<close>

theorem rules_teardown_complete:
  assumes "rte_table_laws ops tv" and "rules_run qs ops st"
  shows "\<exists>st'. dp_rules_teardown st = Some st' \<and> g_live st' = {#} \<and> g_active_rules st' = None \<and>
    g_rules_qsbr st' = None \<and> \<not> g_rules_configured st' \<and> \<not> g_writer_lock st'"
  using dp_rules_teardown_frees [OF rte_table_laws.rules_run_inv [OF assms]]
    rte_table_laws.rules_run_inv [OF assms] by (auto simp: rules_inv_def)

theorem rules_teardown_complete_witness:
  "\<exists>st st'. dp_configure_rules (ref_qsbr_ops 128) (ref_tables []) 0 (Some [sample_flow]) 1
      (Some [sample_route]) 1 sample_state = Some (0, st) \<and>
    dp_rules_teardown st = Some st' \<and> g_live st' = {#}"
proof -
  obtain st where c: "dp_configure_rules (ref_qsbr_ops 128) (ref_tables []) 0 (Some [sample_flow]) 1
      (Some [sample_route]) 1 sample_state = Some (0, st)" using sample_configured by blast
  from rules_teardown_complete [OF reft.rte_table_laws_axioms
      run_configure [OF sample_state_run sample_args(1,2) c]] c
  show ?thesis by blast
qed

end
