(* ===== verification/Dp_Worker.thy ===== *)
theory Dp_Worker
  imports Dp_Publish Dp_Action
begin

text \<open>
  The packet path of a worker (\<open>dp_worker.c\<close>, \<open>dp_tx.c\<close>): the packet buffers by pointer, the
  processing of one packet, of one burst, the completion of a transmission and the polling loop.
  The buffers are a map from pointers to the mbufs the application owns; freeing or handing a
  buffer to the driver takes it out of the map, so that a second free, a use after free or a use
  after the hand-over finds nothing and is a fault (\<open>None\<close>). The log of the freed pointers and that of the
  pointers handed to the driver, with the packets as they were then, are kept for the statements
  about ownership.
\<close>

section \<open>Packet buffers\<close>

record mbuf_heap =
  mh_live :: "nat \<Rightarrow> rte_mbuf option"
  mh_freed :: "nat list"
  mh_sent :: "(nat \<times> rte_mbuf) list"

definition rte_pktmbuf_free :: "nat \<Rightarrow> mbuf_heap \<Rightarrow> mbuf_heap option" where
  "rte_pktmbuf_free p h =
     (if mh_live h p = None then None
      else Some (h\<lparr>mh_live := (mh_live h)(p := None), mh_freed := mh_freed h @ [p]\<rparr>))"

text \<open>What \<open>rte_eth_rx_burst\<close> hands to the application, and \<open>rte_eth_tx_burst\<close> to the driver.\<close>

definition rx_take :: "(nat \<times> rte_mbuf) list \<Rightarrow> mbuf_heap \<Rightarrow> mbuf_heap" where
  "rx_take rx h = h\<lparr>mh_live := mh_live h ++ map_of rx\<rparr>"

definition tx_give :: "nat list \<Rightarrow> mbuf_heap \<Rightarrow> mbuf_heap option" where
  "tx_give ps h =
     (if list_all (\<lambda>p. mh_live h p \<noteq> None) ps \<and> distinct ps
      then Some (h\<lparr>mh_live := (\<lambda>p. if p \<in> set ps then None else mh_live h p),
                   mh_sent := mh_sent h @ map (\<lambda>p. (p, the (mh_live h p))) ps\<rparr>)
      else None)"

section \<open>Transmission\<close>

text \<open>The loop \<open>for (i = sent; i < n; i++)\<close> at index \<open>i\<close> with \<open>k\<close> rounds left.\<close>

fun free_tail :: "nat list \<Rightarrow> nat \<Rightarrow> nat \<Rightarrow> mbuf_heap \<Rightarrow> mbuf_heap option" where
  "free_tail pkts i 0 h = Some h"
| "free_tail pkts i (Suc k) h = do {
     p \<leftarrow> idx pkts i;
     h \<leftarrow> rte_pktmbuf_free p h;
     free_tail pkts (i + 1) k h }"

text \<open>
  \<open>n - sent\<close> is computed as an \<open>int\<close> and converted to 64 bits when it is added, so it would wrap
  if a driver reported more than it was given.
\<close>

definition dp_complete_tx ::
  "nat list \<Rightarrow> u16 \<Rightarrow> u16 \<Rightarrow> mbuf_heap \<Rightarrow> dp_packet_stats \<Rightarrow> (mbuf_heap \<times> dp_packet_stats) option" where
  "dp_complete_tx pkts n sent h stats = do {
     let stats = stats\<lparr>ps_tx_accepted := ps_tx_accepted stats + ucast sent\<rparr>;
     let stats = stats\<lparr>ps_tx_unsent := ps_tx_unsent stats + word_of_int (uint n - uint sent)\<rparr>;
     let stats = stats\<lparr>ps_drop := ps_drop stats + word_of_int (uint n - uint sent)\<rparr>;
     h \<leftarrow> free_tail pkts (unat sent) (unat n - unat sent) h;
     Some (h, stats) }"

text \<open>
  The self test of the transmission. \<open>pool\<close> tells whether the pool could be created, \<open>bufs\<close> are
  the four buffers allocated from it, if they could be; the pool's count of buffers in use is the
  number of them that are live.
\<close>

definition in_use_count :: "(nat \<times> rte_mbuf) list \<Rightarrow> mbuf_heap \<Rightarrow> nat" where
  "in_use_count bufs h = length (filter (\<lambda>p. mh_live h p \<noteq> None) (map fst bufs))"

definition dp_test_tx_partial_ownership ::
  "bool \<Rightarrow> (nat \<times> rte_mbuf) list option \<Rightarrow> ('h, 'l, 'q) dp_state \<Rightarrow> int option" where
  "dp_test_tx_partial_ownership pool bufs st =
     (if \<not> g_initialized st \<or> g_running st \<or> g_pool st \<noteq> None then Some (- EBUSY)
      else if \<not> pool then Some (- ENOMEM)
      else case bufs of None \<Rightarrow> Some (- ENOMEM)
      | Some bufs \<Rightarrow> do {
          let pkts = map fst bufs;
          let h = rx_take bufs \<lparr>mh_live = Map.empty, mh_freed = [], mh_sent = []\<rparr>;
          let stats = zero_packet_stats\<lparr>ps_rx := 4, ps_parse_ok := 4, ps_flow_hit := 4,
            ps_action_forward := 4\<rparr>;
          (h, stats) \<leftarrow> dp_complete_tx pkts 4 2 h stats;
          let ret = (if ps_rx stats \<noteq> 4 \<or> ps_parse_ok stats \<noteq> 4 \<or> ps_flow_hit stats \<noteq> 4 \<or>
              ps_action_forward stats \<noteq> 4 \<or> ps_tx_accepted stats \<noteq> 2 \<or>
              ps_tx_unsent stats \<noteq> 2 \<or> ps_drop stats \<noteq> 2 \<or>
              ps_rx stats \<noteq> ps_parse_ok stats + ps_parse_unsupported stats + ps_parse_malformed stats \<or>
              ps_parse_ok stats \<noteq> ps_flow_hit stats + ps_route_hit stats + ps_lookup_miss stats \<or>
              ps_parse_ok stats \<noteq> ps_action_drop stats + ps_action_forward stats + ps_action_rewrite stats \<or>
              ps_action_forward stats + ps_action_rewrite stats \<noteq> ps_tx_accepted stats + ps_tx_unsent stats \<or>
              ps_drop stats \<noteq> ps_parse_unsupported stats + ps_parse_malformed stats + ps_action_drop stats +
                ps_tx_unsent stats \<or>
              in_use_count bufs h \<noteq> 2
            then - EIO else 0);
          p \<leftarrow> idx pkts 0;
          h \<leftarrow> rte_pktmbuf_free p h;
          p \<leftarrow> idx pkts 1;
          h \<leftarrow> rte_pktmbuf_free p h;
          Some (if in_use_count bufs h \<noteq> 0 then - EIO else ret)
        })"

section \<open>One packet\<close>

text \<open>
  The local \<open>meta\<close> starts uninitialised in the code; the model starts it with zeros, and the
  parser overwrites it before it reports a packet it accepts.
\<close>

definition dp_process_packet ::
  "rte_cksum_ops \<Rightarrow> ('h, 'l) rte_table_ops \<Rightarrow> nat \<Rightarrow> ('h, 'l) dp_rule_snapshot option \<Rightarrow>
   mbuf_heap \<Rightarrow> dp_packet_stats \<Rightarrow> (mbuf_heap \<times> dp_packet_stats \<times> nat option) option" where
  "dp_process_packet ck ops p snapshot h stats = do {
     m \<leftarrow> mh_live h p;
     (parse_result, meta) \<leftarrow> dp_parse_packet (Some m) (Some zero_meta);
     meta \<leftarrow> meta;
     if parse_result \<noteq> DP_PARSE_OK then do {
       let stats = (if parse_result = DP_PARSE_UNSUPPORTED
         then stats\<lparr>ps_parse_unsupported := ps_parse_unsupported stats + 1\<rparr>
         else stats\<lparr>ps_parse_malformed := ps_parse_malformed stats + 1\<rparr>);
       let stats = stats\<lparr>ps_drop := ps_drop stats + 1\<rparr>;
       h \<leftarrow> rte_pktmbuf_free p h;
       Some (h, stats, None)
     }
     else do {
       let stats = stats\<lparr>ps_parse_ok := ps_parse_ok stats + 1\<rparr>;
       let (lookup_result, action) = dp_lookup_packet ops meta snapshot;
       if lookup_result = DP_LOOKUP_MISS then do {
         let stats = stats\<lparr>ps_lookup_miss := ps_lookup_miss stats + 1,
           ps_action_drop := ps_action_drop stats + 1, ps_drop := ps_drop stats + 1\<rparr>;
         h \<leftarrow> rte_pktmbuf_free p h;
         Some (h, stats, None)
       }
       else do {
         let stats = (if lookup_result = DP_LOOKUP_FLOW_HIT
           then stats\<lparr>ps_flow_hit := ps_flow_hit stats + 1\<rparr>
           else stats\<lparr>ps_route_hit := ps_route_hit stats + 1\<rparr>);
         s \<leftarrow> snapshot;
         a \<leftarrow> pointed_action s action;
         if ra_type a = DP_ACTION_DROP then do {
           let stats = stats\<lparr>ps_action_drop := ps_action_drop stats + 1, ps_drop := ps_drop stats + 1\<rparr>;
           h \<leftarrow> rte_pktmbuf_free p h;
           Some (h, stats, None)
         }
         else if ra_type a = DP_ACTION_FORWARD then
           Some (h, stats\<lparr>ps_action_forward := ps_action_forward stats + 1\<rparr>, Some p)
         else do {
           (ret, h) \<leftarrow> (if ra_type a = DP_ACTION_REWRITE then do {
               (ret, m') \<leftarrow> dp_apply_action ck (Some m) (Some meta) (Some a);
               Some (ret, h\<lparr>mh_live := (mh_live h)(p := m')\<rparr>) }
             else Some (- 1, h));
           if ra_type a = DP_ACTION_REWRITE \<and> ret = 0 then
             Some (h, stats\<lparr>ps_action_rewrite := ps_action_rewrite stats + 1\<rparr>, Some p)
           else do {
             let stats = stats\<lparr>ps_action_drop := ps_action_drop stats + 1, ps_drop := ps_drop stats + 1\<rparr>;
             h \<leftarrow> rte_pktmbuf_free p h;
             Some (h, stats, None)
           }
         }
       }
     } }"

section \<open>One burst\<close>

text \<open>
  The inner loop at index \<open>i\<close> with \<open>k\<close> packets left: the surviving packets are written back to the
  front of the array they are read from. The stage that processes a packet is an argument, the
  worker passes \<open>dp_process_packet\<close>.
\<close>

type_synonym packet_fun =
  "nat \<Rightarrow> mbuf_heap \<Rightarrow> dp_packet_stats \<Rightarrow> (mbuf_heap \<times> dp_packet_stats \<times> nat option) option"

fun process_burst ::
  "packet_fun \<Rightarrow> nat list \<Rightarrow> nat \<Rightarrow> nat \<Rightarrow> nat \<Rightarrow> mbuf_heap \<Rightarrow> dp_packet_stats \<Rightarrow>
   (nat list \<times> nat \<times> mbuf_heap \<times> dp_packet_stats) option" where
  "process_burst f pkts i 0 tx_count h stats = Some (pkts, tx_count, h, stats)"
| "process_burst f pkts i (Suc k) tx_count h stats = do {
     p \<leftarrow> idx pkts i;
     (h, stats, candidate) \<leftarrow> f p h stats;
     (case candidate of
        None \<Rightarrow> process_burst f pkts (i + 1) k tx_count h stats
      | Some c \<Rightarrow> do {
          pkts \<leftarrow> set_idx pkts tx_count c;
          process_burst f pkts (i + 1) k (tx_count + 1) h stats }) }"

text \<open>
  What follows the reception of \<open>rx\<close> in one pass of the polling loop: the counters, the inner
  loop, the transmission. \<open>driver\<close> answers how many of the packets offered it takes.
\<close>

definition handle_burst ::
  "packet_fun \<Rightarrow> (nat \<times> rte_mbuf) list \<Rightarrow> (u16 \<Rightarrow> u16) \<Rightarrow> mbuf_heap \<Rightarrow> dp_packet_stats \<Rightarrow>
   (mbuf_heap \<times> dp_packet_stats) option" where
  "handle_burst f rx driver h stats = do {
     let h = rx_take rx h;
     let stats = stats\<lparr>ps_rx_bursts := ps_rx_bursts stats + 1\<rparr>;
     if length rx = 0 then Some (h, stats\<lparr>ps_rx_empty_polls := ps_rx_empty_polls stats + 1\<rparr>)
     else do {
       let stats = stats\<lparr>ps_rx := ps_rx stats + word_of_nat (length rx)\<rparr>;
       (pkts, tx_count, h, stats) \<leftarrow> process_burst f (map fst rx) 0 (length rx) 0 h stats;
       if tx_count \<noteq> 0 then do {
         let sent = driver (word_of_nat tx_count);
         h \<leftarrow> tx_give (take (unat sent) (take tx_count pkts)) h;
         let stats = stats\<lparr>ps_tx_bursts := ps_tx_bursts stats + 1\<rparr>;
         dp_complete_tx pkts (word_of_nat tx_count) sent h stats
       }
       else Some (h, stats)
     } }"

section \<open>The polling loop\<close>

text \<open>
  The inputs of one pass: what the other threads do to the global state before it and while the
  burst is processed, the packets the driver delivers and the number it takes for transmission.
\<close>

record ('h, 'l, 'q) poll =
  po_others :: "('h, 'l, 'q) dp_state \<Rightarrow> ('h, 'l, 'q) dp_state"
  po_during :: "('h, 'l, 'q) dp_state \<Rightarrow> ('h, 'l, 'q) dp_state"
  po_rx :: "(nat \<times> rte_mbuf) list"
  po_driver :: "u16 \<Rightarrow> u16"

text \<open>
  The loop over a finite sequence of passes. The first component of the result tells whether the
  loop ended because \<open>stop\<close> was seen; it is \<open>False\<close> while the worker is still polling.
\<close>

fun worker_loop ::
  "rte_cksum_ops \<Rightarrow> ('h, 'l) rte_table_ops \<Rightarrow> 'q qsbr_ops \<Rightarrow> ('h, 'l, 'q) poll list \<Rightarrow>
   ('h, 'l, 'q) dp_state \<Rightarrow> dp_worker_ctx \<Rightarrow> mbuf_heap \<Rightarrow>
   (bool \<times> ('h, 'l, 'q) dp_state \<times> dp_worker_ctx \<times> mbuf_heap) option" where
  "worker_loop ck ops qs [] st w h = Some (False, st, w, h)"
| "worker_loop ck ops qs (po # pos) st w h = do {
     let st = po_others po st;
     if g_stop st then Some (True, st, w, h)
     else do {
       let snapshot = dp_rules_active_load st;
       (h, stats) \<leftarrow> handle_burst (\<lambda>p. dp_process_packet ck ops p snapshot) (po_rx po) (po_driver po) h
         (wc_stats w);
       st \<leftarrow> dp_rules_reader_quiescent qs (unat (wi_worker_id (wc_info w))) (po_during po st);
       worker_loop ck ops qs pos st (w\<lparr>wc_stats := stats\<rparr>) h
     } }"

text \<open>
  \<open>dp_worker_run\<close>. The worker's context is a separate argument, \<open>failure\<close> is the test hook's
  worker id, \<open>t\<close> the moment of the registration. The result is the return value, or \<open>None\<close> while
  the worker is still polling.
\<close>

definition worker_fail ::
  "int \<Rightarrow> ('h, 'l, 'q) dp_state \<Rightarrow> dp_worker_ctx \<Rightarrow> mbuf_heap \<Rightarrow>
   (int option \<times> ('h, 'l, 'q) dp_state \<times> dp_worker_ctx \<times> mbuf_heap)" where
  "worker_fail ret st w h =
     (Some ret, st\<lparr>g_stop := True, g_active_workers := g_active_workers st - 1\<rparr>,
      w\<lparr>wc_result := ret\<rparr>, h)"

definition dp_worker_run ::
  "rte_cksum_ops \<Rightarrow> ('h, 'l) rte_table_ops \<Rightarrow> 'q qsbr_ops \<Rightarrow> int \<Rightarrow> nat \<Rightarrow> ('h, 'l, 'q) poll list \<Rightarrow>
   ('h, 'l, 'q) dp_state \<Rightarrow> dp_worker_ctx \<Rightarrow> mbuf_heap \<Rightarrow>
   (int option \<times> ('h, 'l, 'q) dp_state \<times> dp_worker_ctx \<times> mbuf_heap) option" where
  "dp_worker_run ck ops qs failure t polls st w h = do {
     let st = st\<lparr>g_active_workers := g_active_workers st + 1\<rparr>;
     let worker_id = wi_worker_id (wc_info w);
     if failure = sint worker_id then Some (worker_fail (- EIO) st w h)
     else do {
       let (ret, st) = dp_rules_reader_register qs ops t (unat worker_id) st;
       if ret < 0 then Some (worker_fail ret st w h)
       else do {
         let w = w\<lparr>wc_reader_registered := True\<rparr>;
         (stopped, st, w, h) \<leftarrow> worker_loop ck ops qs polls st w h;
         if \<not> stopped then Some (None, st, w, h)
         else do {
           st \<leftarrow> dp_rules_reader_unregister qs (unat worker_id) st;
           Some (Some 0, st\<lparr>g_active_workers := g_active_workers st - 1\<rparr>,
             w\<lparr>wc_reader_registered := False, wc_result := 0\<rparr>, h)
         }
       }
     } }"

definition dp_dataplane_request_stop :: "('h, 'l, 'q) dp_state \<Rightarrow> ('h, 'l, 'q) dp_state" where
  "dp_dataplane_request_stop st = st\<lparr>g_stop := True\<rparr>"

end
