(* ===== verification/Dp_Burst.thy ===== *)
theory Dp_Burst
  imports Dp_Worker
begin

text \<open>
  What a polling pass does to the packet buffers. The inner loop, the transmission and the whole
  pass are proved once for any packet stage with a contract (\<open>packet_stage\<close>: each packet is
  either freed or kept, and counted in a way the packet determines).
\<close>

section \<open>Transmission\<close>

definition freed_all :: "nat list \<Rightarrow> mbuf_heap \<Rightarrow> mbuf_heap" where
  "freed_all ps h = h\<lparr>mh_live := (\<lambda>p. if p \<in> set ps then None else mh_live h p),
     mh_freed := mh_freed h @ ps\<rparr>"

lemma free_tail_frees:
  assumes "i + k \<le> length pkts" "distinct (take k (drop i pkts))"
    "\<And>p. p \<in> set (take k (drop i pkts)) \<Longrightarrow> mh_live h p \<noteq> None"
  shows "free_tail pkts i k h = Some (freed_all (take k (drop i pkts)) h)"
  using assms
proof (induction k arbitrary: i h)
  case 0
  then show ?case by (simp add: freed_all_def)
next
  case (Suc k)
  let ?ps = "take k (drop (i + 1) pkts)"
  have i: "i < length pkts" using Suc.prems(1) by simp
  then have split: "take (Suc k) (drop i pkts) = pkts ! i # ?ps"
    by (simp add: Cons_nth_drop_Suc [symmetric])
  define h1 where "h1 = h\<lparr>mh_live := (mh_live h)(pkts ! i := None), mh_freed := mh_freed h @ [pkts ! i]\<rparr>"
  have "mh_live h (pkts ! i) \<noteq> None" using Suc.prems(3) split by simp
  then have "rte_pktmbuf_free (pkts ! i) h = Some h1" by (simp add: rte_pktmbuf_free_def h1_def)
  moreover have "free_tail pkts (i + 1) k h1 = Some (freed_all ?ps h1)"
  proof (rule Suc.IH)
    show "mh_live h1 p \<noteq> None" if "p \<in> set ?ps" for p
      using Suc.prems(2) Suc.prems(3) [of p] split that by (auto simp: h1_def)
  qed (use Suc.prems split in auto)
  moreover have "freed_all ?ps h1 = freed_all (pkts ! i # ?ps) h"
    by (auto simp: freed_all_def h1_def fun_eq_iff)
  ultimately show ?case using i split by (simp add: mem_simps)
qed

lemma tx_give_gives:
  assumes "distinct ps" "\<And>p. p \<in> set ps \<Longrightarrow> mh_live h p \<noteq> None"
  shows "tx_give ps h = Some (h\<lparr>mh_live := (\<lambda>p. if p \<in> set ps then None else mh_live h p),
    mh_sent := mh_sent h @ map (\<lambda>p. (p, the (mh_live h p))) ps\<rparr>)"
  unfolding tx_give_def list_all_iff using assms by (intro if_P) blast

definition tx_counted :: "u16 \<Rightarrow> u16 \<Rightarrow> 'a dp_packet_stats_scheme \<Rightarrow> 'a dp_packet_stats_scheme" where
  "tx_counted n sent stats = stats\<lparr>ps_tx_accepted := ps_tx_accepted stats + word_of_nat (unat sent),
     ps_tx_unsent := ps_tx_unsent stats + word_of_nat (unat n - unat sent),
     ps_drop := ps_drop stats + word_of_nat (unat n - unat sent)\<rparr>"

lemma dp_complete_tx_frees:
  assumes "sent \<le> n" "unat n \<le> length pkts"
    "distinct (drop (unat sent) (take (unat n) pkts))"
    "\<And>p. p \<in> set (drop (unat sent) (take (unat n) pkts)) \<Longrightarrow> mh_live h p \<noteq> None"
  shows "dp_complete_tx pkts n sent h stats =
    Some (freed_all (drop (unat sent) (take (unat n) pkts)) h, tx_counted n sent stats)"
proof -
  have le: "unat sent \<le> unat n" using assms(1) by (simp add: word_le_nat_alt)
  have ps: "take (unat n - unat sent) (drop (unat sent) pkts) = drop (unat sent) (take (unat n) pkts)"
    by (simp add: drop_take)
  have "uint n - uint sent = int (unat n - unat sent)"
    using le by (simp add: of_nat_diff)
  then have w: "(word_of_int (uint n - uint sent) :: u64) = word_of_nat (unat n - unat sent)"
    by simp
  have s: "(ucast sent :: u64) = word_of_nat (unat sent)" by simp
  have "free_tail pkts (unat sent) (unat n - unat sent) h =
      Some (freed_all (drop (unat sent) (take (unat n) pkts)) h)"
    using free_tail_frees [of "unat sent" "unat n - unat sent" pkts h] assms le ps by simp
  then show ?thesis
    unfolding dp_complete_tx_def w s by (simp add: tx_counted_def Let_def)
qed

section \<open>The contract of a packet stage\<close>

definition stage_result :: "nat \<Rightarrow> mbuf_heap \<Rightarrow> rte_mbuf option \<Rightarrow> mbuf_heap \<times> nat option" where
  "stage_result p h v = (case v of
     None \<Rightarrow> (h\<lparr>mh_live := (mh_live h)(p := None), mh_freed := mh_freed h @ [p]\<rparr>, None)
   | Some m \<Rightarrow> (h\<lparr>mh_live := (mh_live h)(p := Some m)\<rparr>, Some p))"

text \<open>
  What a burst comes to, for a verdict on each packet: the pointers kept and dropped, the packets
  to send, the number the driver takes, the buffers before the transmission and the counters
  after it.
\<close>

type_synonym verdict_fun = "rte_mbuf \<Rightarrow> rte_mbuf option"

abbreviation kept_by :: "verdict_fun \<Rightarrow> (nat \<times> rte_mbuf) list \<Rightarrow> nat list" where
  "kept_by v xs \<equiv> map fst (filter (\<lambda>(p, m). v m \<noteq> None) xs)"

abbreviation dropped_by :: "verdict_fun \<Rightarrow> (nat \<times> rte_mbuf) list \<Rightarrow> nat list" where
  "dropped_by v xs \<equiv> map fst (filter (\<lambda>(p, m). v m = None) xs)"

definition sending_by :: "verdict_fun \<Rightarrow> (nat \<times> rte_mbuf) list \<Rightarrow> (nat \<times> rte_mbuf) list" where
  "sending_by v xs = map (\<lambda>(p, m). (p, the (v m))) (filter (\<lambda>(p, m). v m \<noteq> None) xs)"

definition after_burst_by :: "verdict_fun \<Rightarrow> (nat \<times> rte_mbuf) list \<Rightarrow> mbuf_heap \<Rightarrow> mbuf_heap" where
  "after_burst_by v xs h = h\<lparr>
     mh_live := (\<lambda>p. case map_of xs p of None \<Rightarrow> mh_live h p | Some m \<Rightarrow> v m),
     mh_freed := mh_freed h @ dropped_by v xs\<rparr>"

definition burst_sent_by :: "verdict_fun \<Rightarrow> (nat \<times> rte_mbuf) list \<Rightarrow> (u16 \<Rightarrow> u16) \<Rightarrow> u16" where
  "burst_sent_by v rx driver =
     (if kept_by v rx = [] then 0 else driver (word_of_nat (length (kept_by v rx))))"

definition burst_stats_by ::
  "verdict_fun \<Rightarrow> (rte_mbuf \<Rightarrow> dp_packet_stats \<Rightarrow> dp_packet_stats) \<Rightarrow>
   (nat \<times> rte_mbuf) list \<Rightarrow> (u16 \<Rightarrow> u16) \<Rightarrow> dp_packet_stats \<Rightarrow> dp_packet_stats" where
  "burst_stats_by v tally rx driver stats =
     (let stats = stats\<lparr>ps_rx_bursts := ps_rx_bursts stats + 1\<rparr> in
      if rx = [] then stats\<lparr>ps_rx_empty_polls := ps_rx_empty_polls stats + 1\<rparr>
      else
        let stats = fold (\<lambda>(p, m). tally m) rx (stats\<lparr>ps_rx := ps_rx stats + word_of_nat (length rx)\<rparr>) in
        if kept_by v rx = [] then stats
        else tx_counted (word_of_nat (length (kept_by v rx))) (burst_sent_by v rx driver)
          (stats\<lparr>ps_tx_bursts := ps_tx_bursts stats + 1\<rparr>))"

locale packet_stage =
  fixes f :: packet_fun
    and verdict :: "rte_mbuf \<Rightarrow> rte_mbuf option"
    and tally :: "rte_mbuf \<Rightarrow> dp_packet_stats \<Rightarrow> dp_packet_stats"
  assumes stage: "mh_live h p = Some m \<Longrightarrow> mbuf_wf m \<Longrightarrow>
    f p h stats = Some (fst (stage_result p h (verdict m)), tally m stats,
      snd (stage_result p h (verdict m)))"
begin

abbreviation "kept \<equiv> kept_by verdict"
abbreviation "dropped \<equiv> dropped_by verdict"
abbreviation "sending \<equiv> sending_by verdict"
abbreviation "after_burst \<equiv> after_burst_by verdict"
abbreviation "burst_sent \<equiv> burst_sent_by verdict"
abbreviation "burst_stats \<equiv> burst_stats_by verdict tally"

lemma after_burst_Cons:
  assumes "p \<notin> fst ` set xs"
  shows "after_burst ((p, m) # xs) h = after_burst xs (fst (stage_result p h (verdict m)))"
proof -
  have "map_of xs p = None" using assms by (simp add: map_of_eq_None_iff)
  then show ?thesis
    by (auto simp: after_burst_by_def stage_result_def fun_eq_iff split: option.splits)
qed

lemma process_burst_runs:
  assumes "take (length xs) (drop i pkts) = map fst xs" "tx \<le> i" "i + length xs \<le> length pkts"
    "\<And>p m. (p, m) \<in> set xs \<Longrightarrow> mh_live h p = Some m \<and> mbuf_wf m" "distinct (map fst xs)"
  shows "\<exists>pkts'. process_burst f pkts i (length xs) tx h stats =
      Some (pkts', tx + length (kept xs), after_burst xs h, fold (\<lambda>(p, m). tally m) xs stats) \<and>
    take (tx + length (kept xs)) pkts' = take tx pkts @ kept xs \<and> length pkts' = length pkts"
  using assms
proof (induction xs arbitrary: i tx pkts h stats)
  case Nil
  then show ?case by (simp add: after_burst_by_def)
next
  case (Cons x xs)
  obtain p m where x: "x = (p, m)" by (cases x) auto
  have i: "i < length pkts" and p: "pkts ! i = p"
    using Cons.prems(1,3) x by (auto simp: take_Suc hd_drop_conv_nth)
  have rest: "take (length xs) (drop (i + 1) pkts) = map fst xs"
    using Cons.prems(1) i x by (simp add: Cons_nth_drop_Suc [symmetric])
  have m: "mh_live h p = Some m" "mbuf_wf m" using Cons.prems(4) x by auto
  have new: "p \<notin> fst ` set xs" "distinct (map fst xs)" using Cons.prems(5) x by auto
  define h1 where "h1 = fst (stage_result p h (verdict m))"
  have live: "mh_live h1 q = Some n \<and> mbuf_wf n" if "(q, n) \<in> set xs" for q n
  proof -
    have "q \<noteq> p" using new(1) that by force
    then show ?thesis using Cons.prems(4) [of q n] that x
      by (auto simp: h1_def stage_result_def split: option.splits)
  qed
  have ab: "after_burst (x # xs) h = after_burst xs h1"
    using after_burst_Cons [OF new(1)] by (simp add: x h1_def)
  show ?case
  proof (cases "verdict m")
    case None
    have "\<exists>pkts'. process_burst f pkts (i + 1) (length xs) tx h1 (tally m stats) =
        Some (pkts', tx + length (kept xs), after_burst xs h1, fold (\<lambda>(p, m). tally m) xs (tally m stats)) \<and>
      take (tx + length (kept xs)) pkts' = take tx pkts @ kept xs \<and> length pkts' = length pkts"
      using Cons.prems(2,3) rest live new(2) by (intro Cons.IH) auto
    then show ?thesis
      using i p None x ab stage [OF m, of stats] by (simp add: idx_Some h1_def stage_result_def)
  next
    case (Some m')
    let ?pkts = "pkts[tx := p]"
    have tx: "tx < length pkts" using Cons.prems(2) i by simp
    have "\<exists>pkts'. process_burst f ?pkts (i + 1) (length xs) (tx + 1) h1 (tally m stats) =
        Some (pkts', tx + 1 + length (kept xs), after_burst xs h1, fold (\<lambda>(p, m). tally m) xs (tally m stats)) \<and>
      take (tx + 1 + length (kept xs)) pkts' = take (tx + 1) ?pkts @ kept xs \<and> length pkts' = length ?pkts"
      using Cons.prems(2,3) rest live new(2) by (intro Cons.IH) auto
    moreover have "take (tx + 1) ?pkts = take tx pkts @ [p]"
      using tx by (simp add: take_Suc_conv_app_nth)
    ultimately show ?thesis
      using i p Some x ab tx stage [OF m, of stats]
      by (auto simp: mem_simps h1_def stage_result_def)
  qed
qed

lemma after_burst_live:
  assumes "distinct (map fst xs)" "(p, m) \<in> set xs"
  shows "mh_live (after_burst xs h) p = verdict m"
  using assms by (simp add: after_burst_by_def map_of_is_SomeI)

lemma fst_sending: "map fst (sending xs) = kept xs"
  by (simp add: sending_by_def split_beta)

lemma kept_live:
  assumes "distinct (map fst xs)"
  shows "map (\<lambda>p. (p, the (mh_live (after_burst xs h) p))) (kept xs) = sending xs"
proof -
  have "(fst x, the (mh_live (after_burst xs h) (fst x))) = (fst x, the (verdict (snd x)))"
    if "x \<in> set xs" for x
    using after_burst_live [OF assms, of "fst x" "snd x"] that by simp
  then show ?thesis by (simp add: sending_by_def split_beta)
qed

lemma handle_burst_runs:
  assumes rx: "distinct (map fst rx)" "\<And>p m. (p, m) \<in> set rx \<Longrightarrow> mbuf_wf m \<and> mh_live h p = None"
    and len: "length rx < 65536" and driver: "\<And>n. driver n \<le> n"
  shows "handle_burst f rx driver h stats = Some
    (h\<lparr>mh_freed := mh_freed h @ dropped rx @ drop (unat (burst_sent rx driver)) (kept rx),
       mh_sent := mh_sent h @ take (unat (burst_sent rx driver)) (sending rx)\<rparr>,
     burst_stats rx driver stats)"
proof (cases "rx = []")
  case True
  then show ?thesis
    by (simp add: handle_burst_def Let_def rx_take_def burst_stats_by_def burst_sent_by_def sending_by_def)
next
  case False
  let ?h = "rx_take rx h" and ?n = "length (kept rx)"
  let ?stats = "stats\<lparr>ps_rx_bursts := ps_rx_bursts stats + 1, ps_rx := ps_rx stats + word_of_nat (length rx)\<rparr>"
  let ?stats' = "fold (\<lambda>(p, m). tally m) rx ?stats"
  have live: "mh_live ?h p = Some m \<and> mbuf_wf m" if "(p, m) \<in> set rx" for p m
    using rx that by (simp add: rx_take_def map_add_def map_of_is_SomeI)
  obtain pkts where pb: "process_burst f (map fst rx) 0 (length rx) 0 ?h ?stats =
      Some (pkts, ?n, after_burst rx ?h, ?stats')"
    and pk: "take ?n pkts = kept rx" and pl: "length pkts = length rx"
    using process_burst_runs [where xs = rx and i = 0 and tx = 0 and pkts = "map fst rx" and h = ?h and
        stats = ?stats] live rx(1) by auto
  have n: "?n \<le> length rx" by simp
  have un: "unat (word_of_nat ?n :: u16) = ?n"
    using le_less_trans [OF n len] by (simp add: unat_of_nat)
  have dk: "distinct (kept rx)" by (rule distinct_map_filter [OF rx(1)])
  have kl: "mh_live (after_burst rx ?h) p \<noteq> None" if "p \<in> set (kept rx)" for p
    using that after_burst_live [OF rx(1)] by fastforce
  have gone: "mh_live (after_burst rx ?h) p = mh_live h p" if new: "p \<notin> set (kept rx)" for p
  proof (cases "map_of rx p")
    case None
    then have "p \<notin> fst ` set rx" by (simp add: map_of_eq_None_iff)
    then show ?thesis using None by (auto simp: after_burst_by_def rx_take_def map_add_def)
  next
    case (Some m)
    then have pm: "(p, m) \<in> set rx" by (rule map_of_SomeD)
    then have "mh_live h p = None" using rx(2) by blast
    moreover have "p \<in> set (kept rx)" if "verdict m \<noteq> None" using pm that by force
    ultimately show ?thesis using Some new by (cases "verdict m") (simp_all add: after_burst_by_def)
  qed
  show ?thesis
  proof (cases "kept rx = []")
    case True
    have "after_burst rx ?h = h\<lparr>mh_freed := mh_freed h @ dropped rx\<rparr>"
    proof (rule mbuf_heap.equality)
      show "mh_live (after_burst rx ?h) = mh_live (h\<lparr>mh_freed := mh_freed h @ dropped rx\<rparr>)"
      proof (rule ext)
        fix p
        have "p \<notin> set (kept rx)" unfolding True by simp
        from gone [OF this] show "mh_live (after_burst rx ?h) p =
            mh_live (h\<lparr>mh_freed := mh_freed h @ dropped rx\<rparr>) p" by simp
      qed
    qed (simp_all add: after_burst_by_def rx_take_def)
    moreover have "sending rx = []" using True by (simp add: sending_by_def)
    ultimately show ?thesis
      using False pb True by (simp add: handle_burst_def Let_def burst_stats_by_def burst_sent_by_def)
  next
    case nonempty: False
    define sent where "sent = driver (word_of_nat ?n)"
    have sn: "sent \<le> word_of_nat ?n" unfolding sent_def by (rule driver)
    then have sn': "unat sent \<le> ?n" using un by (simp add: word_le_nat_alt)
    define h2 where "h2 = (after_burst rx ?h)\<lparr>
      mh_live := (\<lambda>p. if p \<in> set (take (unat sent) (kept rx)) then None else mh_live (after_burst rx ?h) p),
      mh_sent := mh_sent h @ take (unat sent) (sending rx)\<rparr>"
    have "map (\<lambda>p. (p, the (mh_live (after_burst rx ?h) p))) (take (unat sent) (kept rx)) =
        take (unat sent) (sending rx)"
      using arg_cong [OF kept_live [OF rx(1), of ?h], of "take (unat sent)"] by (simp only: take_map)
    moreover have "mh_sent (after_burst rx ?h) = mh_sent h" by (simp add: after_burst_by_def rx_take_def)
    moreover have "take (unat sent) (take ?n pkts) = take (unat sent) (kept rx)" by (simp only: pk)
    moreover have "distinct (take (unat sent) (kept rx))" using dk by (rule distinct_take)
    moreover have "mh_live (after_burst rx ?h) p \<noteq> None" if "p \<in> set (take (unat sent) (kept rx))" for p
      using that by (rule kl [OF in_set_takeD])
    ultimately have give: "tx_give (take (unat sent) (take ?n pkts)) (after_burst rx ?h) = Some h2"
      unfolding h2_def using tx_give_gives [of "take (unat sent) (kept rx)" "after_burst rx ?h"] by presburger
    have rest: "mh_live h2 p \<noteq> None" if "p \<in> set (drop (unat sent) (kept rx))" for p
    proof -
      have "set (take (unat sent) (kept rx)) \<inter> set (drop (unat sent) (kept rx)) = {}"
        using dk by (simp add: set_take_disj_set_drop_if_distinct)
      then show ?thesis using that kl [of p] in_set_dropD [OF that] by (auto simp: h2_def)
    qed
    have complete: "dp_complete_tx pkts (word_of_nat ?n) sent h2 s =
        Some (freed_all (drop (unat sent) (kept rx)) h2, tx_counted (word_of_nat ?n) sent s)" for s
    proof -
      have eq: "drop (unat sent) (take (unat (word_of_nat ?n :: u16)) pkts) = drop (unat sent) (kept rx)"
        by (simp only: un pk)
      have "unat (word_of_nat ?n :: u16) \<le> length pkts" unfolding un pl by (rule n)
      from dp_complete_tx_frees [OF sn this, unfolded eq, OF distinct_drop [OF dk] rest]
      show ?thesis .
    qed
    have "freed_all (drop (unat sent) (kept rx)) h2 =
        h\<lparr>mh_freed := mh_freed h @ dropped rx @ drop (unat sent) (kept rx),
          mh_sent := mh_sent h @ take (unat sent) (sending rx)\<rparr>"
    proof (rule mbuf_heap.equality)
      have "set (kept rx) = set (take (unat sent) (kept rx)) \<union> set (drop (unat sent) (kept rx))"
        by (metis append_take_drop_id set_append)
      moreover have "mh_live h p = None" if "p \<in> set (kept rx)" for p
        using that rx(2) by auto
      moreover have "mh_live (freed_all (drop (unat sent) (kept rx)) h2) p =
          (if p \<in> set (drop (unat sent) (kept rx)) \<or> p \<in> set (take (unat sent) (kept rx)) then None
           else mh_live (after_burst rx ?h) p)" for p by (simp add: freed_all_def h2_def)
      ultimately have "mh_live (freed_all (drop (unat sent) (kept rx)) h2) p = mh_live h p" for p
        using gone [of p] by (metis Un_iff)
      then show "mh_live (freed_all (drop (unat sent) (kept rx)) h2) =
          mh_live (h\<lparr>mh_freed := mh_freed h @ dropped rx @ drop (unat sent) (kept rx),
            mh_sent := mh_sent h @ take (unat sent) (sending rx)\<rparr>)" by (simp add: fun_eq_iff)
    qed (simp_all add: freed_all_def h2_def after_burst_by_def rx_take_def)
    then show ?thesis
      using False nonempty pb give complete
      by (simp add: handle_burst_def Let_def burst_stats_by_def burst_sent_by_def sent_def)
  qed
qed

end

end
