(* ===== verification/Dp_Path.thy ===== *)
theory Dp_Path
  imports Dp_Burst
begin

text \<open>
  The packet path: \<open>dp_process_packet\<close> is a packet stage with a verdict and a count that the rules
  determine, the counters keep their sums over whole bursts, and the polling loop with its entry
  and exit.
\<close>

section \<open>Sums of counters\<close>

text \<open>The equations between counters that the code's own tests check.\<close>

definition parsed :: "'a dp_packet_stats_scheme \<Rightarrow> u64" where
  "parsed s = ps_parse_ok s + ps_parse_unsupported s + ps_parse_malformed s"

definition passed :: "'a dp_packet_stats_scheme \<Rightarrow> u64" where
  "passed s = ps_action_forward s + ps_action_rewrite s"

definition balanced :: "'a dp_packet_stats_scheme \<Rightarrow> bool" where
  "balanced s \<longleftrightarrow>
     ps_rx s = ps_parse_ok s + ps_parse_unsupported s + ps_parse_malformed s \<and>
     ps_parse_ok s = ps_flow_hit s + ps_route_hit s + ps_lookup_miss s \<and>
     ps_parse_ok s = ps_action_drop s + ps_action_forward s + ps_action_rewrite s \<and>
     ps_action_forward s + ps_action_rewrite s = ps_tx_accepted s + ps_tx_unsent s \<and>
     ps_drop s = ps_parse_unsupported s + ps_parse_malformed s + ps_action_drop s + ps_tx_unsent s"

definition lookup_gap :: "'a dp_packet_stats_scheme \<Rightarrow> u64" where
  "lookup_gap s = ps_parse_ok s - (ps_flow_hit s + ps_route_hit s + ps_lookup_miss s)"

definition action_gap :: "'a dp_packet_stats_scheme \<Rightarrow> u64" where
  "action_gap s = ps_parse_ok s - (ps_action_drop s + ps_action_forward s + ps_action_rewrite s)"

definition drop_gap :: "'a dp_packet_stats_scheme \<Rightarrow> u64" where
  "drop_gap s = ps_drop s - (ps_parse_unsupported s + ps_parse_malformed s + ps_action_drop s)"

lemmas gap_defs = parsed_def passed_def lookup_gap_def action_gap_def drop_gap_def

lemma gaps_rx [simp]:
  "parsed (s\<lparr>ps_rx_bursts := x, ps_rx := y\<rparr>) = parsed s" "passed (s\<lparr>ps_rx_bursts := x, ps_rx := y\<rparr>) = passed s"
  "lookup_gap (s\<lparr>ps_rx_bursts := x, ps_rx := y\<rparr>) = lookup_gap s"
  "action_gap (s\<lparr>ps_rx_bursts := x, ps_rx := y\<rparr>) = action_gap s"
  "drop_gap (s\<lparr>ps_rx_bursts := x, ps_rx := y\<rparr>) = drop_gap s"
  by (simp_all add: gap_defs)

lemma gaps_tx [simp]:
  "parsed (tx_counted n k s) = parsed s" "passed (tx_counted n k s) = passed s"
  "lookup_gap (tx_counted n k s) = lookup_gap s" "action_gap (tx_counted n k s) = action_gap s"
  "drop_gap (tx_counted n k s) = drop_gap s + word_of_nat (unat n - unat k)"
  by (simp_all add: gap_defs tx_counted_def)

lemma balanced_gaps:
  "balanced s \<longleftrightarrow> ps_rx s = parsed s \<and> passed s = ps_tx_accepted s + ps_tx_unsent s \<and>
     lookup_gap s = 0 \<and> action_gap s = 0 \<and> drop_gap s = ps_tx_unsent s"
  by (simp add: balanced_def gap_defs diff_eq_eq add_ac, blast)

lemma balanced_bursts [simp]:
  "balanced (s\<lparr>ps_rx_bursts := x\<rparr>) = balanced s" "balanced (s\<lparr>ps_rx_empty_polls := x\<rparr>) = balanced s"
  "balanced (s\<lparr>ps_tx_bursts := x\<rparr>) = balanced s"
  by (simp_all add: balanced_def)

text \<open>What processing one packet leaves alone: the counters of the other stages, and three differences.\<close>

definition books :: "'a dp_packet_stats_scheme \<Rightarrow> u64 list" where
  "books s = [ps_rx s, ps_tx_accepted s, ps_tx_unsent s, ps_rx_bursts s, ps_rx_empty_polls s, ps_tx_bursts s,
     lookup_gap s, action_gap s, drop_gap s]"

locale counting_stage = packet_stage +
  assumes tally_books: "books (tally m s) = books s"
    and tally_parsed: "parsed (tally m s) = parsed s + 1"
    and tally_passed: "passed (tally m s) = passed s + (if verdict m = None then 0 else 1)"
begin

lemma fold_tally:
  "books (fold (\<lambda>(p, m). tally m) rx s) = books s"
  "parsed (fold (\<lambda>(p, m). tally m) rx s) = parsed s + word_of_nat (length rx)"
  "passed (fold (\<lambda>(p, m). tally m) rx s) = passed s + word_of_nat (length (kept rx))"
  by (induction rx arbitrary: s) (auto simp: tally_books tally_parsed tally_passed)

lemma burst_stats_balanced:
  assumes "balanced s" and driver: "\<And>n. driver n \<le> n" and len: "length rx < 65536"
  shows "balanced (burst_stats rx driver s)"
proof (cases "rx = []")
  case True
  then show ?thesis
    using assms(1) by (simp add: burst_stats_by_def)
next
  case False
  let ?s = "s\<lparr>ps_rx_bursts := ps_rx_bursts s + 1, ps_rx := ps_rx s + word_of_nat (length rx)\<rparr>"
  define t where "t = fold (\<lambda>(p, m). tally m) rx ?s"
  have "books t = books ?s" "parsed t = parsed ?s + word_of_nat (length rx)"
    "passed t = passed ?s + word_of_nat (length (kept rx))"
    unfolding t_def by (rule fold_tally)+
  then have t: "ps_rx t = parsed t" "passed t = ps_tx_accepted t + ps_tx_unsent t + word_of_nat (length (kept rx))"
    "lookup_gap t = 0" "action_gap t = 0" "drop_gap t = ps_tx_unsent t"
    using assms(1) by (simp_all add: books_def balanced_gaps)
  show ?thesis
  proof (cases "kept rx = []")
    case True
    then have "burst_stats rx driver s = t"
      using False by (simp add: burst_stats_by_def Let_def t_def)
    moreover have "length (kept rx) = 0" unfolding True by simp
    ultimately show ?thesis using t by (simp only: balanced_gaps) simp
  next
    case nonempty: False
    define n :: u16 where "n = word_of_nat (length (kept rx))"
    have n: "unat n = length (kept rx)"
      using le_less_trans [OF length_filter_le len, of "\<lambda>(p, m). verdict m \<noteq> None"]
      by (simp only: n_def length_map) (simp add: unat_of_nat)
    have "burst_stats rx driver s = (tx_counted n (driver n) t)\<lparr>ps_tx_bursts := ps_tx_bursts t + 1\<rparr>"
      using False nonempty by (simp add: burst_stats_by_def burst_sent_by_def Let_def t_def n_def tx_counted_def)
    moreover have "balanced (tx_counted n k t)" if "k \<le> n" for k
    proof -
      have "unat k \<le> unat n" using that by (simp add: word_le_nat_alt)
      then have sum: "word_of_nat (unat k) + word_of_nat (unat n - unat k) = (word_of_nat (unat n) :: u64)"
        by (simp only: of_nat_add [symmetric] le_add_diff_inverse)
      have tx: "ps_rx (tx_counted n k t) = ps_rx t"
        "ps_tx_accepted (tx_counted n k t) = ps_tx_accepted t + word_of_nat (unat k)"
        "ps_tx_unsent (tx_counted n k t) = ps_tx_unsent t + word_of_nat (unat n - unat k)"
        by (simp_all add: tx_counted_def)
      show ?thesis
        unfolding balanced_gaps gaps_tx tx using t
        unfolding n [symmetric] sum [symmetric] by (simp only: add_ac simp_thms)
    qed
    ultimately show ?thesis using driver by simp
  qed
qed

end

section \<open>One packet\<close>

text \<open>
  What the rules decide about a packet: the packet that leaves, or nothing, and the counters. A
  worker that finds no active snapshot treats every packet as a miss.
\<close>

definition represents ::
  "('h, 'l) table_view \<Rightarrow> dp_flow_rule list \<Rightarrow> dp_route_rule list \<Rightarrow> ('h, 'l) dp_rule_snapshot option \<Rightarrow> bool" where
  "represents tv flows routes snapshot =
     (case snapshot of None \<Rightarrow> flows = [] \<and> routes = [] | Some s \<Rightarrow> snapshot_repr tv flows routes s)"

definition packet_verdict ::
  "rte_cksum_ops \<Rightarrow> dp_flow_rule list \<Rightarrow> dp_route_rule list \<Rightarrow> rte_mbuf \<Rightarrow> rte_mbuf option" where
  "packet_verdict ck flows routes m =
     (if parse_class m \<noteq> DP_PARSE_OK then None
      else case snd (policy flows routes (frame_meta (mbuf_data m))) of
        None \<Rightarrow> None
      | Some a \<Rightarrow>
          if ra_type a = DP_ACTION_FORWARD then Some m
          else if ra_type a = DP_ACTION_REWRITE \<and> fst (apply_spec ck a m) = 0 then Some (snd (apply_spec ck a m))
          else None)"

definition tally_drop :: "dp_packet_stats \<Rightarrow> dp_packet_stats" where
  "tally_drop s = s\<lparr>ps_action_drop := ps_action_drop s + 1, ps_drop := ps_drop s + 1\<rparr>"

definition tally_lookup :: "dp_lookup_result \<Rightarrow> dp_packet_stats \<Rightarrow> dp_packet_stats" where
  "tally_lookup r s = (case r of
     DP_LOOKUP_FLOW_HIT \<Rightarrow> s\<lparr>ps_flow_hit := ps_flow_hit s + 1\<rparr>
   | DP_LOOKUP_ROUTE_HIT \<Rightarrow> s\<lparr>ps_route_hit := ps_route_hit s + 1\<rparr>
   | DP_LOOKUP_MISS \<Rightarrow> s\<lparr>ps_lookup_miss := ps_lookup_miss s + 1\<rparr>)"

definition tally_action :: "dp_rule_action option \<Rightarrow> dp_packet_stats \<Rightarrow> dp_packet_stats" where
  "tally_action a s = (case a of None \<Rightarrow> tally_drop s
   | Some a \<Rightarrow>
       if ra_type a = DP_ACTION_FORWARD then s\<lparr>ps_action_forward := ps_action_forward s + 1\<rparr>
       else if ra_type a = DP_ACTION_REWRITE \<and> ra_rewrite_mask a \<noteq> 0
       then s\<lparr>ps_action_rewrite := ps_action_rewrite s + 1\<rparr>
       else tally_drop s)"

definition packet_tally ::
  "dp_flow_rule list \<Rightarrow> dp_route_rule list \<Rightarrow> rte_mbuf \<Rightarrow> dp_packet_stats \<Rightarrow> dp_packet_stats" where
  "packet_tally flows routes m s = (case parse_class m of
     DP_PARSE_UNSUPPORTED \<Rightarrow>
       s\<lparr>ps_parse_unsupported := ps_parse_unsupported s + 1, ps_drop := ps_drop s + 1\<rparr>
   | DP_PARSE_MALFORMED \<Rightarrow>
       s\<lparr>ps_parse_malformed := ps_parse_malformed s + 1, ps_drop := ps_drop s + 1\<rparr>
   | DP_PARSE_OK \<Rightarrow>
       let (r, a) = policy flows routes (frame_meta (mbuf_data m)) in
       tally_action a (tally_lookup r (s\<lparr>ps_parse_ok := ps_parse_ok s + 1\<rparr>)))"

lemma policy_cases:
  obtains "policy flows routes meta = (DP_LOOKUP_MISS, None)"
  | r a where "policy flows routes meta = (r, Some a)" "r \<noteq> DP_LOOKUP_MISS"
  by (cases "policy flows routes meta") (auto simp: policy_def split: option.splits)

lemma apply_spec_code: "ra_type a = DP_ACTION_REWRITE \<Longrightarrow> fst (apply_spec ck a m) = 0 \<longleftrightarrow> ra_rewrite_mask a \<noteq> 0"
  by (simp add: apply_spec_def action_consts errno_simps)

lemma action_types: "DP_ACTION_DROP \<noteq> DP_ACTION_FORWARD" "DP_ACTION_DROP \<noteq> DP_ACTION_REWRITE"
  "DP_ACTION_FORWARD \<noteq> DP_ACTION_REWRITE"
  by (simp_all add: action_consts)

lemma tally_simps:
  "books (tally_action a (tally_lookup r (s\<lparr>ps_parse_ok := ps_parse_ok s + 1\<rparr>))) = books s"
  "parsed (tally_action a (tally_lookup r (s\<lparr>ps_parse_ok := ps_parse_ok s + 1\<rparr>))) = parsed s + 1"
  by (simp_all add: tally_action_def tally_lookup_def tally_drop_def books_def gap_defs
      split: option.splits dp_lookup_result.splits)

lemma packet_tally_counts:
  "books (packet_tally flows routes m s) = books s"
  "parsed (packet_tally flows routes m s) = parsed s + 1"
  "passed (packet_tally flows routes m s) = passed s + (if packet_verdict ck flows routes m = None then 0 else 1)"
proof -
  show "books (packet_tally flows routes m s) = books s" "parsed (packet_tally flows routes m s) = parsed s + 1"
    by (simp_all add: packet_tally_def tally_simps split_beta split: dp_parse_result.splits)
      (simp_all add: books_def gap_defs)
  show "passed (packet_tally flows routes m s) = passed s + (if packet_verdict ck flows routes m = None then 0 else 1)"
    by (cases rule: policy_cases [of flows routes "frame_meta (mbuf_data m)"])
      (auto simp: packet_tally_def packet_verdict_def tally_action_def tally_lookup_def tally_drop_def passed_def
        apply_spec_code split: dp_parse_result.splits dp_lookup_result.splits)
qed

text \<open>The lookup of a worker, with the action its result points to.\<close>

definition seen_action :: "('h, 'l) dp_rule_snapshot option \<Rightarrow> nat option \<Rightarrow> dp_rule_action option" where
  "seen_action snapshot p = do { s \<leftarrow> snapshot; pointed_action s p }"

context rte_table_laws
begin

lemma lookup_seen:
  assumes "represents tv flows routes snapshot"
    and "dp_lookup_packet ops meta snapshot = (r, p)"
  shows "policy flows routes meta = (r, seen_action snapshot p)"
proof (cases snapshot)
  case None
  then show ?thesis
    using assms by (auto simp: represents_def dp_lookup_packet_def policy_def seen_action_def)
next
  case (Some s)
  then have "snapshot_repr tv flows routes s" using assms(1) by (simp add: represents_def)
  from lookup_is_policy [OF this, of meta] assms(2) Some show ?thesis
    by (simp add: seen_action_def)
qed

lemma process_packet_stage:
  assumes repr: "represents tv flows routes snapshot" and live: "mh_live h p = Some m" and wf: "mbuf_wf m"
  shows "dp_process_packet ck ops p snapshot h stats = Some
    (fst (stage_result p h (packet_verdict ck flows routes m)), packet_tally flows routes m stats,
     snd (stage_result p h (packet_verdict ck flows routes m)))"
proof -
  obtain mt where mt: "dp_parse_packet (Some m) (Some zero_meta) = Some (parse_class m, Some mt)"
    and ok: "parse_class m = DP_PARSE_OK \<Longrightarrow> mt = frame_meta (mbuf_data m)"
    using dp_parse_packet_class [OF wf, of zero_meta] by auto
  have free: "rte_pktmbuf_free p h =
      Some (h\<lparr>mh_live := (mh_live h)(p := None), mh_freed := mh_freed h @ [p]\<rparr>)"
    using live by (simp add: rte_pktmbuf_free_def)
  show ?thesis
  proof (cases "parse_class m")
    case DP_PARSE_OK
    have mt': "mt = frame_meta (mbuf_data m)" by (rule ok [OF DP_PARSE_OK])
    obtain r i where l: "dp_lookup_packet ops mt snapshot = (r, i)" by fastforce
    note pol = lookup_seen [OF repr l]
    have ap: "dp_apply_action ck (Some m) (Some mt) (Some a) = Some (apsnd Some (apply_spec ck a m))" for a
      by (rule apply_action_parsed [OF wf]) (use mt DP_PARSE_OK in simp)
    show ?thesis
    proof (cases rule: policy_cases [of flows routes mt])
      case 1
      then show ?thesis
        using mt live free l pol DP_PARSE_OK mt'
        by (simp add: dp_process_packet_def packet_verdict_def packet_tally_def stage_result_def
            tally_lookup_def tally_action_def tally_drop_def)
    next
      case (2 r' a)
      then have r: "r = r'" "seen_action snapshot i = Some a" "r \<noteq> DP_LOOKUP_MISS" using pol by auto
      then obtain s where s: "snapshot = Some s" "pointed_action s i = Some a"
        by (auto simp: seen_action_def split: Option.bind_splits)
      have l': "dp_lookup_packet ops mt (Some s) = (r, i)" using l s(1) by simp
      note eqs = dp_process_packet_def packet_verdict_def packet_tally_def stage_result_def
        tally_lookup_def tally_action_def tally_drop_def apply_spec_def
      have same: "(mh_live h)(p := Some m) = mh_live h" using live by auto
      have gone: "rte_pktmbuf_free p (h\<lparr>mh_live := mh_live h\<rparr>) =
          Some (h\<lparr>mh_live := (mh_live h)(p := None), mh_freed := mh_freed h @ [p]\<rparr>)" using free by simp
      consider "ra_type a = DP_ACTION_DROP" | "ra_type a = DP_ACTION_FORWARD"
        | "ra_type a = DP_ACTION_REWRITE" "ra_rewrite_mask a \<noteq> 0"
        | "ra_type a = DP_ACTION_REWRITE" "ra_rewrite_mask a = 0"
        | "ra_type a \<noteq> DP_ACTION_DROP" "ra_type a \<noteq> DP_ACTION_FORWARD" "ra_type a \<noteq> DP_ACTION_REWRITE" by auto
      then show ?thesis
        using r(3) 2(1)
        by cases (cases r; simp add: eqs mt live free gone same l' s r(1) DP_PARSE_OK mt' [symmetric]
            ap action_types action_types [symmetric] EINVAL_def)+
    qed
  qed (use mt live free in \<open>simp_all add: dp_process_packet_def packet_verdict_def packet_tally_def stage_result_def\<close>)
qed

lemma process_packet_counting:
  assumes "represents tv flows routes snapshot"
  shows "counting_stage (\<lambda>p. dp_process_packet ck ops p snapshot) (packet_verdict ck flows routes)
    (packet_tally flows routes)"
  by unfold_locales (rule process_packet_stage [OF assms] packet_tally_counts; assumption?)+

end

text \<open>A router with given rules, and the contracts its packet path meets.\<close>

locale packet_path = rte_table_laws ops tv
  for ops :: "('h, 'l) rte_table_ops" and tv :: "('h, 'l) table_view" +
  fixes ck :: rte_cksum_ops
    and flows :: "dp_flow_rule list" and routes :: "dp_route_rule list"
    and snapshot :: "('h, 'l) dp_rule_snapshot option"
  assumes rules_loaded: "represents tv flows routes snapshot"

sublocale packet_path \<subseteq> counting_stage "\<lambda>p. dp_process_packet ck ops p snapshot"
  "packet_verdict ck flows routes" "packet_tally flows routes"
  by (rule process_packet_counting [OF rules_loaded])

end
