(* ===== verification/Dp_Poll.thy ===== *)
theory Dp_Poll
  imports Dp_Path
begin

text \<open>
  The polling loop of a worker, its entry and its exits. \<open>worker_env\<close> puts the contracts of the
  tables and of QSBR together; the loop keeps the ownership of packets and the sums of the
  counters for any behaviour of the other threads that keeps the worker's view.
\<close>

section \<open>Ownership over a burst\<close>

text \<open>A heap after packets were freed and sent.\<close>

definition handed_on :: "nat list \<Rightarrow> (nat \<times> rte_mbuf) list \<Rightarrow> mbuf_heap \<Rightarrow> mbuf_heap" where
  "handed_on freed sent h = h\<lparr>mh_freed := mh_freed h @ freed, mh_sent := mh_sent h @ sent\<rparr>"

lemma handed_on_simps [simp]:
  "mh_live (handed_on freed sent h) = mh_live h"
  "handed_on freed' sent' (handed_on freed sent h) = handed_on (freed @ freed') (sent @ sent') h"
  "handed_on [] [] h = h"
  by (simp_all add: handed_on_def)

text \<open>The counters of a worker are in step with the packets it received, sent and freed.\<close>

definition counted :: "dp_packet_stats \<Rightarrow> nat \<Rightarrow> nat \<Rightarrow> dp_packet_stats \<Rightarrow> bool" where
  "counted s rx tx s' \<longleftrightarrow> balanced s' \<and> ps_rx s' = ps_rx s + word_of_nat rx \<and>
     ps_tx_accepted s' = ps_tx_accepted s + word_of_nat tx"

lemma counted_drop:
  assumes "balanced s" "counted s rx tx s'" "rx = tx + dropped"
  shows "ps_drop s' = ps_drop s + word_of_nat dropped"
proof -
  have b: "ps_rx x = ps_drop x + ps_tx_accepted x" if "balanced x" for x :: dp_packet_stats
    using that unfolding balanced_def by (metis (no_types) add.assoc add.commute add.left_commute)
  show ?thesis using b [OF assms(1)] b [of s'] assms(2,3) by (simp add: counted_def algebra_simps)
qed

context packet_stage
begin

lemma kept_dropped: "mset (kept rx) + mset (dropped rx) = mset (map fst rx)"
  by (induction rx) auto

lemma burst_ownership:
  "mset (dropped rx @ drop k (kept rx)) + mset (map fst (take k (sending rx))) = mset (map fst rx)"
proof -
  have "mset (drop k (kept rx)) + mset (map fst (take k (sending rx))) = mset (kept rx)"
    using arg_cong [OF append_take_drop_id [of k "kept rx"], of mset]
    by (simp only: take_map [symmetric] fst_sending mset_append add.commute)
  then have "mset (dropped rx) + (mset (drop k (kept rx)) + mset (map fst (take k (sending rx)))) =
      mset (dropped rx) + mset (kept rx)" by (rule arg_cong)
  then show ?thesis unfolding mset_append add.assoc kept_dropped [of rx, symmetric]
    by (simp only: add.commute)
qed

end

context counting_stage
begin

lemma burst_stats_rx_tx:
  assumes driver: "\<And>n. driver n \<le> n" and len: "length rx < 65536"
  shows "ps_rx (burst_stats rx driver s) = ps_rx s + word_of_nat (length rx)"
    "ps_tx_accepted (burst_stats rx driver s) =
       ps_tx_accepted s + word_of_nat (length (take (unat (burst_sent rx driver)) (sending rx)))"
proof -
  let ?s = "s\<lparr>ps_rx_bursts := ps_rx_bursts s + 1, ps_rx := ps_rx s + word_of_nat (length rx)\<rparr>"
  have b: "books (fold (\<lambda>(p, m). tally m) rx ?s) = books ?s" by (rule fold_tally)
  have "length (kept rx) < 65536" using le_less_trans [OF length_filter_le len] by simp
  then have "unat (burst_sent rx driver) \<le> length (kept rx)"
    using driver [of "word_of_nat (length (kept rx))"]
    by (auto simp: burst_sent_by_def word_le_nat_alt unat_of_nat)
  moreover have "length (sending rx) = length (kept rx)" by (simp add: sending_by_def)
  ultimately have l: "length (take (unat (burst_sent rx driver)) (sending rx)) = unat (burst_sent rx driver)"
    by simp
  show "ps_rx (burst_stats rx driver s) = ps_rx s + word_of_nat (length rx)"
    "ps_tx_accepted (burst_stats rx driver s) =
       ps_tx_accepted s + word_of_nat (length (take (unat (burst_sent rx driver)) (sending rx)))"
    unfolding l using b
    by (auto simp: burst_stats_by_def Let_def books_def tx_counted_def burst_sent_by_def)
qed

end

context counting_stage
begin

lemma burst_counted:
  assumes "distinct (map fst rx)" "\<And>p m. (p, m) \<in> set rx \<Longrightarrow> mbuf_wf m \<and> mh_live h p = None"
    "length rx < 65536" "\<And>n. driver n \<le> n" "balanced stats"
  shows "\<exists>freed sent stats'. handle_burst f rx driver h stats = Some (handed_on freed sent h, stats') \<and>
    mset freed + mset (map fst sent) = mset (map fst rx) \<and> counted stats (length rx) (length sent) stats'"
proof (intro exI conjI)
  let ?k = "unat (burst_sent rx driver)"
  show "handle_burst f rx driver h stats = Some
      (handed_on (dropped rx @ drop ?k (kept rx)) (take ?k (sending rx)) h, burst_stats rx driver stats)"
    unfolding handed_on_def by (rule handle_burst_runs [OF assms(1-4)])
  show "mset (dropped rx @ drop ?k (kept rx)) + mset (map fst (take ?k (sending rx))) = mset (map fst rx)"
    by (rule burst_ownership)
  show "counted stats (length rx) (length (take ?k (sending rx))) (burst_stats rx driver stats)"
    unfolding counted_def
    by (intro conjI burst_stats_balanced burst_stats_rx_tx assms)
qed

end

section \<open>The polling loop\<close>

text \<open>
  What a registered worker relies on: its reader is online in the QSBR variable and the active
  snapshot represents rules. A pass is well behaved when the other threads keep that, the driver
  delivers distinct, well-formed packets, at most a burst of them, and takes no more than it is
  offered.
\<close>

definition worker_sees ::
  "('h, 'l) table_view \<Rightarrow> 'q qsbr_view \<Rightarrow> nat \<Rightarrow> ('h, 'l, 'q) dp_state \<Rightarrow> bool" where
  "worker_sees tv qv r st \<longleftrightarrow>
     (\<exists>q. g_rules_qsbr st = Some q \<and> qs_inv qv q \<and> r \<in> qs_online qv q) \<and>
     (\<exists>flows routes. represents tv flows routes (g_active_rules st))"

definition poll_ok ::
  "('h, 'l) table_view \<Rightarrow> 'q qsbr_view \<Rightarrow> nat \<Rightarrow> ('h, 'l, 'q) poll \<Rightarrow> bool" where
  "poll_ok tv qv r po \<longleftrightarrow>
     (\<forall>st. worker_sees tv qv r st \<longrightarrow> worker_sees tv qv r (po_others po st)) \<and>
     (\<forall>st. worker_sees tv qv r st \<longrightarrow> worker_sees tv qv r (po_during po st)) \<and>
     distinct (map fst (po_rx po)) \<and> (\<forall>x \<in> set (po_rx po). mbuf_wf (snd x)) \<and>
     length (po_rx po) \<le> DP_BURST_SIZE \<and> (\<forall>n. po_driver po n \<le> n)"

lemma poll_okD:
  assumes "poll_ok tv qv r po"
  shows "\<And>st. worker_sees tv qv r st \<Longrightarrow> worker_sees tv qv r (po_others po st)"
    "\<And>st. worker_sees tv qv r st \<Longrightarrow> worker_sees tv qv r (po_during po st)"
    "distinct (map fst (po_rx po))" "\<And>p m. (p, m) \<in> set (po_rx po) \<Longrightarrow> mbuf_wf m"
    "length (po_rx po) < 65536" "\<And>n. po_driver po n \<le> n"
  using assms by (auto simp: poll_ok_def DP_BURST_SIZE_def)

text \<open>The packets received up to a pass.\<close>

definition received :: "('h, 'l, 'q) poll list \<Rightarrow> nat list" where
  "received polls = concat (map (\<lambda>po. map fst (po_rx po)) polls)"

locale worker_env = rte_table_laws ops tv + qsbr_laws qs qv
  for ops :: "('h, 'l) rte_table_ops" and tv :: "('h, 'l) table_view"
    and qs :: "'q qsbr_ops" and qv :: "'q qsbr_view"
begin

lemma burst_step:
  assumes sees: "worker_sees tv qv r st" and ok: "poll_ok tv qv r po" and bal: "balanced stats"
    and fresh: "\<And>p. p \<in> fst ` set (po_rx po) \<Longrightarrow> mh_live h p = None"
  shows "\<exists>freed sent stats'. handle_burst (\<lambda>p. dp_process_packet ck ops p (g_active_rules st)) (po_rx po)
      (po_driver po) h stats = Some (handed_on freed sent h, stats') \<and>
    mset freed + mset (map fst sent) = mset (map fst (po_rx po)) \<and>
    counted stats (length (po_rx po)) (length sent) stats'"
proof -
  obtain flows routes where repr: "represents tv flows routes (g_active_rules st)"
    using sees by (auto simp: worker_sees_def)
  have "mbuf_wf m \<and> mh_live h p = None" if "(p, m) \<in> set (po_rx po)" for p m
    using poll_okD(4) [OF ok that] fresh [of p] that by force
  from counting_stage.burst_counted [OF process_packet_counting [OF repr] poll_okD(3) [OF ok] this
      poll_okD(5,6) [OF ok] bal]
  show ?thesis .
qed

lemma quiescent_sees:
  assumes "worker_sees tv qv r st"
  shows "\<exists>q. dp_rules_reader_quiescent qs r st = Some (st\<lparr>g_rules_qsbr := q\<rparr>) \<and>
    worker_sees tv qv r (st\<lparr>g_rules_qsbr := q\<rparr>)"
proof -
  obtain q where q: "g_rules_qsbr st = Some q" "qs_inv qv q" "r \<in> qs_online qv q"
    using assms by (auto simp: worker_sees_def)
  then show ?thesis
    using quiescent_law [OF q(2) refl q(3)] assms
    by (intro exI [of _ "Some (qsbr_quiescent qs q r)"]) (simp add: dp_rules_reader_quiescent_def worker_sees_def)
qed

lemma worker_loop_runs:
  assumes "worker_sees tv qv (unat (wi_worker_id (wc_info w))) st" "balanced (wc_stats w)"
    and "\<And>po. po \<in> set polls \<Longrightarrow> poll_ok tv qv (unat (wi_worker_id (wc_info w))) po"
    and "\<And>p. p \<in> set (received polls) \<Longrightarrow> mh_live h p = None"
  shows "\<exists>k st' stats' freed sent. k \<le> length polls \<and>
    worker_loop ck ops qs polls st w h =
      Some (k < length polls, st', w\<lparr>wc_stats := stats'\<rparr>, handed_on freed sent h) \<and>
    mset freed + mset (map fst sent) = mset (received (take k polls)) \<and>
    counted (wc_stats w) (length (received (take k polls))) (length sent) stats' \<and>
    worker_sees tv qv (unat (wi_worker_id (wc_info w))) st'"
  using assms
proof (induction polls arbitrary: st w h)
  case Nil
  then show ?case
    by (intro exI [of _ 0] exI [of _ st] exI [of _ "wc_stats w"] exI [of _ "[]"])
      (simp add: received_def counted_def)
next
  case (Cons po polls)
  let ?r = "unat (wi_worker_id (wc_info w))"
  let ?st = "po_others po st"
  have ok: "poll_ok tv qv ?r po" using Cons.prems(3) by simp
  have sees: "worker_sees tv qv ?r ?st" by (rule poll_okD(1) [OF ok Cons.prems(1)])
  show ?case
  proof (cases "g_stop ?st")
    case True
    then show ?thesis
      using sees Cons.prems(2)
      by (intro exI [of _ 0] exI [of _ ?st] exI [of _ "wc_stats w"] exI [of _ "[]"])
        (simp add: received_def counted_def)
  next
    case False
    obtain freed sent stats1 where b: "handle_burst (\<lambda>p. dp_process_packet ck ops p (g_active_rules ?st)) (po_rx po)
        (po_driver po) h (wc_stats w) = Some (handed_on freed sent h, stats1)"
      "mset freed + mset (map fst sent) = mset (map fst (po_rx po))"
      "counted (wc_stats w) (length (po_rx po)) (length sent) stats1"
      using burst_step [OF sees ok Cons.prems(2), of h ck] Cons.prems(4) by (auto simp: received_def)
    obtain q where q: "dp_rules_reader_quiescent qs ?r (po_during po ?st) = Some (po_during po ?st\<lparr>g_rules_qsbr := q\<rparr>)"
      "worker_sees tv qv ?r (po_during po ?st\<lparr>g_rules_qsbr := q\<rparr>)"
      using quiescent_sees [OF poll_okD(2) [OF ok sees]] by blast
    let ?w = "w\<lparr>wc_stats := stats1\<rparr>"
    have "worker_sees tv qv (unat (wi_worker_id (wc_info ?w))) (po_during po ?st\<lparr>g_rules_qsbr := q\<rparr>)"
      "balanced (wc_stats ?w)"
      using q(2) b(3) by (simp_all add: counted_def)
    from Cons.IH [OF this, of "handed_on freed sent h"]
    obtain k st' stats' freed' sent' where ih: "k \<le> length polls"
      "worker_loop ck ops qs polls (po_during po ?st\<lparr>g_rules_qsbr := q\<rparr>) ?w (handed_on freed sent h) =
        Some (k < length polls, st', ?w\<lparr>wc_stats := stats'\<rparr>, handed_on freed' sent' (handed_on freed sent h))"
      "mset freed' + mset (map fst sent') = mset (received (take k polls))"
      "counted stats1 (length (received (take k polls))) (length sent') stats'"
      "worker_sees tv qv ?r st'"
      using Cons.prems(3,4) by (auto simp: received_def)
    show ?thesis
    proof (intro exI conjI)
      show "Suc k \<le> length (po # polls)" using ih(1) by simp
      show "worker_loop ck ops qs (po # polls) st w h = Some (Suc k < length (po # polls), st',
          w\<lparr>wc_stats := stats'\<rparr>, handed_on (freed @ freed') (sent @ sent') h)"
        using False b(1) q(1) ih(2) by (simp add: dp_rules_active_load_def)
      show "mset (freed @ freed') + mset (map fst (sent @ sent')) = mset (received (take (Suc k) (po # polls)))"
        using b(2) ih(3) by (simp add: received_def) (metis add.assoc add.left_commute)
      show "counted (wc_stats w) (length (received (take (Suc k) (po # polls)))) (length (sent @ sent')) stats'"
        using b(3) ih(4) by (simp add: received_def counted_def)
      show "worker_sees tv qv ?r st'" by (rule ih(5))
    qed
  qed
qed

end

text \<open>What the loop leaves alone, and that it ends when it is told to.\<close>

lemma worker_loop_keeps:
  assumes "\<And>po st. po \<in> set polls \<Longrightarrow> J st \<Longrightarrow> J (po_others po st) \<and> J (po_during po st)"
    and "\<And>st st'. J st \<Longrightarrow> dp_rules_reader_quiescent qs (unat (wi_worker_id (wc_info w))) st = Some st' \<Longrightarrow> J st'"
    and "worker_loop ck ops qs polls st w h = Some (stopped, st', w', h')" and "J st"
  shows "J st'"
  using assms
proof (induction polls arbitrary: st w h)
  case (Cons po polls)
  have J: "J (po_others po st)" "J (po_during po (po_others po st))"
    using Cons.prems(1) Cons.prems(4) by simp_all
  show ?case
  proof (cases "g_stop (po_others po st)")
    case True
    then show ?thesis using J(1) Cons.prems(3) by simp
  next
    case False
    then obtain h1 stats1 st1 where quiet: "dp_rules_reader_quiescent qs (unat (wi_worker_id (wc_info w)))
        (po_during po (po_others po st)) = Some st1"
      and l: "worker_loop ck ops qs polls st1 (w\<lparr>wc_stats := stats1\<rparr>) h1 = Some (stopped, st', w', h')"
      using Cons.prems(3) by (auto simp: Let_def split: Option.bind_splits)
    have "J st1" by (rule Cons.prems(2) [OF J(2) quiet])
    moreover have "J st''" if "J st'" "dp_rules_reader_quiescent qs
        (unat (wi_worker_id (wc_info (w\<lparr>wc_stats := stats1\<rparr>)))) st' = Some st''" for st' st''
      by (rule Cons.prems(2) [OF that(1)]) (use that(2) in simp)
    ultimately show ?thesis
      by (intro Cons.IH [OF _ _ l]) (use Cons.prems(1) in simp_all)
  qed
qed simp

lemma worker_loop_stops:
  assumes "po \<in> set polls" "\<And>st. g_stop (po_others po st)"
    and "worker_loop ck ops qs polls st w h = Some (stopped, st', w', h')"
  shows "stopped"
  using assms
proof (induction polls arbitrary: st w h)
  case (Cons po' polls)
  then show ?case
    by (cases "g_stop (po_others po' st)") (auto simp: Let_def split: Option.bind_splits)
qed simp

section \<open>Entry and exit\<close>

text \<open>
  The two counts of the global state a worker takes part in. Passes in which the other threads
  keep them let the worker's own share be seen.
\<close>

definition head_count :: "('h, 'l, 'q) dp_state \<Rightarrow> u32 \<times> u32" where
  "head_count st = (g_active_workers st, g_registered_readers st)"

definition counts_kept :: "('h, 'l, 'q) poll \<Rightarrow> bool" where
  "counts_kept po \<longleftrightarrow> (\<forall>st. head_count (po_others po st) = head_count st \<and>
     head_count (po_during po st) = head_count st)"

definition reader_online :: "'q qsbr_view \<Rightarrow> nat \<Rightarrow> ('h, 'l, 'q) dp_state \<Rightarrow> bool" where
  "reader_online qv r st \<longleftrightarrow> (\<exists>q. g_rules_qsbr st = Some q \<and> r \<in> qs_online qv q)"

context worker_env
begin

lemma register_cases:
  assumes q: "g_rules_qsbr st = Some q" "qs_inv qv q"
  shows "(\<exists>ret q'. dp_rules_reader_register qs ops t r st = (ret, st\<lparr>g_rules_qsbr := Some q'\<rparr>) \<and> ret < 0 \<and>
      qs_inv qv q' \<and> qs_online qv q' = qs_online qv q) \<or>
    (\<exists>q'. dp_rules_reader_register qs ops t r st =
        (0, st\<lparr>g_rules_qsbr := Some q', g_registered_readers := g_registered_readers st + 1\<rparr>) \<and>
      qs_inv qv q' \<and> qs_online qv q' = insert r (qs_online qv q))"
proof (cases "r < qsbr_max_lcore qs")
  case False
  have "st\<lparr>g_rules_qsbr := Some q\<rparr> = st" using q(1) by simp
  then show ?thesis
    using False q by (intro disjI1 exI [of _ "- ENODEV"] exI [of _ q])
      (simp add: dp_rules_reader_register_def errno_simps)
next
  case True
  obtain ret q' where reg: "qsbr_thread_register qs q r = (ret, q')" by fastforce
  note laws = register_law [OF q(2) reg]
  show ?thesis
  proof (cases "ret = 0")
    case False
    have "errno_or (rte_errno ops t) EIO < 0"
      by (rule errno_or_neg [OF errno_law]) (simp add: errno_simps)
    then show ?thesis
      using True False reg laws q(1)
      by (intro disjI1 exI [of _ "errno_or (rte_errno ops t) EIO"] exI [of _ q'])
        (simp add: dp_rules_reader_register_def)
  next
    case ret: True
    then show ?thesis
      using True reg laws q(1) online_law [OF _ refl True, of q']
      by (intro disjI2 exI [of _ "qsbr_thread_online qs q' r"]) (simp add: dp_rules_reader_register_def)
  qed
qed

lemma unregister_cases:
  assumes q: "g_rules_qsbr st = Some q" "qs_inv qv q"
  shows "\<exists>q'. dp_rules_reader_unregister qs r st =
      Some (st\<lparr>g_rules_qsbr := Some q', g_registered_readers := g_registered_readers st - 1\<rparr>) \<and>
    qs_inv qv q' \<and> qs_online qv q' = qs_online qv q - {r} \<and> qs_waits qv q' = qs_waits qv q - {r}"
proof -
  let ?q = "qsbr_thread_offline qs q r"
  obtain e q' where u: "qsbr_thread_unregister qs ?q r = (e, q')" by fastforce
  have "qs_inv qv ?q" "qs_online qv ?q = qs_online qv q - {r}" "qs_waits qv ?q = qs_waits qv q - {r}"
    using offline_law [OF q(2) refl, of r] by simp_all
  then show ?thesis
    using unregister_law [OF _ u] u q(1)
    by (intro exI [of _ q']) (simp add: dp_rules_reader_unregister_def)
qed

lemma dp_worker_run_outcome:
  fixes w :: dp_worker_ctx
  defines "r \<equiv> unat (wi_worker_id (wc_info w))"
  assumes q: "g_rules_qsbr st = Some q" "qs_inv qv q" "r \<notin> qs_online qv q"
    and repr: "represents tv flows routes (g_active_rules st)"
    and ok: "\<And>po. po \<in> set polls \<Longrightarrow> poll_ok tv qv r po \<and> counts_kept po"
    and fresh: "\<And>p. p \<in> set (received polls) \<Longrightarrow> mh_live h p = None"
    and bal: "balanced (wc_stats w)" and off: "\<not> wc_reader_registered w"
  shows "\<exists>k ret st' w' freed sent. k \<le> length polls \<and>
    dp_worker_run ck ops qs failure t polls st w h = Some (ret, st', w', handed_on freed sent h) \<and>
    mset freed + mset (map fst sent) = mset (received (take k polls)) \<and>
    counted (wc_stats w) (length (received (take k polls))) (length sent) (wc_stats w') \<and>
    reader_online qv r st' = (ret = None) \<and> wc_reader_registered w' = (ret = None) \<and>
    (ret = None \<longrightarrow> k = length polls \<and> head_count st' = (g_active_workers st + 1, g_registered_readers st + 1)) \<and>
    (ret \<noteq> None \<longrightarrow> wc_result w' = the ret \<and> head_count st' = head_count st) \<and>
    (ret \<noteq> None \<and> ret \<noteq> Some 0 \<longrightarrow> the ret < 0 \<and> k = 0 \<and> g_stop st') \<and>
    (ret = None \<longrightarrow> (\<forall>po \<in> set polls. \<exists>st. \<not> g_stop (po_others po st)))"
proof -
  let ?st = "st\<lparr>g_active_workers := g_active_workers st + 1\<rparr>"
  have none: "mset [] + mset (map fst []) = mset (received (take 0 polls))"
    "counted (wc_stats w) (length (received (take 0 polls))) (length []) (wc_stats w)"
    using bal by (simp_all add: received_def counted_def)
  show ?thesis
  proof (cases "failure = sint (wi_worker_id (wc_info w))")
    case True
    then show ?thesis
      using none q off
      by (intro exI [of _ 0] exI [of _ "Some (- EIO)"] exI [of _ "?st\<lparr>g_stop := True, g_active_workers := g_active_workers st\<rparr>"]
          exI [of _ "w\<lparr>wc_result := - EIO\<rparr>"] exI [of _ "[]"])
        (simp add: dp_worker_run_def worker_fail_def Let_def reader_online_def head_count_def errno_simps)
  next
    case False
    have "g_rules_qsbr ?st = Some q" using q(1) by simp
    from register_cases [OF this q(2), of t r] show ?thesis
    proof (elim disjE exE conjE)
      fix ret q'
      assume reg: "dp_rules_reader_register qs ops t r ?st = (ret, ?st\<lparr>g_rules_qsbr := Some q'\<rparr>)" "ret < 0"
        and on: "qs_online qv q' = qs_online qv q"
      show ?thesis
        using none q off False reg on
        by (intro exI [of _ 0] exI [of _ "Some ret"]
            exI [of _ "?st\<lparr>g_rules_qsbr := Some q', g_stop := True, g_active_workers := g_active_workers st\<rparr>"]
            exI [of _ "w\<lparr>wc_result := ret\<rparr>"] exI [of _ "[]"])
          (simp add: dp_worker_run_def worker_fail_def Let_def reader_online_def head_count_def r_def)
    next
      fix q'
      let ?st1 = "?st\<lparr>g_rules_qsbr := Some q', g_registered_readers := g_registered_readers ?st + 1\<rparr>"
      let ?w = "w\<lparr>wc_reader_registered := True\<rparr>"
      assume reg: "dp_rules_reader_register qs ops t r ?st = (0, ?st1)"
        and on: "qs_inv qv q'" "qs_online qv q' = insert r (qs_online qv q)"
      have sees: "worker_sees tv qv (unat (wi_worker_id (wc_info ?w))) ?st1"
        using on repr by (auto simp: worker_sees_def r_def)
      obtain k st2 stats' freed sent where loop: "k \<le> length polls"
        "worker_loop ck ops qs polls ?st1 ?w h =
          Some (k < length polls, st2, ?w\<lparr>wc_stats := stats'\<rparr>, handed_on freed sent h)"
        "mset freed + mset (map fst sent) = mset (received (take k polls))"
        "counted (wc_stats w) (length (received (take k polls))) (length sent) stats'"
        "worker_sees tv qv r st2"
        using worker_loop_runs [OF sees, of polls h ck] bal ok fresh by (auto simp: r_def)
      have heads: "head_count st2 = head_count ?st1"
        by (rule worker_loop_keeps [OF _ _ loop(2), where J = "\<lambda>s. head_count s = head_count ?st1"])
          (use ok in \<open>auto simp: counts_kept_def head_count_def dp_rules_reader_quiescent_def split: Option.bind_splits\<close>)
      obtain q2 where q2: "g_rules_qsbr st2 = Some q2" "qs_inv qv q2" "r \<in> qs_online qv q2"
        using loop(5) by (auto simp: worker_sees_def)
      show ?thesis
      proof (cases "k < length polls")
        case True
        obtain q3 where u: "dp_rules_reader_unregister qs r st2 =
            Some (st2\<lparr>g_rules_qsbr := Some q3, g_registered_readers := g_registered_readers st2 - 1\<rparr>)"
          "qs_online qv q3 = qs_online qv q2 - {r}"
          using unregister_cases [OF q2(1,2)] by blast
        show ?thesis
          using True False reg loop u heads
          by (intro exI [of _ k] exI [of _ "Some 0"]
              exI [of _ "st2\<lparr>g_rules_qsbr := Some q3, g_registered_readers := g_registered_readers st2 - 1,
                g_active_workers := g_active_workers st2 - 1\<rparr>"]
              exI [of _ "w\<lparr>wc_stats := stats', wc_reader_registered := False, wc_result := 0\<rparr>"]
              exI [of _ freed] exI [of _ sent])
            (simp add: dp_worker_run_def Let_def reader_online_def head_count_def r_def)
      next
        case polling: False
        have "\<exists>st. \<not> g_stop (po_others po st)" if "po \<in> set polls" for po
          using worker_loop_stops [OF that _ loop(2)] polling by blast
        then show ?thesis
          using polling False reg loop heads q2
          by (intro exI [of _ k] exI [of _ None] exI [of _ st2] exI [of _ "?w\<lparr>wc_stats := stats'\<rparr>"]
              exI [of _ freed] exI [of _ sent])
            (simp add: dp_worker_run_def Let_def reader_online_def head_count_def r_def)
      qed
    qed
  qed
qed

end

interpretation refw: worker_env "ref_tables fails" ref_view "ref_qsbr_ops capacity" "ref_qsbr_view capacity" ..

end
