(* ===== verification/Dp_Forward.thy ===== *)
theory Dp_Forward
  imports Dp_Poll
begin

text \<open>
  The properties of the packet path: one packet, one burst, the transmission, the life of a
  worker.
\<close>

section \<open>Concrete instances\<close>

text \<open>Rules that rewrite the sample packet, and the snapshot the code builds from them.\<close>

definition demo_flow :: dp_flow_rule where
  "demo_flow = zero_flow_rule\<lparr>fr_src_ipv4 := 0xc0000201, fr_dst_ipv4 := 0xc6336402,
     fr_src_port := 12345, fr_dst_port := 443, fr_l4_proto := IPPROTO_TCP, fr_action := sample_rewrite\<rparr>"

definition demo_snapshot :: "(ref_hash, ref_lpm) dp_rule_snapshot" where
  "demo_snapshot = (case dp_snapshot_build (ref_tables []) 0 (Some [demo_flow]) 1 None 0 1 sample_state of
     Some (_, Some s, _) \<Rightarrow> s)"

lemma demo_flow_valid: "rules_valid [demo_flow] []"
  by (simp add: rules_valid_def flow_rule_ok_def demo_flow_def zero_flow_rule_def action_ok_def
      sample_rewrite_def action_consts)

lemma demo_args:
  "array_arg (Some [demo_flow]) 1" "array_arg (None :: dp_route_rule list option) 0"
  "args_ok (Some [demo_flow]) 1 None 0"
  "rules_of (Some [demo_flow]) 1 = [demo_flow]" "rules_of (None :: dp_route_rule list option) 0 = []"
  by (simp_all add: array_arg_def args_ok_def rules_of_def DP_MAX_FLOW_RULES_def DP_MAX_ROUTE_RULES_def)

lemma demo_built:
  "\<exists>st. dp_snapshot_build (ref_tables []) 0 (Some [demo_flow]) 1 None 0 1 sample_state =
    Some (0, Some demo_snapshot, st)"
proof -
  have e: "0 \<le> rte_errno (ref_tables []) k" for k by (simp add: ref_tables_def errno_simps)
  have "rules_code [demo_flow] [] = 0" using demo_flow_valid by (simp add: rules_code_valid)
  moreover have "card (deep_blocks (route_key ` set ([] :: dp_route_rule list))) \<le> 256"
    by (simp add: deep_blocks_def)
  ultimately obtain s st where "dp_snapshot_build (ref_tables []) 0 (Some [demo_flow]) 1 None 0 1 sample_state =
      Some (0, Some s, st)"
    using reft_room.dp_snapshot_build_exact [OF demo_args(3,1,2), of 0 1 sample_state]
      dp_snapshot_build_cases [OF e demo_args(1,2), of 0 1 sample_state]
    by (auto simp: demo_args)
  then show ?thesis by (simp add: demo_snapshot_def)
qed

lemma demo_represents: "represents ref_view [demo_flow] [] (Some demo_snapshot)"
  using demo_built reft.dp_snapshot_build_repr [where flows = "Some [demo_flow]" and nf = 1 and
      routes = "None :: dp_route_rule list option" and nr = 0] demo_args
  by (auto simp: represents_def)

interpretation demo: packet_path "ref_tables []" ref_view rfc_cksum "[demo_flow]" "[]" "Some demo_snapshot"
  by unfold_locales (rule demo_represents)

lemma sample_mbuf_class: "parse_class sample_mbuf = DP_PARSE_OK"
  using sample_packet_accepted(1) by (simp add: sample_mbuf_def)

lemma sample_mbuf_policy:
  "policy [demo_flow] [] (frame_meta (mbuf_data sample_mbuf)) = (DP_LOOKUP_FLOW_HIT, Some sample_rewrite)"
proof -
  have "frame_meta (mbuf_data sample_mbuf) = packet_meta sample_packet"
    using dp_parse_packet_ok [OF sample_mbuf_parses(1) sample_mbuf_class, of zero_meta] sample_mbuf_parses(2)
    by simp
  then show ?thesis
    by (simp add: policy_def demo_flow_def flow_rule_key_def dp_flow_key_from_meta_def packet_meta_def
        sample_packet_def zero_flow_rule_def)
qed

lemma sample_mbuf_verdict:
  "packet_verdict rfc_cksum [demo_flow] [] sample_mbuf = Some (snd (apply_spec rfc_cksum sample_rewrite sample_mbuf))"
  using apply_spec_code [of sample_rewrite]
  by (simp add: packet_verdict_def sample_mbuf_class sample_mbuf_policy action_types action_types [symmetric])

definition demo_heap :: "(nat \<times> rte_mbuf) list \<Rightarrow> mbuf_heap" where
  "demo_heap ms = \<lparr>mh_live = map_of ms, mh_freed = [], mh_sent = []\<rparr>"

text \<open>A burst of three: the sample packet, a packet of two segments, the sample packet again.\<close>

definition demo_burst :: "(nat \<times> rte_mbuf) list" where
  "demo_burst = [(1, sample_mbuf), (2, sample_mbuf\<lparr>nb_segs := 2\<rparr>), (3, sample_mbuf)]"

lemma demo_burst_ok: "distinct (map fst demo_burst)" "length demo_burst \<le> DP_BURST_SIZE"
  "\<And>p m. (p, m) \<in> set demo_burst \<Longrightarrow> mbuf_wf m"
  using sample_mbuf_parses(1) by (auto simp: demo_burst_def DP_BURST_SIZE_def mbuf_wf_def)

lemma demo_burst_verdicts:
  "kept_by (packet_verdict rfc_cksum [demo_flow] []) demo_burst = [1, 3]"
  "dropped_by (packet_verdict rfc_cksum [demo_flow] []) demo_burst = [2]"
proof -
  have "packet_verdict rfc_cksum [demo_flow] [] (sample_mbuf\<lparr>nb_segs := 2\<rparr>) = None"
    by (simp add: packet_verdict_def parse_class_def)
  then show "kept_by (packet_verdict rfc_cksum [demo_flow] []) demo_burst = [1, 3]"
    "dropped_by (packet_verdict rfc_cksum [demo_flow] []) demo_burst = [2]"
    by (simp_all add: demo_burst_def sample_mbuf_verdict)
qed

lemma zero_stats_balanced: "balanced zero_packet_stats"
  by (simp add: balanced_def zero_packet_stats_def)

section \<open>Properties\<close>

text \<open>
  C3. \<open>dp_process_packet\<close> does what the rules say, for every well-formed buffer, whatever its
  bytes: it faults on nothing, keeps exactly the packets whose matching rule forwards them or
  rewrites them, in the latter case with the rewritten bytes in place, frees every other packet
  exactly once, and counts each packet in the counters of the stages it passed.
\<close>

theorem process_packet_decides:
  assumes "rte_table_laws ops tv" and "represents tv flows routes snapshot"
    and "mh_live h p = Some m" and "mbuf_wf m"
  shows "dp_process_packet ck ops p snapshot h stats =
    (case packet_verdict ck flows routes m of
       None \<Rightarrow> Some (h\<lparr>mh_live := (mh_live h)(p := None), mh_freed := mh_freed h @ [p]\<rparr>,
         packet_tally flows routes m stats, None)
     | Some m' \<Rightarrow> Some (h\<lparr>mh_live := (mh_live h)(p := Some m')\<rparr>, packet_tally flows routes m stats, Some p))"
  using rte_table_laws.process_packet_stage [OF assms, of ck stats]
  by (simp add: stage_result_def split: option.splits)

theorem process_packet_decides_witness:
  "\<exists>h' stats'. dp_process_packet rfc_cksum (ref_tables []) 1 (Some demo_snapshot) (demo_heap demo_burst)
      zero_packet_stats = Some (h', stats', Some 1) \<and>
    mh_live h' 1 = Some (snd (apply_spec rfc_cksum sample_rewrite sample_mbuf))"
proof -
  have "mh_live (demo_heap demo_burst) 1 = Some sample_mbuf" by (simp add: demo_heap_def demo_burst_def)
  from process_packet_decides [OF reft.rte_table_laws_axioms demo_represents this sample_mbuf_parses(1)]
  show ?thesis by (simp add: sample_mbuf_verdict)
qed

text \<open>
  C4. A polling pass forwards in order. Of the packets received, the ones the rules keep are
  offered to the driver in the order of their reception, with their rewritten contents; the
  driver gets the first ones it accepts; the others and every dropped packet are freed, each
  once; the counters are those of the packets, and no pointer of the burst stays with the
  worker.
\<close>

theorem burst_forwards_in_order:
  assumes "rte_table_laws ops tv" and "represents tv flows routes snapshot"
    and "distinct (map fst rx)" and "\<And>p m. (p, m) \<in> set rx \<Longrightarrow> mbuf_wf m \<and> mh_live h p = None"
    and "length rx \<le> DP_BURST_SIZE" and "\<And>n. driver n \<le> n"
  shows "let v = packet_verdict ck flows routes; sent = unat (burst_sent_by v rx driver) in
    handle_burst (\<lambda>p. dp_process_packet ck ops p snapshot) rx driver h stats = Some
      (h\<lparr>mh_freed := mh_freed h @ dropped_by v rx @ drop sent (kept_by v rx),
         mh_sent := mh_sent h @ take sent (sending_by v rx)\<rparr>,
       burst_stats_by v (packet_tally flows routes) rx driver stats)"
proof -
  have "length rx < 65536" using assms(5) by (simp add: DP_BURST_SIZE_def)
  from packet_stage.handle_burst_runs [OF counting_stage.axioms(1) [OF rte_table_laws.process_packet_counting
      [OF assms(1,2)]] assms(3,4) this assms(6)]
  show ?thesis by (simp only: Let_def)
qed

theorem burst_forwards_in_order_witness:
  "\<exists>h' stats'. handle_burst (\<lambda>p. dp_process_packet rfc_cksum (ref_tables []) p (Some demo_snapshot)) demo_burst
      (\<lambda>n. min n 1) (demo_heap []) zero_packet_stats = Some (h', stats') \<and> mh_freed h' = [2, 3] \<and>
    mh_sent h' = [(1, snd (apply_spec rfc_cksum sample_rewrite sample_mbuf))]"
proof -
  let ?v = "packet_verdict rfc_cksum [demo_flow] []"
  have "mh_live (demo_heap []) p = None" for p by (simp add: demo_heap_def)
  then have ok: "\<And>p m. (p, m) \<in> set demo_burst \<Longrightarrow> mbuf_wf m \<and> mh_live (demo_heap []) p = None"
    using demo_burst_ok(3) by blast
  have "burst_sent_by ?v demo_burst (\<lambda>n. min n 1) = 1"
    unfolding burst_sent_by_def demo_burst_verdicts by (simp add: min_def word_le_nat_alt)
  moreover have "take 1 (sending_by ?v demo_burst) = [(1, snd (apply_spec rfc_cksum sample_rewrite sample_mbuf))]"
    by (simp add: sending_by_def demo_burst_def sample_mbuf_verdict)
  ultimately show ?thesis
    using burst_forwards_in_order [OF reft.rte_table_laws_axioms demo_represents demo_burst_ok(1) ok
        demo_burst_ok(2), where driver = "\<lambda>n. min n 1" and ck = rfc_cksum and stats = zero_packet_stats]
    unfolding Let_def demo_burst_verdicts by (simp add: demo_heap_def)
qed

text \<open>
  C30. Nothing leaves without permission. Every packet handed to the driver was received in this
  burst under the same pointer, was accepted by the parser, and the policy of the rules gives it
  a FORWARD action, and then it leaves unchanged, or a REWRITE action, and then it leaves with
  exactly the reference rewrite. A packet no rule matches never leaves.
\<close>

theorem only_permitted_sent:
  assumes "rte_table_laws ops tv" and "represents tv flows routes snapshot"
    and "distinct (map fst rx)" and "\<And>p m. (p, m) \<in> set rx \<Longrightarrow> mbuf_wf m \<and> mh_live h p = None"
    and "length rx \<le> DP_BURST_SIZE" and "\<And>n. driver n \<le> n"
    and "handle_burst (\<lambda>p. dp_process_packet ck ops p snapshot) rx driver h stats = Some (h', stats')"
    and "(p, m') \<in> set (mh_sent h')" and "(p, m') \<notin> set (mh_sent h)"
  shows "\<exists>m a. (p, m) \<in> set rx \<and> parse_class m = DP_PARSE_OK \<and>
    snd (policy flows routes (frame_meta (mbuf_data m))) = Some a \<and>
    (ra_type a = DP_ACTION_FORWARD \<and> m' = m \<or>
     ra_type a = DP_ACTION_REWRITE \<and> m' = m\<lparr>mbuf_data := rewrite_frame ck a (mbuf_data m)\<rparr>)"
proof -
  let ?v = "packet_verdict ck flows routes"
  have "length rx < 65536" using assms(5) by (simp add: DP_BURST_SIZE_def)
  from packet_stage.handle_burst_runs [OF counting_stage.axioms(1) [OF rte_table_laws.process_packet_counting
      [OF assms(1,2)]] assms(3,4) this assms(6), of ck stats] assms(7-9)
  have "(p, m') \<in> set (sending_by ?v rx)" by (auto dest: in_set_takeD)
  then obtain m where m: "(p, m) \<in> set rx" "?v m = Some m'" by (auto simp: sending_by_def)
  have code: "\<And>a. fst (apply_spec ck a m) = 0 \<Longrightarrow> ra_type a = DP_ACTION_REWRITE \<Longrightarrow>
      snd (apply_spec ck a m) = m\<lparr>mbuf_data := rewrite_frame ck a (mbuf_data m)\<rparr>"
    using apply_spec_code by (auto simp: apply_spec_def action_types [symmetric])
  show ?thesis
    using m code by (auto simp: packet_verdict_def split: if_splits option.splits)
qed

theorem only_permitted_sent_witness:
  "\<exists>m a. (1, m) \<in> set demo_burst \<and> snd (policy [demo_flow] [] (frame_meta (mbuf_data m))) = Some a \<and>
    snd (apply_spec rfc_cksum sample_rewrite sample_mbuf) = m\<lparr>mbuf_data := rewrite_frame rfc_cksum a (mbuf_data m)\<rparr>"
proof -
  let ?v = "packet_verdict rfc_cksum [demo_flow] []" and ?out = "snd (apply_spec rfc_cksum sample_rewrite sample_mbuf)"
  let ?f = "\<lambda>p. dp_process_packet rfc_cksum (ref_tables []) p (Some demo_snapshot)"
  have live: "mh_live (demo_heap []) p = None" for p by (simp add: demo_heap_def)
  then have ok: "\<And>p m. (p, m) \<in> set demo_burst \<Longrightarrow> mbuf_wf m \<and> mh_live (demo_heap []) p = None"
    using demo_burst_ok(3) by blast
  have len: "length demo_burst < 65536" by (simp add: demo_burst_def)
  have dr: "n \<le> n" for n :: u16 by simp
  obtain h' stats' where b: "handle_burst ?f demo_burst (\<lambda>n. n) (demo_heap []) zero_packet_stats = Some (h', stats')"
    and h': "mh_sent h' = take (unat (burst_sent_by ?v demo_burst (\<lambda>n. n))) (sending_by ?v demo_burst)"
    using demo.handle_burst_runs [OF demo_burst_ok(1) ok len dr, of zero_packet_stats] by (auto simp: demo_heap_def)
  have "burst_sent_by ?v demo_burst (\<lambda>n. n) = 2" unfolding burst_sent_by_def demo_burst_verdicts by simp
  then have "(1, ?out) \<in> set (mh_sent h')"
    unfolding h' by (simp add: sending_by_def demo_burst_def sample_mbuf_verdict)
  from only_permitted_sent [OF reft.rte_table_laws_axioms demo_represents demo_burst_ok(1) ok demo_burst_ok(2) dr b this]
  obtain m a where "(1, m) \<in> set demo_burst" "snd (policy [demo_flow] [] (frame_meta (mbuf_data m))) = Some a"
    "ra_type a = DP_ACTION_FORWARD \<or> ?out = m\<lparr>mbuf_data := rewrite_frame rfc_cksum a (mbuf_data m)\<rparr>"
    by (auto simp: demo_heap_def)
  moreover from this have "a = sample_rewrite" by (auto simp: demo_burst_def sample_mbuf_policy)
  ultimately show ?thesis by (auto simp: sample_rewrite_def action_consts)
qed

text \<open>
  C10. A burst conserves packets and counters. Every packet received is either handed to the
  driver or freed, exactly once; nothing stays with the worker and nothing else is touched; the
  five sums between the counters hold again when they held before; and the reception, sending
  and drop counters grow by exactly the packets received, sent and freed, modulo \<open>2 ^ 64\<close>.
\<close>

theorem burst_conserves:
  assumes "rte_table_laws ops tv" and "represents tv flows routes snapshot"
    and "distinct (map fst rx)" and "\<And>p m. (p, m) \<in> set rx \<Longrightarrow> mbuf_wf m \<and> mh_live h p = None"
    and "length rx \<le> DP_BURST_SIZE" and "\<And>n. driver n \<le> n" and "balanced stats"
  shows "\<exists>freed sent stats'. handle_burst (\<lambda>p. dp_process_packet ck ops p snapshot) rx driver h stats =
      Some (h\<lparr>mh_freed := mh_freed h @ freed, mh_sent := mh_sent h @ sent\<rparr>, stats') \<and>
    mset freed + mset (map fst sent) = mset (map fst rx) \<and> balanced stats' \<and>
    ps_rx stats' = ps_rx stats + word_of_nat (length rx) \<and>
    ps_tx_accepted stats' = ps_tx_accepted stats + word_of_nat (length sent) \<and>
    ps_drop stats' = ps_drop stats + word_of_nat (length freed)"
proof -
  have len: "length rx < 65536" using assms(5) by (simp add: DP_BURST_SIZE_def)
  obtain freed sent stats' where b: "handle_burst (\<lambda>p. dp_process_packet ck ops p snapshot) rx driver h stats =
      Some (handed_on freed sent h, stats')" "mset freed + mset (map fst sent) = mset (map fst rx)"
    "counted stats (length rx) (length sent) stats'"
    using counting_stage.burst_counted [OF rte_table_laws.process_packet_counting [OF assms(1,2), where ck = ck]
        assms(3,4) len assms(6,7)] by blast
  have "length rx = length sent + length freed"
    using arg_cong [OF b(2), of size] by simp
  from counted_drop [OF assms(7) b(3) this] b show ?thesis
    by (intro exI [of _ freed] exI [of _ sent] exI [of _ stats']) (simp add: handed_on_def counted_def)
qed

theorem burst_conserves_witness:
  "\<exists>h' stats'. handle_burst (\<lambda>p. dp_process_packet rfc_cksum (ref_tables []) p (Some demo_snapshot)) demo_burst
      (\<lambda>n. 0) (demo_heap []) zero_packet_stats = Some (h', stats') \<and> ps_rx stats' = 3 \<and> balanced stats'"
proof -
  have live: "mh_live (demo_heap []) p = None" for p by (simp add: demo_heap_def)
  then have ok: "\<And>p m. (p, m) \<in> set demo_burst \<Longrightarrow> mbuf_wf m \<and> mh_live (demo_heap []) p = None"
    using demo_burst_ok(3) by blast
  have dr: "0 \<le> n" for n :: u16 by simp
  from burst_conserves [OF reft.rte_table_laws_axioms demo_represents demo_burst_ok(1) ok demo_burst_ok(2) dr
      zero_stats_balanced, where ck = rfc_cksum]
  show ?thesis by (fastforce simp: demo_burst_def zero_packet_stats_def)
qed

text \<open>
  \<open>dp_complete_tx\<close> frees exactly the packets the driver did not take: the entries from
  \<open>sent\<close> up to \<open>n\<close>, each once and in order, and no entry before \<open>sent\<close>, which the driver owns.
  It reads inside the array only, and the accepted, unsent and drop counters grow by the exact
  numbers, without wrap-around in the difference.
\<close>

theorem complete_tx_frees_rest:
  assumes "sent \<le> n" and "unat n \<le> length pkts" and "distinct (take (unat n) pkts)"
    and "\<And>p. p \<in> set (drop (unat sent) (take (unat n) pkts)) \<Longrightarrow> mh_live h p \<noteq> None"
  shows "\<exists>h' stats'. dp_complete_tx pkts n sent h stats = Some (h', stats') \<and>
    mh_freed h' = mh_freed h @ drop (unat sent) (take (unat n) pkts) \<and> mh_sent h' = mh_sent h \<and>
    (\<forall>p. mh_live h' p = (if p \<in> set (drop (unat sent) (take (unat n) pkts)) then None else mh_live h p)) \<and>
    (\<forall>p \<in> set (take (unat sent) pkts). mh_live h' p = mh_live h p) \<and>
    unat (ps_tx_accepted stats' - ps_tx_accepted stats) = unat sent \<and>
    unat (ps_tx_unsent stats' - ps_tx_unsent stats) = unat n - unat sent \<and>
    unat (ps_drop stats' - ps_drop stats) = unat n - unat sent"
proof -
  let ?tail = "drop (unat sent) (take (unat n) pkts)"
  have le: "unat sent \<le> unat n" using assms(1) by (simp add: word_le_nat_alt)
  have "unat n < 65536" using unat_lt(2) [of n] by simp
  then have w: "unat (word_of_nat k :: u64) = k" if "k \<le> unat n" for k
    using that by (simp add: unat_of_nat)
  have "take (unat sent) (take (unat n) pkts) = take (unat sent) pkts" using le by (simp add: min_def)
  then have "set (take (unat sent) pkts) \<inter> set ?tail = {}"
    using set_take_disj_set_drop_if_distinct [OF assms(3) order_refl, of "unat sent"] by simp
  moreover have "unat (ucast sent :: u64) = unat sent" "unat (ucast n - ucast sent :: u64) = unat n - unat sent"
    using w [OF le] w [of "unat n - unat sent"] le by (simp_all add: of_nat_diff)
  ultimately show ?thesis
    using dp_complete_tx_frees [OF assms(1,2) distinct_drop [OF assms(3)] assms(4), of stats] le
    by (auto simp: freed_all_def tx_counted_def of_nat_diff)
qed

theorem complete_tx_frees_rest_witness:
  "\<exists>h' stats'. dp_complete_tx [5, 6, 7] 3 1 (demo_heap [(5, sample_mbuf), (6, sample_mbuf), (7, sample_mbuf)])
      zero_packet_stats = Some (h', stats') \<and> mh_freed h' = [6, 7] \<and> mh_live h' 5 = Some sample_mbuf"
proof -
  have sn: "(1 :: u16) \<le> 3" by (simp add: word_le_nat_alt)
  let ?h = "demo_heap [(5, sample_mbuf), (6, sample_mbuf), (7, sample_mbuf)]"
  have "mh_live ?h p \<noteq> None" if "p \<in> set (drop (unat (1 :: u16)) (take (unat (3 :: u16)) [5, 6, 7]))" for p
    using that by (auto simp: demo_heap_def)
  moreover have "unat (3 :: u16) \<le> length [5, 6, 7 :: nat]" "distinct (take (unat (3 :: u16)) [5, 6, 7 :: nat])"
    by simp_all
  ultimately have "\<exists>h' stats'. dp_complete_tx [5, 6, 7] 3 1 ?h zero_packet_stats = Some (h', stats') \<and>
      mh_freed h' = mh_freed ?h @ [6, 7] \<and> (\<forall>p \<in> set [5]. mh_live h' p = mh_live ?h p)"
    using complete_tx_frees_rest [OF sn, where pkts = "[5, 6, 7]" and h = ?h and stats = zero_packet_stats] by fastforce
  then
  obtain h' stats' where "dp_complete_tx [5, 6, 7] 3 1 ?h zero_packet_stats = Some (h', stats')"
    "mh_freed h' = mh_freed ?h @ [6, 7]" "mh_live h' 5 = mh_live ?h 5"
    by (metis list.set_intros(1))
  then show ?thesis by (simp add: demo_heap_def)
qed

text \<open>
  The self test of the transmission passes: in an initialised, idle process with no pool,
  whatever four buffers the allocation returns, it finds all sums right, exactly the two packets
  not taken given back, and no buffer freed twice or lost.
\<close>

theorem tx_self_test_passes:
  assumes "g_initialized st" and "\<not> g_running st" and "g_pool st = None"
    and "length bufs = 4" and "distinct (map fst bufs)"
  shows "dp_test_tx_partial_ownership True (Some bufs) st = Some 0"
proof -
  obtain p0 m0 p1 m1 p2 m2 p3 m3 where bufs: "bufs = [(p0, m0), (p1, m1), (p2, m2), (p3, m3)]"
    using assms(4) by (auto simp: length_Suc_conv numeral_eq_Suc)
  let ?h = "rx_take bufs \<lparr>mh_live = Map.empty, mh_freed = [], mh_sent = []\<rparr>"
  let ?stats = "zero_packet_stats\<lparr>ps_rx := 4, ps_parse_ok := 4, ps_flow_hit := 4, ps_action_forward := 4\<rparr>"
  have le: "(2 :: u16) \<le> 4" by (simp add: word_le_nat_alt)
  have d: "distinct (drop (unat (2 :: u16)) (take (unat (4 :: u16)) (map fst bufs)))"
    using assms(5) by (simp add: bufs)
  have live: "mh_live ?h p \<noteq> None" if "p \<in> set (drop (unat (2 :: u16)) (take (unat (4 :: u16)) (map fst bufs)))" for p
    using that by (auto simp: bufs rx_take_def)
  have "dp_complete_tx (map fst bufs) 4 2 ?h ?stats = Some (freed_all [p2, p3] ?h, tx_counted 4 2 ?stats)"
    using dp_complete_tx_frees [OF le _ d live, of ?stats] by (simp add: bufs)
  moreover have "in_use_count bufs (freed_all [p2, p3] ?h) = 2"
    using assms(5) by (simp add: in_use_count_def bufs freed_all_def rx_take_def)
  ultimately show ?thesis
    using assms by (simp add: dp_test_tx_partial_ownership_def Let_def)
      (simp add: bufs mem_simps rte_pktmbuf_free_def freed_all_def rx_take_def in_use_count_def tx_counted_def
        zero_packet_stats_def)
qed

theorem tx_self_test_passes_witness:
  "dp_test_tx_partial_ownership True (Some [(1, sample_mbuf), (2, sample_mbuf), (3, sample_mbuf), (4, sample_mbuf)])
    sample_state = Some 0"
  by (rule tx_self_test_passes) (simp_all add: sample_state_def dp_start_def)

text \<open>
  C23. The life of a worker. \<open>dp_worker_run\<close> never faults. At every moment the packets it
  received are exactly those it freed and those it sent, with the counters in step. While it
  polls, its reader is online and registered, and it counts as active. It ends only by returning:
  then its reader is offline, the counts of active workers and registered readers are what they
  were, and its result is stored. A negative result means it never started polling and asked the
  others to stop; a stop request seen in any pass makes it return.
\<close>

theorem worker_run_outcome:
  assumes "rte_table_laws ops tv" and "qsbr_laws qs qv"
    and "g_rules_qsbr st = Some q" and "qs_inv qv q" and "unat (wi_worker_id (wc_info w)) \<notin> qs_online qv q"
    and "represents tv flows routes (g_active_rules st)"
    and "\<And>po. po \<in> set polls \<Longrightarrow> poll_ok tv qv (unat (wi_worker_id (wc_info w))) po \<and> counts_kept po"
    and "\<And>p. p \<in> set (received polls) \<Longrightarrow> mh_live h p = None"
    and "balanced (wc_stats w)" and "\<not> wc_reader_registered w"
  shows "\<exists>k ret st' w' freed sent. k \<le> length polls \<and>
    dp_worker_run ck ops qs failure t polls st w h = Some (ret, st', w', handed_on freed sent h) \<and>
    mset freed + mset (map fst sent) = mset (received (take k polls)) \<and>
    counted (wc_stats w) (length (received (take k polls))) (length sent) (wc_stats w') \<and>
    reader_online qv (unat (wi_worker_id (wc_info w))) st' = (ret = None) \<and>
    wc_reader_registered w' = (ret = None) \<and>
    (ret = None \<longrightarrow> k = length polls \<and> head_count st' = (g_active_workers st + 1, g_registered_readers st + 1)) \<and>
    (ret \<noteq> None \<longrightarrow> wc_result w' = the ret \<and> head_count st' = head_count st) \<and>
    (ret \<noteq> None \<and> ret \<noteq> Some 0 \<longrightarrow> the ret < 0 \<and> k = 0 \<and> g_stop st') \<and>
    (ret = None \<longrightarrow> (\<forall>po \<in> set polls. \<exists>st. \<not> g_stop (po_others po st)))"
  by (rule worker_env.dp_worker_run_outcome [OF worker_env.intro [OF assms(1,2)] assms(3-10)])

text \<open>A state with the demo rules active, a worker, and two passes, the second of which sees the stop request.\<close>

definition demo_state :: "(ref_hash, ref_lpm, ref_qsbr) dp_state" where
  "demo_state = sample_state\<lparr>g_active_rules := Some demo_snapshot,
     g_rules_qsbr := Some \<lparr>rq_token = 1, rq_counters = replicate 128 0\<rparr>\<rparr>"

definition demo_polls :: "(ref_hash, ref_lpm, ref_qsbr) poll list" where
  "demo_polls = [\<lparr>po_others = (\<lambda>st. st), po_during = (\<lambda>st. st), po_rx = demo_burst, po_driver = (\<lambda>n. n)\<rparr>,
     \<lparr>po_others = dp_dataplane_request_stop, po_during = (\<lambda>st. st), po_rx = [], po_driver = (\<lambda>n. n)\<rparr>]"

lemma worker_sees_stop [simp]: "worker_sees tv qv r (dp_dataplane_request_stop st) = worker_sees tv qv r st"
  by (simp add: worker_sees_def dp_dataplane_request_stop_def)

lemma demo_polls_ok: "po \<in> set demo_polls \<Longrightarrow> poll_ok tv qv r po \<and> counts_kept po"
  using demo_burst_ok
  by (auto simp: demo_polls_def poll_ok_def counts_kept_def) (simp_all add: head_count_def dp_dataplane_request_stop_def)

theorem worker_run_outcome_witness:
  "\<exists>st' w' freed sent. dp_worker_run rfc_cksum (ref_tables []) (ref_qsbr_ops 128) (- 1) 0 demo_polls demo_state
      zero_worker_ctx (demo_heap []) = Some (Some 0, st', w', handed_on freed sent (demo_heap [])) \<and>
    \<not> reader_online (ref_qsbr_view 128) 0 st' \<and> wc_result w' = 0"
proof -
  let ?q = "\<lparr>rq_token = 1, rq_counters = replicate 128 0\<rparr>"
  have w: "unat (wi_worker_id (wc_info zero_worker_ctx)) = 0" "balanced (wc_stats zero_worker_ctx)"
    "\<not> wc_reader_registered zero_worker_ctx"
    using zero_stats_balanced by (simp_all add: zero_worker_ctx_def zero_worker_info_def)
  have q: "g_rules_qsbr demo_state = Some ?q" "qs_inv (ref_qsbr_view 128) ?q"
    "unat (wi_worker_id (wc_info zero_worker_ctx)) \<notin> qs_online (ref_qsbr_view 128) ?q"
    "represents ref_view [demo_flow] [] (g_active_rules demo_state)"
    using demo_represents by (simp_all add: demo_state_def ref_qsbr_view_def rq_inv_def rq_online_def w(1))
  have h: "mh_live (demo_heap []) p = None" for p by (simp add: demo_heap_def)
  have stops: "\<not> (\<forall>po \<in> set demo_polls. \<exists>st. \<not> g_stop (po_others po st))"
    by (simp add: demo_polls_def dp_dataplane_request_stop_def)
  obtain ret st' w' freed sent where run: "dp_worker_run rfc_cksum (ref_tables []) (ref_qsbr_ops 128) (- 1) 0 demo_polls
      demo_state zero_worker_ctx (demo_heap []) = Some (ret, st', w', handed_on freed sent (demo_heap []))"
    "\<not> reader_online (ref_qsbr_view 128) 0 st'" "ret \<noteq> None" "wc_result w' = the ret"
    using worker_run_outcome [OF reft.rte_table_laws_axioms refq.qsbr_laws_axioms q demo_polls_ok h w(2,3),
        where ck = rfc_cksum and failure = "- 1" and t = 0] stops w(1) by metis
  have reg: "0 \<le> fst (dp_rules_reader_register (ref_qsbr_ops 128) (ref_tables []) 0 0
      (demo_state\<lparr>g_active_workers := g_active_workers demo_state + 1\<rparr>))"
    by (simp add: dp_rules_reader_register_def demo_state_def ref_qsbr_ops_def)
  have "ret = Some 0"
    using run(1,3) reg
    by (auto simp: dp_worker_run_def Let_def split_beta w(1) zero_worker_ctx_def zero_worker_info_def
        split: if_splits Option.bind_splits)
  with run show ?thesis by auto
qed

lemma policy_action_ok:
  assumes "rules_valid flows routes" "policy flows routes meta = (r, Some a)"
  shows "action_ok a"
proof -
  have acts: "action_ok b" if "b \<in> fr_action ` set flows \<union> rr_action ` set routes" for b
    using assms(1) that by (auto simp: rules_valid_def list_all_iff flow_rule_ok_def route_rule_ok_def)
  show ?thesis
  proof (cases "find (\<lambda>r. flow_rule_key r = dp_flow_key_from_meta meta) flows")
    case (Some f)
    then have "f \<in> set flows" by (auto simp: find_Some_iff)
    then show ?thesis using assms(2) Some acts by (auto simp: policy_def)
  next
    case None
    then have "longest_match (map_of (map (\<lambda>r. (route_key r, rr_action r)) routes)) (pm_dst_ipv4 meta) = Some a"
      using assms(2) by (auto simp: policy_def split: option.splits)
    then have "a \<in> ran (map_of (map (\<lambda>r. (route_key r, rr_action r)) routes))" by (rule longest_match_range)
    then show ?thesis using acts
      by (auto simp: ran_def dest!: map_of_SomeD)
  qed
qed



end
