(* ===== verification/Dp_Runtime.thy ===== *)
theory Dp_Runtime
  imports Dp_Forward
begin

text \<open>
  The life of the process (\<open>dp_runtime.c\<close>): initialisation and clean-up of DPDK's environment
  layer, the statistics, and the self tests of both. The environment layer (EAL) is not part of
  the repository; what it answers is a record of values and functions.
\<close>

section \<open>The environment layer\<close>

text \<open>
  \<open>el_init\<close> and \<open>el_cleanup\<close> are the results of \<open>rte_eal_init\<close> and \<open>rte_eal_cleanup\<close>, \<open>el_lcores\<close> the
  enabled cores in the order \<open>RTE_LCORE_FOREACH\<close> visits them, \<open>el_launch\<close> the result of
  \<open>rte_eal_remote_launch\<close> on a core.
\<close>

record eal_ops =
  el_version :: string
  el_init :: "int \<Rightarrow> string list \<Rightarrow> int"
  el_errno :: int
  el_main_lcore :: u32
  el_lcore_count :: u32
  el_lcores :: "u32 list"
  el_lcore_socket :: "u32 \<Rightarrow> int"
  el_socket_id :: int
  el_launch :: "u32 \<Rightarrow> int"
  el_cleanup :: int

definition dp_runtime_init ::
  "eal_ops \<Rightarrow> int \<Rightarrow> string list option \<Rightarrow> ('h, 'l, 'q) dp_state \<Rightarrow> int \<times> ('h, 'l, 'q) dp_state" where
  "dp_runtime_init el argc argv st =
     (if g_attempted st then (- EALREADY, st)
      else if argc < 1 then (- EINVAL, st)
      else case argv of None \<Rightarrow> (- EINVAL, st)
      | Some argv \<Rightarrow>
          let st = st\<lparr>g_attempted := True\<rparr> in
          if el_version el \<noteq> ''DPDK 25.11.3'' then (- ENOTSUP, st)
          else if el_init el argc argv < 0 then (errno_or (el_errno el) EIO, st)
          else (0, st\<lparr>g_initialized := True,
            g_info := (g_info st)\<lparr>ri_initialized := 1, ri_main_lcore := el_main_lcore el,
              ri_lcore_count := el_lcore_count el, ri_version := Some (el_version el),
              ri_socket_id := el_socket_id el\<rparr>\<rparr>))"

text \<open>An out-parameter is its former value, \<open>None\<close> for NULL.\<close>

definition dp_runtime_get_info ::
  "dp_runtime_info option \<Rightarrow> ('h, 'l, 'q) dp_state \<Rightarrow> int \<times> dp_runtime_info option" where
  "dp_runtime_get_info info st =
     (if info = None then (- EINVAL, info)
      else if \<not> g_initialized st then (- ENODEV, info)
      else (0, Some (g_info st)))"

text \<open>
  \<open>dp_workers_stopped\<close> with its loop at index \<open>i\<close>, \<open>k\<close> workers left. A worker count beyond the array
  would be a fault.
\<close>

fun workers_idle :: "dp_worker_ctx list \<Rightarrow> nat \<Rightarrow> nat \<Rightarrow> bool option" where
  "workers_idle workers i 0 = Some True"
| "workers_idle workers i (Suc k) = do {
     w \<leftarrow> idx workers i;
     if wc_launched w \<or> wc_reader_registered w then Some False
     else workers_idle workers (i + 1) k }"

definition dp_workers_stopped :: "('h, 'l, 'q) dp_state \<Rightarrow> bool option" where
  "dp_workers_stopped st =
     (if g_active_workers st \<noteq> 0 \<or> g_registered_readers st \<noteq> 0 then Some False
      else workers_idle (g_workers st) 0 (unat (g_worker_count st)))"

text \<open>The guard of the clean-up is an \<open>||\<close> chain, read from left to right.\<close>

definition dp_runtime_cleanup ::
  "eal_ops \<Rightarrow> ('h, 'l, 'q) dp_state \<Rightarrow> (int \<times> ('h, 'l, 'q) dp_state) option" where
  "dp_runtime_cleanup el st =
     (if \<not> g_initialized st then Some (- ENODEV, st)
      else do {
        busy \<leftarrow> (if g_running st then Some True
          else do {
            stopped \<leftarrow> dp_workers_stopped st;
            Some (\<not> stopped \<or> g_pool st \<noteq> None \<or> g_owned st 0 \<or> g_owned st 1 \<or>
              g_started st 0 \<or> g_started st 1 \<or> g_active_rules st \<noteq> None \<or> g_rules_qsbr st \<noteq> None \<or>
              g_writer_active st \<or> g_rules_configured st) });
        if busy then Some (- EBUSY, st)
        else Some (el_cleanup el, st\<lparr>g_initialized := False\<rparr>)
      })"

section \<open>Statistics\<close>

definition dp_packet_stats_add :: "dp_packet_stats \<Rightarrow> dp_packet_stats \<Rightarrow> dp_packet_stats" where
  "dp_packet_stats_add sum_stats local = sum_stats\<lparr>
     ps_rx := ps_rx sum_stats + ps_rx local,
     ps_parse_ok := ps_parse_ok sum_stats + ps_parse_ok local,
     ps_parse_unsupported := ps_parse_unsupported sum_stats + ps_parse_unsupported local,
     ps_parse_malformed := ps_parse_malformed sum_stats + ps_parse_malformed local,
     ps_flow_hit := ps_flow_hit sum_stats + ps_flow_hit local,
     ps_route_hit := ps_route_hit sum_stats + ps_route_hit local,
     ps_lookup_miss := ps_lookup_miss sum_stats + ps_lookup_miss local,
     ps_action_drop := ps_action_drop sum_stats + ps_action_drop local,
     ps_action_forward := ps_action_forward sum_stats + ps_action_forward local,
     ps_action_rewrite := ps_action_rewrite sum_stats + ps_action_rewrite local,
     ps_tx_accepted := ps_tx_accepted sum_stats + ps_tx_accepted local,
     ps_tx_unsent := ps_tx_unsent sum_stats + ps_tx_unsent local,
     ps_drop := ps_drop sum_stats + ps_drop local,
     ps_rx_bursts := ps_rx_bursts sum_stats + ps_rx_bursts local,
     ps_rx_empty_polls := ps_rx_empty_polls sum_stats + ps_rx_empty_polls local,
     ps_tx_bursts := ps_tx_bursts sum_stats + ps_tx_bursts local\<rparr>"

text \<open>The sixteen assignments that store the packet counters of \<open>sum_stats\<close> in the top level of \<open>stats\<close>.\<close>

definition store_packets :: "dp_packet_stats \<Rightarrow> dp_stats \<Rightarrow> dp_stats" where
  "store_packets sum_stats stats = stats\<lparr>
     ps_rx := ps_rx sum_stats,
     ps_parse_ok := ps_parse_ok sum_stats,
     ps_parse_unsupported := ps_parse_unsupported sum_stats,
     ps_parse_malformed := ps_parse_malformed sum_stats,
     ps_flow_hit := ps_flow_hit sum_stats,
     ps_route_hit := ps_route_hit sum_stats,
     ps_lookup_miss := ps_lookup_miss sum_stats,
     ps_action_drop := ps_action_drop sum_stats,
     ps_action_forward := ps_action_forward sum_stats,
     ps_action_rewrite := ps_action_rewrite sum_stats,
     ps_tx_accepted := ps_tx_accepted sum_stats,
     ps_tx_unsent := ps_tx_unsent sum_stats,
     ps_drop := ps_drop sum_stats,
     ps_rx_bursts := ps_rx_bursts sum_stats,
     ps_rx_empty_polls := ps_rx_empty_polls sum_stats,
     ps_tx_bursts := ps_tx_bursts sum_stats\<rparr>"

text \<open>The loop over the workers at index \<open>i\<close>, \<open>k\<close> left.\<close>

fun collect_workers ::
  "dp_worker_ctx list \<Rightarrow> nat \<Rightarrow> nat \<Rightarrow> dp_stats \<Rightarrow> dp_packet_stats \<Rightarrow> (dp_stats \<times> dp_packet_stats) option" where
  "collect_workers workers i 0 stats sum_stats = Some (stats, sum_stats)"
| "collect_workers workers i (Suc k) stats sum_stats = do {
     w \<leftarrow> idx workers i;
     ws \<leftarrow> set_idx (st_workers stats) i \<lparr>ws_info = wc_info w, ws_packets = wc_stats w\<rparr>;
     collect_workers workers (i + 1) k (stats\<lparr>st_workers := ws\<rparr>) (dp_packet_stats_add sum_stats (wc_stats w)) }"

definition dp_dataplane_get_stats ::
  "dp_stats option \<Rightarrow> ('h, 'l, 'q) dp_state \<Rightarrow> (int \<times> dp_stats option) option" where
  "dp_dataplane_get_stats stats st =
     (if stats = None then Some (- EINVAL, stats)
      else if g_running st then Some (- EBUSY, stats)
      else do {
        let stats = store_packets zero_packet_stats (g_stats st);
        let stats = stats\<lparr>st_worker_count := g_worker_count st\<rparr>;
        (stats, sum_stats) \<leftarrow>
          collect_workers (g_workers st) 0 (unat (g_worker_count st)) stats zero_packet_stats;
        Some (0, Some (store_packets sum_stats stats))
      })"

section \<open>Self tests\<close>


text \<open>
  The self test of the statistics. The first check compares the addresses of two worker contexts
  with DPDK's size of a cache line; all three are arguments.
\<close>

definition dp_test_worker_stats_layout :: "u64 \<Rightarrow> u64 \<Rightarrow> u64 \<Rightarrow> int" where
  "dp_test_worker_stats_layout cache_line addr0 addr1 =
     (if addr0 mod cache_line \<noteq> 0 \<or> addr1 - addr0 < cache_line then - EIO
      else
        let a = zero_packet_stats\<lparr>ps_rx := 4, ps_parse_ok := 4, ps_flow_hit := 4, ps_action_forward := 4,
          ps_tx_accepted := 4, ps_rx_bursts := 10, ps_rx_empty_polls := 8, ps_tx_bursts := 4\<rparr>;
          b = zero_packet_stats\<lparr>ps_rx := 6, ps_parse_ok := 4, ps_parse_unsupported := 1,
          ps_parse_malformed := 1, ps_route_hit := 2, ps_lookup_miss := 2, ps_action_forward := 1,
          ps_action_rewrite := 1, ps_action_drop := 2, ps_tx_accepted := 1, ps_tx_unsent := 1, ps_drop := 5,
          ps_rx_bursts := 20, ps_rx_empty_polls := 15, ps_tx_bursts := 2\<rparr>;
          sum_stats = dp_packet_stats_add (dp_packet_stats_add zero_packet_stats a) b
        in if ps_rx sum_stats \<noteq> 10 \<or> ps_parse_ok sum_stats \<noteq> 8 \<or> ps_parse_unsupported sum_stats \<noteq> 1 \<or>
          ps_parse_malformed sum_stats \<noteq> 1 \<or> ps_flow_hit sum_stats \<noteq> 4 \<or> ps_route_hit sum_stats \<noteq> 2 \<or>
          ps_lookup_miss sum_stats \<noteq> 2 \<or> ps_action_forward sum_stats \<noteq> 5 \<or> ps_action_rewrite sum_stats \<noteq> 1 \<or>
          ps_action_drop sum_stats \<noteq> 2 \<or> ps_tx_accepted sum_stats \<noteq> 5 \<or> ps_tx_unsent sum_stats \<noteq> 1 \<or>
          ps_drop sum_stats \<noteq> 5 \<or> ps_rx_bursts sum_stats \<noteq> 30 \<or> ps_rx_empty_polls sum_stats \<noteq> 23 \<or>
          ps_tx_bursts sum_stats \<noteq> 6 \<or>
          ps_rx sum_stats \<noteq> ps_parse_ok sum_stats + ps_parse_unsupported sum_stats + ps_parse_malformed sum_stats \<or>
          ps_parse_ok sum_stats \<noteq> ps_flow_hit sum_stats + ps_route_hit sum_stats + ps_lookup_miss sum_stats \<or>
          ps_parse_ok sum_stats \<noteq> ps_action_drop sum_stats + ps_action_forward sum_stats + ps_action_rewrite sum_stats \<or>
          ps_action_forward sum_stats + ps_action_rewrite sum_stats \<noteq> ps_tx_accepted sum_stats + ps_tx_unsent sum_stats \<or>
          ps_drop sum_stats \<noteq> ps_parse_unsupported sum_stats + ps_parse_malformed sum_stats + ps_action_drop sum_stats +
            ps_tx_unsent sum_stats
        then - EIO else 0)"

text \<open>
  The self test of the clean-up guard. Its sentinel pointers are never read, so any values do:
  \<open>snap\<close> for the snapshot and \<open>qsbr\<close> for the QSBR variable.
\<close>

definition DP_TEST_LIVE_WORKER :: int where "DP_TEST_LIVE_WORKER = 1"
definition DP_TEST_LIVE_PORT :: int where "DP_TEST_LIVE_PORT = 2"
definition DP_TEST_LIVE_MEMPOOL :: int where "DP_TEST_LIVE_MEMPOOL = 3"
definition DP_TEST_LIVE_ACTIVE_RULES :: int where "DP_TEST_LIVE_ACTIVE_RULES = 4"
definition DP_TEST_LIVE_QSBR :: int where "DP_TEST_LIVE_QSBR = 5"
definition DP_TEST_LIVE_WRITER :: int where "DP_TEST_LIVE_WRITER = 6"
definition DP_TEST_LIVE_READER :: int where "DP_TEST_LIVE_READER = 7"

lemmas live_consts = DP_TEST_LIVE_WORKER_def DP_TEST_LIVE_PORT_def DP_TEST_LIVE_MEMPOOL_def
  DP_TEST_LIVE_ACTIVE_RULES_def DP_TEST_LIVE_QSBR_def DP_TEST_LIVE_WRITER_def DP_TEST_LIVE_READER_def

definition fake_live ::
  "('h, 'l) dp_rule_snapshot \<Rightarrow> 'q \<Rightarrow> int \<Rightarrow> ('h, 'l, 'q) dp_state \<Rightarrow> ('h, 'l, 'q) dp_state" where
  "fake_live snap qsbr resource st =
     (if resource = DP_TEST_LIVE_WORKER then st\<lparr>g_active_workers := 1\<rparr>
      else if resource = DP_TEST_LIVE_PORT then st\<lparr>g_owned := (g_owned st)(0 := True)\<rparr>
      else if resource = DP_TEST_LIVE_MEMPOOL then st\<lparr>g_pool := Some 1\<rparr>
      else if resource = DP_TEST_LIVE_ACTIVE_RULES then st\<lparr>g_active_rules := Some snap\<rparr>
      else if resource = DP_TEST_LIVE_QSBR then st\<lparr>g_rules_qsbr := Some qsbr\<rparr>
      else if resource = DP_TEST_LIVE_WRITER then st\<lparr>g_writer_active := True\<rparr>
      else if resource = DP_TEST_LIVE_READER then st\<lparr>g_registered_readers := 1\<rparr>
      else st)"

definition dp_test_runtime_cleanup_guard ::
  "eal_ops \<Rightarrow> ('h, 'l) dp_rule_snapshot \<Rightarrow> 'q \<Rightarrow> int \<Rightarrow> ('h, 'l, 'q) dp_state \<Rightarrow>
   (int \<times> ('h, 'l, 'q) dp_state) option" where
  "dp_test_runtime_cleanup_guard el snap qsbr resource st =
     (if resource \<noteq> DP_TEST_LIVE_WORKER \<and> resource \<noteq> DP_TEST_LIVE_PORT \<and>
         resource \<noteq> DP_TEST_LIVE_MEMPOOL \<and> resource \<noteq> DP_TEST_LIVE_ACTIVE_RULES \<and>
         resource \<noteq> DP_TEST_LIVE_QSBR \<and> resource \<noteq> DP_TEST_LIVE_WRITER \<and>
         resource \<noteq> DP_TEST_LIVE_READER then Some (- EINVAL, st)
      else do {
        let st1 = fake_live snap qsbr resource (st\<lparr>g_initialized := True\<rparr>);
        (ret, st2) \<leftarrow> dp_runtime_cleanup el st1;
        Some (ret, st2\<lparr>g_initialized := g_initialized st, g_running := g_running st,
          g_owned := (g_owned st2)(0 := g_owned st 0), g_pool := g_pool st,
          g_rules_configured := g_rules_configured st, g_active_rules := g_active_rules st,
          g_rules_qsbr := g_rules_qsbr st, g_writer_active := g_writer_active st,
          g_active_workers := g_active_workers st, g_registered_readers := g_registered_readers st\<rparr>)
      })"

section \<open>Lemmas: statistics\<close>

text \<open>The packet counters of any record that has them, in the order of the struct.\<close>

definition counters :: "'a dp_packet_stats_scheme \<Rightarrow> u64 list" where
  "counters s = [ps_rx s, ps_parse_ok s, ps_parse_unsupported s, ps_parse_malformed s, ps_flow_hit s,
     ps_route_hit s, ps_lookup_miss s, ps_action_drop s, ps_action_forward s, ps_action_rewrite s,
     ps_tx_accepted s, ps_tx_unsent s, ps_drop s, ps_rx_bursts s, ps_rx_empty_polls s, ps_tx_bursts
     s]"

lemma length_counters [simp]: "length (counters s) = 16"
  by (simp add: counters_def)

lemma counters_add: "counters (dp_packet_stats_add a b) = map2 (+) (counters a) (counters b)"
  by (simp add: counters_def dp_packet_stats_add_def)

lemma counters_store: "counters (store_packets t s) = counters t"
  by (simp add: counters_def store_packets_def)

lemma counters_zero: "j < 16 \<Longrightarrow> counters zero_packet_stats ! j = 0"
  by (auto simp: counters_def zero_packet_stats_def less_Suc_eq numeral_eq_Suc)

definition worker_entry :: "dp_worker_ctx \<Rightarrow> dp_worker_stats" where
  "worker_entry w = \<lparr>ws_info = wc_info w, ws_packets = wc_stats w\<rparr>"

lemma collect_workers_runs:
  assumes "i + k \<le> length ws" "i + k \<le> length (st_workers s)"
  shows "\<exists>t'. collect_workers ws i k s t =
      Some (s\<lparr>st_workers := take i (st_workers s) @ map worker_entry (take k (drop i ws)) @ drop (i + k) (st_workers s)\<rparr>, t') \<and>
    (\<forall>j < 16. counters t' ! j = counters t ! j + sum_list (map (\<lambda>w. counters (wc_stats w) ! j) (take k (drop i ws))))"
  using assms
proof (induction k arbitrary: i s t)
  case 0
  then show ?case by simp
next
  case (Suc k)
  have i: "i < length ws" "i < length (st_workers s)" using Suc.prems by auto
  let ?s = "s\<lparr>st_workers := (st_workers s)[i := worker_entry (ws ! i)]\<rparr>"
  have split: "take (Suc k) (drop i ws) = ws ! i # take k (drop (i + 1) ws)"
    using i by (simp add: Cons_nth_drop_Suc [symmetric])
  obtain t' where ih: "collect_workers ws (i + 1) k ?s (dp_packet_stats_add t (wc_stats (ws ! i))) =
      Some (?s\<lparr>st_workers := take (i + 1) (st_workers ?s) @ map worker_entry (take k (drop (i + 1) ws)) @
        drop (i + 1 + k) (st_workers ?s)\<rparr>, t')"
    "\<And>j. j < 16 \<Longrightarrow> counters t' ! j = counters (dp_packet_stats_add t (wc_stats (ws ! i))) ! j +
      sum_list (map (\<lambda>w. counters (wc_stats w) ! j) (take k (drop (i + 1) ws)))"
    using Suc.IH [of "i + 1" ?s "dp_packet_stats_add t (wc_stats (ws ! i))"] Suc.prems by auto
  have "take (i + 1) ((st_workers s)[i := worker_entry (ws ! i)]) = take i (st_workers s) @ [worker_entry (ws ! i)]"
    using i by (simp add: take_Suc_conv_app_nth)
  then have "collect_workers ws i (Suc k) s t =
      Some (s\<lparr>st_workers := take i (st_workers s) @ map worker_entry (take (Suc k) (drop i ws)) @
        drop (i + Suc k) (st_workers s)\<rparr>, t')"
    using ih(1) i split by (simp add: mem_simps worker_entry_def)
  moreover have "counters t' ! j = counters t ! j +
      sum_list (map (\<lambda>w. counters (wc_stats w) ! j) (take (Suc k) (drop i ws)))" if "j < 16" for j
    using ih(2) [OF that] that split by (simp add: counters_add)
  ultimately show ?case by blast
qed

lemma gaps_add:
  "parsed (dp_packet_stats_add a b) = parsed a + parsed b" "passed (dp_packet_stats_add a b) = passed a + passed b"
  "lookup_gap (dp_packet_stats_add a b) = lookup_gap a + lookup_gap b"
  "action_gap (dp_packet_stats_add a b) = action_gap a + action_gap b"
  "drop_gap (dp_packet_stats_add a b) = drop_gap a + drop_gap b"
  by (simp_all add: gap_defs dp_packet_stats_add_def algebra_simps)

lemma add_counters:
  "ps_rx (dp_packet_stats_add a b) = ps_rx a + ps_rx b"
  "ps_tx_accepted (dp_packet_stats_add a b) = ps_tx_accepted a + ps_tx_accepted b"
  "ps_tx_unsent (dp_packet_stats_add a b) = ps_tx_unsent a + ps_tx_unsent b"
  by (simp_all add: dp_packet_stats_add_def)

lemma balanced_add: "balanced a \<Longrightarrow> balanced b \<Longrightarrow> balanced (dp_packet_stats_add a b)"
  by (simp add: balanced_gaps gaps_add add_counters)

lemma balanced_store: "balanced (store_packets t s) = balanced t"
  by (simp add: balanced_def store_packets_def)

lemma collect_workers_balanced:
  assumes "collect_workers ws i k s t = Some (s', t')" "balanced t" "\<forall>w \<in> set (take k (drop i ws)). balanced (wc_stats w)"
  shows "balanced t'"
  using assms
proof (induction k arbitrary: i s t)
  case (Suc k)
  then have i: "i < length ws" by (auto simp: idx_def split: if_splits Option.bind_splits)
  have split: "take (Suc k) (drop i ws) = ws ! i # take k (drop (i + 1) ws)"
    using i by (simp add: Cons_nth_drop_Suc [symmetric])
  obtain s1 where "collect_workers ws (i + 1) k s1 (dp_packet_stats_add t (wc_stats (ws ! i))) = Some (s', t')"
    using Suc.prems(1) i by (auto simp: mem_simps split: Option.bind_splits)
  from Suc.IH [OF this balanced_add] Suc.prems(2,3) split show ?case by simp
qed simp

section \<open>Lemmas: idle workers\<close>

lemma workers_idle_all:
  "i + k \<le> length ws \<Longrightarrow> workers_idle ws i k =
    Some (\<forall>w \<in> set (take k (drop i ws)). \<not> wc_launched w \<and> \<not> wc_reader_registered w)"
proof (induction k arbitrary: i)
  case (Suc k)
  then have "take (Suc k) (drop i ws) = ws ! i # take k (drop (i + 1) ws)"
    by (simp add: Cons_nth_drop_Suc [symmetric])
  with Suc show ?case by (simp add: mem_simps)
qed simp

definition all_idle :: "('h, 'l, 'q) dp_state \<Rightarrow> bool" where
  "all_idle st \<longleftrightarrow> g_active_workers st = 0 \<and> g_registered_readers st = 0 \<and>
     (\<forall>w \<in> set (take (unat (g_worker_count st)) (g_workers st)). \<not> wc_launched w \<and> \<not> wc_reader_registered w)"

lemma dp_workers_stopped_idle:
  "unat (g_worker_count st) \<le> length (g_workers st) \<Longrightarrow> dp_workers_stopped st = Some (all_idle st)"
  using workers_idle_all [of 0 "unat (g_worker_count st)" "g_workers st"]
  by (auto simp: dp_workers_stopped_def all_idle_def)

text \<open>The resources that must be gone before the environment layer may go.\<close>

definition resources_gone :: "('h, 'l, 'q) dp_state \<Rightarrow> bool" where
  "resources_gone st \<longleftrightarrow> g_pool st = None \<and> \<not> g_owned st 0 \<and> \<not> g_owned st 1 \<and> \<not> g_started st 0 \<and>
     \<not> g_started st 1 \<and> g_active_rules st = None \<and> g_rules_qsbr st = None \<and> \<not> g_writer_active st \<and>
     \<not> g_rules_configured st"

lemma dp_runtime_cleanup_cases:
  assumes "unat (g_worker_count st) \<le> length (g_workers st)"
  shows "dp_runtime_cleanup el st = Some
    (if \<not> g_initialized st then (- ENODEV, st)
     else if g_running st \<or> \<not> all_idle st \<or> \<not> resources_gone st then (- EBUSY, st)
     else (el_cleanup el, st\<lparr>g_initialized := False\<rparr>))"
  using dp_workers_stopped_idle [OF assms] by (auto simp: dp_runtime_cleanup_def resources_gone_def)

section \<open>Properties\<close>

text \<open>
  C39. The statistics are the sums of the workers' counters: once the workers have stopped
  \<open>dp_dataplane_get_stats\<close> reports, for each of the sixteen counters, the sum over the workers
  modulo \<open>2 ^ 64\<close>, each worker's own counters and identity, the statistics of the rules as they
  are, and entries of workers that do not exist unchanged. When the sums between the counters
  hold for every worker they hold for the totals. A NULL argument and a running dataplane are
  rejected without storing anything.
\<close>

theorem stats_aggregate:
  assumes "unat (g_worker_count st) \<le> length (g_workers st)"
    and "unat (g_worker_count st) \<le> length (st_workers (g_stats st))"
  shows "dp_dataplane_get_stats None st = Some (- EINVAL, None) \<and>
    (g_running st \<longrightarrow> dp_dataplane_get_stats (Some old) st = Some (- EBUSY, Some old)) \<and>
    (\<not> g_running st \<longrightarrow> (let n = unat (g_worker_count st); ws = take n (g_workers st) in
      \<exists>s t. dp_dataplane_get_stats (Some old) st = Some (0, Some s) \<and>
        s = store_packets t ((g_stats st)\<lparr>st_worker_count := g_worker_count st,
          st_workers := map worker_entry ws @ drop n (st_workers (g_stats st))\<rparr>) \<and>
        (\<forall>j < 16. counters s ! j = sum_list (map (\<lambda>w. counters (wc_stats w) ! j) ws)) \<and>
        ((\<forall>w \<in> set ws. balanced (wc_stats w)) \<longrightarrow> balanced s)))"
proof (intro conjI impI)
  show "dp_dataplane_get_stats None st = Some (- EINVAL, None)" by (simp add: dp_dataplane_get_stats_def)
  show "dp_dataplane_get_stats (Some old) st = Some (- EBUSY, Some old)" if "g_running st"
    using that by (simp add: dp_dataplane_get_stats_def)
next
  assume r: "\<not> g_running st"
  let ?n = "unat (g_worker_count st)" and ?s = "(store_packets zero_packet_stats (g_stats st))\<lparr>st_worker_count := g_worker_count st\<rparr>"
  let ?ws = "take ?n (g_workers st)"
  let ?s' = "?s\<lparr>st_workers := map worker_entry ?ws @ drop ?n (st_workers (g_stats st))\<rparr>"
  have sw: "st_workers ?s = st_workers (g_stats st)" by (simp add: store_packets_def)
  obtain t where t: "collect_workers (g_workers st) 0 ?n ?s zero_packet_stats = Some (?s', t)"
    "\<And>j. j < 16 \<Longrightarrow> counters t ! j = sum_list (map (\<lambda>w. counters (wc_stats w) ! j) ?ws)"
    using collect_workers_runs [of 0 ?n "g_workers st" ?s zero_packet_stats] assms sw by (auto simp: counters_zero)
  have "store_packets t ?s' = store_packets t ((g_stats st)\<lparr>st_worker_count := g_worker_count st,
      st_workers := map worker_entry ?ws @ drop ?n (st_workers (g_stats st))\<rparr>)"
    by (simp add: store_packets_def)
  moreover have "balanced t" if "\<forall>w \<in> set ?ws. balanced (wc_stats w)"
    by (rule collect_workers_balanced [OF t(1) zero_stats_balanced]) (use that in simp)
  ultimately show "let n = ?n; ws = take n (g_workers st) in
      \<exists>s t. dp_dataplane_get_stats (Some old) st = Some (0, Some s) \<and>
        s = store_packets t ((g_stats st)\<lparr>st_worker_count := g_worker_count st,
          st_workers := map worker_entry ws @ drop n (st_workers (g_stats st))\<rparr>) \<and>
        (\<forall>j < 16. counters s ! j = sum_list (map (\<lambda>w. counters (wc_stats w) ! j) ws)) \<and>
        ((\<forall>w \<in> set ws. balanced (wc_stats w)) \<longrightarrow> balanced s)"
    using r t unfolding Let_def
    by (intro exI [of _ "store_packets t ?s'"] exI [of _ t])
      (simp add: dp_dataplane_get_stats_def counters_store balanced_store)
qed

text \<open>Two workers whose counters differ.\<close>

definition two_workers :: "(ref_hash, ref_lpm, ref_qsbr) dp_state" where
  "two_workers = dp_start\<lparr>g_worker_count := 2,
     g_workers := [zero_worker_ctx\<lparr>wc_stats := zero_packet_stats\<lparr>ps_rx := 4, ps_parse_malformed := 4, ps_drop := 4\<rparr>\<rparr>,
       zero_worker_ctx\<lparr>wc_stats := zero_packet_stats\<lparr>ps_rx := 3, ps_parse_malformed := 3, ps_drop := 3\<rparr>\<rparr>,
       zero_worker_ctx, zero_worker_ctx]\<rparr>"

theorem stats_aggregate_witness:
  "\<exists>s. dp_dataplane_get_stats (Some zero_stats) two_workers = Some (0, Some s) \<and> ps_rx s = 7 \<and> balanced s"
proof -
  have "unat (g_worker_count two_workers) \<le> length (g_workers two_workers)"
    "unat (g_worker_count two_workers) \<le> length (st_workers (g_stats two_workers))"
    by (simp_all add: two_workers_def dp_start_def zero_stats_def DP_MAX_WORKERS_def dp_packet_stats.extend_def)
  from stats_aggregate [OF this, of zero_stats]
  obtain s where s: "dp_dataplane_get_stats (Some zero_stats) two_workers = Some (0, Some s)"
    "\<forall>j < 16. counters s ! j = sum_list (map (\<lambda>w. counters (wc_stats w) ! j) (take 2 (g_workers two_workers)))"
    "(\<forall>w \<in> set (take 2 (g_workers two_workers)). balanced (wc_stats w)) \<longrightarrow> balanced s"
    by (auto simp: two_workers_def dp_start_def Let_def)
  have "ps_rx s = 7" using s(2) [rule_format, of 0] by (simp add: two_workers_def counters_def)
  moreover have "\<forall>w \<in> set (take 2 (g_workers two_workers)). balanced (wc_stats w)"
    by (simp add: two_workers_def balanced_def zero_packet_stats_def)
  with s(3) have "balanced s" by blast
  ultimately show ?thesis using s(1) by blast
qed

text \<open>
  The clean-up guard holds for every resource: in every state with a valid worker count,
  whatever is live already, the self test's seven fakes each make \<open>dp_runtime_cleanup\<close> answer
  \<open>-EBUSY\<close>, any other number is rejected with \<open>-EINVAL\<close>, and the test leaves the state exactly as
  it found it.
\<close>

theorem cleanup_guard_test:
  assumes "unat (g_worker_count st) \<le> length (g_workers st)"
  shows "dp_test_runtime_cleanup_guard el snap qsbr resource st =
    Some (if 1 \<le> resource \<and> resource \<le> 7 then - EBUSY else - EINVAL, st)"
proof (cases "1 \<le> resource \<and> resource \<le> 7")
  case True
  let ?st = "fake_live snap qsbr resource (st\<lparr>g_initialized := True\<rparr>)"
  have r: "resource = 1 \<or> resource = 2 \<or> resource = 3 \<or> resource = 4 \<or> resource = 5 \<or> resource = 6 \<or> resource = 7"
    using True by linarith
  have "unat (g_worker_count ?st) \<le> length (g_workers ?st)"
    using assms by (simp add: fake_live_def)
  moreover have "g_initialized ?st" by (simp add: fake_live_def)
  moreover have "\<not> all_idle ?st \<or> \<not> resources_gone ?st"
    using r by (auto simp: fake_live_def live_consts all_idle_def resources_gone_def)
  ultimately have c: "dp_runtime_cleanup el ?st = Some (- EBUSY, ?st)"
    by (auto simp: dp_runtime_cleanup_cases)
  have "(g_owned st)(0 := g_owned st 0) = g_owned st" "(g_owned st)(0 := True, 0 := g_owned st 0) = g_owned st" by auto
  then have "?st\<lparr>g_initialized := g_initialized st, g_running := g_running st,
      g_owned := (g_owned ?st)(0 := g_owned st 0), g_pool := g_pool st,
      g_rules_configured := g_rules_configured st, g_active_rules := g_active_rules st,
      g_rules_qsbr := g_rules_qsbr st, g_writer_active := g_writer_active st,
      g_active_workers := g_active_workers st, g_registered_readers := g_registered_readers st\<rparr> = st"
    using r by (elim disjE) (simp_all add: fake_live_def live_consts)
  with c True show ?thesis
    using r by (simp add: dp_test_runtime_cleanup_guard_def live_consts Let_def)
next
  case False
  then show ?thesis by (auto simp: dp_test_runtime_cleanup_guard_def live_consts)
qed

theorem cleanup_guard_test_witness:
  "\<forall>el snap qsbr. dp_test_runtime_cleanup_guard el snap qsbr 5 two_workers = Some (- EBUSY, two_workers)"
  using cleanup_guard_test [of two_workers] by (simp add: two_workers_def)

end
