(* ===== verification/Dp_Port.thy ===== *)
theory Dp_Port
  imports Dp_Runtime
begin

text \<open>
  Ports, queues and the packet pool (\<open>dp_port.c\<close>): the set-up of the workers and of the two ports,
  and the teardown. DPDK's \<open>rte_ethdev\<close> and \<open>rte_mempool\<close> are not part of the repository; their
  answers are the fields of \<open>eth_ops\<close>. The calls made on devices and pool are recorded in the
  order they are made, as far as a property is about that order.
\<close>

section \<open>Devices and pools\<close>

text \<open>
  \<open>eo_stop\<close>, \<open>eo_close\<close> and \<open>eo_in_use\<close> also get the moment of the call, as a teardown may be tried
  again. A call that returns descriptors or a port number returns them beside its result.
\<close>

record dev_info =
  di_driver_name :: "string option"
  di_max_rx_queues :: u32
  di_max_tx_queues :: u32

record eth_ops =
  eo_port_by_name :: "string \<Rightarrow> int \<times> u16"
  eo_info :: "u16 \<Rightarrow> int \<times> dev_info"
  eo_pool_create :: "string \<Rightarrow> nat \<Rightarrow> nat \<Rightarrow> int \<Rightarrow> nat option"
  eo_errno :: int
  eo_configure :: "u16 \<Rightarrow> u32 \<Rightarrow> u32 \<Rightarrow> int"
  eo_adjust :: "u16 \<Rightarrow> u16 \<Rightarrow> u16 \<Rightarrow> int \<times> u16 \<times> u16"
  eo_rx_queue_setup :: "u16 \<Rightarrow> u16 \<Rightarrow> u16 \<Rightarrow> int \<Rightarrow> nat option \<Rightarrow> int"
  eo_tx_queue_setup :: "u16 \<Rightarrow> u16 \<Rightarrow> u16 \<Rightarrow> int \<Rightarrow> int"
  eo_start :: "u16 \<Rightarrow> int"
  eo_stop :: "nat \<Rightarrow> u16 \<Rightarrow> int"
  eo_close :: "nat \<Rightarrow> u16 \<Rightarrow> int"
  eo_in_use :: "nat \<Rightarrow> nat \<Rightarrow> u32"

datatype port_call =
    Call_configure u16 u32 u32
  | Call_rx_queue u16 u16
  | Call_tx_queue u16 u16
  | Call_start u16
  | Call_stop u16
  | Call_close u16
  | Call_pool_free nat

section \<open>Checks\<close>

definition validate_queue_capacity :: "u32 \<Rightarrow> u32 \<Rightarrow> u32 \<Rightarrow> int" where
  "validate_queue_capacity max_rx max_tx workers =
     (if max_rx \<ge> workers \<and> max_tx \<ge> workers then 0 else - ENOSPC)"

definition validate_worker_socket :: "int \<Rightarrow> int \<Rightarrow> int" where
  "validate_worker_socket baseline_socket worker_socket =
     (if baseline_socket = worker_socket then 0 else - EXDEV)"

definition dp_test_queue_capacity :: "u32 \<Rightarrow> u32 \<Rightarrow> u32 \<Rightarrow> int" where
  "dp_test_queue_capacity max_rx max_tx workers = validate_queue_capacity max_rx max_tx workers"

definition dp_test_worker_socket :: "int \<Rightarrow> int \<Rightarrow> int" where
  "dp_test_worker_socket baseline_socket worker_socket = validate_worker_socket baseline_socket worker_socket"

section \<open>Failures injected by tests\<close>

text \<open>The static variables the test hooks set, and their setters.\<close>

record test_hooks =
  th_queue_setup_failure :: int
  th_launch_failure_worker :: int
  th_worker_failure_worker :: int

definition test_hooks_start :: test_hooks where
  "test_hooks_start = \<lparr>th_queue_setup_failure = - 1, th_launch_failure_worker = - 1,
     th_worker_failure_worker = - 1\<rparr>"

definition dp_test_inject_queue_setup_failure :: "int \<Rightarrow> test_hooks \<Rightarrow> test_hooks" where
  "dp_test_inject_queue_setup_failure queue_id th = th\<lparr>th_queue_setup_failure := queue_id\<rparr>"

definition dp_test_inject_remote_launch_failure :: "int \<Rightarrow> test_hooks \<Rightarrow> test_hooks" where
  "dp_test_inject_remote_launch_failure worker_id th = th\<lparr>th_launch_failure_worker := worker_id\<rparr>"

definition dp_test_inject_worker_failure :: "int \<Rightarrow> test_hooks \<Rightarrow> test_hooks" where
  "dp_test_inject_worker_failure worker_id th = th\<lparr>th_worker_failure_worker := worker_id\<rparr>"

section \<open>Set-up of one port\<close>

text \<open>
  The loop over the queues at \<open>queue\<close>, \<open>k\<close> left: \<open>None\<close> when it ran to its end, else the code it
  returns. \<open>queue\<close> is a \<open>uint16_t\<close> in the code; the number of queues is at most \<open>DP_MAX_WORKERS\<close>.
\<close>

fun setup_queues ::
  "eth_ops \<Rightarrow> test_hooks \<Rightarrow> nat \<Rightarrow> u16 \<Rightarrow> u16 \<Rightarrow> u16 \<Rightarrow> int \<Rightarrow> nat option \<Rightarrow> nat \<Rightarrow> nat \<Rightarrow>
   port_call list \<Rightarrow> int option \<times> port_call list" where
  "setup_queues eo th index port rx_desc tx_desc socket pool queue 0 calls = (None, calls)"
| "setup_queues eo th index port rx_desc tx_desc socket pool queue (Suc k) calls =
     (let q = word_of_nat queue;
          ret = eo_rx_queue_setup eo port q rx_desc socket pool;
          calls = calls @ [Call_rx_queue port q]
      in if ret < 0 then (Some ret, calls)
      else if index = 0 \<and> th_queue_setup_failure th = int queue then (Some (- EIO), calls)
      else
        let ret = eo_tx_queue_setup eo port q tx_desc socket;
            calls = calls @ [Call_tx_queue port q]
        in if ret < 0 then (Some ret, calls)
        else setup_queues eo th index port rx_desc tx_desc socket pool (queue + 1) k calls)"

definition setup_port ::
  "eth_ops \<Rightarrow> test_hooks \<Rightarrow> nat \<Rightarrow> ('h, 'l, 'q) dp_state \<Rightarrow> port_call list \<Rightarrow>
   int \<times> ('h, 'l, 'q) dp_state \<times> port_call list" where
  "setup_port eo th index st calls =
     (let port = g_ports st index;
          ret = eo_configure eo port (g_worker_count st) (g_worker_count st);
          calls = calls @ [Call_configure port (g_worker_count st) (g_worker_count st)]
      in if ret < 0 then (ret, st, calls)
      else
        let (ret, rx_desc, tx_desc) = eo_adjust eo port 256 256
        in if ret < 0 then (ret, st, calls)
        else
          let (e, calls) = setup_queues eo th index port rx_desc tx_desc (ri_socket_id (g_info st))
            (g_pool st) 0 (unat (g_worker_count st)) calls
          in case e of Some ret \<Rightarrow> (ret, st, calls)
          | None \<Rightarrow>
              let ret = eo_start eo port;
                  calls = calls @ [Call_start port]
              in if ret < 0 then (ret, st, calls)
              else
                let st = st\<lparr>g_started := (g_started st)(index := True)\<rparr>
                in (0, st\<lparr>g_info := (if index = 0 then (g_info st)\<lparr>ri_rx_desc := rx_desc\<rparr>
                      else (g_info st)\<lparr>ri_tx_desc := tx_desc\<rparr>)\<rparr>, calls))"

section \<open>Set-up of the workers\<close>

text \<open>
  The loop over the enabled cores, the main core skipped: the workers' array and the next worker,
  or the code it returns.
\<close>

fun assign_lcores ::
  "u32 \<Rightarrow> nat \<Rightarrow> u32 list \<Rightarrow> nat \<Rightarrow> dp_worker_ctx list \<Rightarrow> (int option \<times> nat \<times> dp_worker_ctx list) option" where
  "assign_lcores main worker_count [] next_id ws = Some (None, next_id, ws)"
| "assign_lcores main worker_count (lcore_id # lcores) next_id ws =
     (if lcore_id = main then assign_lcores main worker_count lcores next_id ws
      else if next_id \<ge> worker_count then Some (Some (- EINVAL), next_id, ws)
      else do {
        w \<leftarrow> idx ws next_id;
        ws \<leftarrow> set_idx ws next_id (w\<lparr>wc_info := (wc_info w)\<lparr>wi_worker_id := word_of_nat next_id,
          wi_lcore_id := lcore_id\<rparr>\<rparr>);
        assign_lcores main worker_count lcores (next_id + 1) ws
      })"

text \<open>The loop over the workers at index \<open>i\<close>, \<open>k\<close> left, that gives them their queues.\<close>

fun assign_queues ::
  "eal_ops \<Rightarrow> nat \<Rightarrow> nat \<Rightarrow> ('h, 'l, 'q) dp_state \<Rightarrow> (int \<times> ('h, 'l, 'q) dp_state) option" where
  "assign_queues el i 0 st = Some (0, st)"
| "assign_queues el i (Suc k) st = do {
     w \<leftarrow> idx (g_workers st) i;
     if validate_worker_socket (ri_socket_id (g_info st)) (el_lcore_socket el (wi_lcore_id (wc_info w))) < 0
     then Some (- EXDEV, st)
     else do {
       let info = (wc_info w)\<lparr>wi_rx_queue_id := word_of_nat i, wi_tx_queue_id := word_of_nat i\<rparr>;
       infos \<leftarrow> set_idx (ri_workers (g_info st)) i info;
       ws \<leftarrow> set_idx (g_workers st) i (w\<lparr>wc_info := info, wc_result := 0, wc_launched := False,
         wc_reader_registered := False\<rparr>);
       assign_queues el (i + 1) k (st\<lparr>g_workers := ws, g_info := (g_info st)\<lparr>ri_workers := infos\<rparr>\<rparr>)
     } }"

definition setup_workers ::
  "eal_ops \<Rightarrow> u32 \<Rightarrow> ('h, 'l, 'q) dp_state \<Rightarrow> (int \<times> ('h, 'l, 'q) dp_state) option" where
  "setup_workers el worker_count st =
     (if worker_count = 0 \<or> unat worker_count > DP_MAX_WORKERS \<or> ri_lcore_count (g_info st) \<noteq> worker_count
      then Some (- EINVAL, st)
      else do {
        let ws = replicate DP_MAX_WORKERS zero_worker_ctx;
        let st = st\<lparr>g_workers := ws, g_worker_count := worker_count,
          g_info := (g_info st)\<lparr>ri_worker_count := worker_count\<rparr>\<rparr>;
        w \<leftarrow> idx ws 0;
        ws \<leftarrow> set_idx ws 0 (w\<lparr>wc_info := (wc_info w)\<lparr>wi_worker_id := 0,
          wi_lcore_id := ri_main_lcore (g_info st)\<rparr>\<rparr>);
        (e, next_id, ws) \<leftarrow>
          assign_lcores (ri_main_lcore (g_info st)) (unat worker_count) (el_lcores el) 1 ws;
        let st = st\<lparr>g_workers := ws\<rparr>;
        (case e of Some ret \<Rightarrow> Some (ret, st)
        | None \<Rightarrow>
            if next_id \<noteq> unat worker_count then Some (- EINVAL, st)
            else assign_queues el 0 (unat worker_count) st)
      })"

section \<open>Set-up and teardown of the dataplane\<close>

text \<open>The checks of port \<open>i\<close>: \<open>None\<close> when they pass.\<close>

definition check_device :: "eth_ops \<Rightarrow> u32 \<Rightarrow> u16 \<Rightarrow> int option" where
  "check_device eo worker_count port =
     (let (ret, info) = eo_info eo port in
      if ret < 0 then Some ret
      else if di_driver_name info \<noteq> Some ''net_tap'' then Some (- ENOTSUP)
      else if validate_queue_capacity (di_max_rx_queues info) (di_max_tx_queues info) worker_count < 0
      then Some (- ENOSPC)
      else None)"

text \<open>The part that finds the two ports and checks them, and the part that claims them.\<close>

definition find_ports ::
  "eth_ops \<Rightarrow> u32 \<Rightarrow> string \<Rightarrow> string \<Rightarrow> ('h, 'l, 'q) dp_state \<Rightarrow> int \<times> ('h, 'l, 'q) dp_state" where
  "find_ports eo worker_count rx_device tx_device st =
     (let (ret, port) = eo_port_by_name eo rx_device in
      if ret < 0 then (ret, st)
      else
        let st = st\<lparr>g_ports := (g_ports st)(0 := port)\<rparr>;
            (ret, port) = eo_port_by_name eo tx_device in
        if ret < 0 then (ret, st)
        else
          let st = st\<lparr>g_ports := (g_ports st)(1 := port)\<rparr> in
          if g_ports st 0 = g_ports st 1 then (- EINVAL, st)
          else case check_device eo worker_count (g_ports st 0) of
            Some ret \<Rightarrow> (ret, st)
          | None \<Rightarrow> (case check_device eo worker_count (g_ports st 1) of
              Some ret \<Rightarrow> (ret, st)
            | None \<Rightarrow> (0, st)))"

definition claim_ports ::
  "eth_ops \<Rightarrow> test_hooks \<Rightarrow> ('h, 'l, 'q) dp_state \<Rightarrow> int \<times> ('h, 'l, 'q) dp_state \<times> port_call list" where
  "claim_ports eo th st =
     (let st = st\<lparr>g_owned := (g_owned st)(0 := True, 1 := True)\<rparr>;
          st = st\<lparr>g_info := (g_info st)\<lparr>ri_rx_port := g_ports st 0, ri_tx_port := g_ports st 1,
            ri_nb_mbuf := word_of_nat DP_NB_MBUF, ri_cache_size := word_of_nat DP_CACHE_SIZE\<rparr>\<rparr>;
          st = st\<lparr>g_pool := eo_pool_create eo ''flow_router_pool'' DP_NB_MBUF DP_CACHE_SIZE
            (ri_socket_id (g_info st))\<rparr>
      in if g_pool st = None then (errno_or (eo_errno eo) ENOMEM, st, [])
      else
        let (ret, st, calls) = setup_port eo th 0 st [] in
        if ret < 0 then (ret, st, calls)
        else
          let (ret, st, calls) = setup_port eo th 1 st calls in
          if ret < 0 then (ret, st, calls)
          else (0, st\<lparr>g_ready := True\<rparr>, calls))"

definition dp_dataplane_setup ::
  "eal_ops \<Rightarrow> eth_ops \<Rightarrow> test_hooks \<Rightarrow> string option \<Rightarrow> string option \<Rightarrow> u32 \<Rightarrow> ('h, 'l, 'q) dp_state \<Rightarrow>
   (int \<times> ('h, 'l, 'q) dp_state \<times> port_call list) option" where
  "dp_dataplane_setup el eo th rx_device tx_device worker_count st =
     (if \<not> g_initialized st then Some (- ENODEV, st, [])
      else if g_pool st \<noteq> None \<or> g_ready st then Some (- EALREADY, st, [])
      else if \<not> g_rules_configured st then Some (- EINVAL, st, [])
      else case (rx_device, tx_device) of
        (Some rx_device, Some tx_device) \<Rightarrow> do {
          (ret, st) \<leftarrow> setup_workers el worker_count st;
          if ret < 0 then Some (ret, st, [])
          else do {
            let (ret, st) = find_ports eo worker_count rx_device tx_device st;
            if ret < 0 then Some (ret, st, []) else Some (claim_ports eo th st)
          }
        }
      | _ \<Rightarrow> Some (- EINVAL, st, []))"

text \<open>The body of the teardown's loop, for port \<open>i\<close>.\<close>

definition close_port ::
  "eth_ops \<Rightarrow> nat \<Rightarrow> nat \<Rightarrow> int \<Rightarrow> ('h, 'l, 'q) dp_state \<Rightarrow> port_call list \<Rightarrow>
   int \<times> ('h, 'l, 'q) dp_state \<times> port_call list" where
  "close_port eo t i first_error st calls =
     (if \<not> g_owned st i then (first_error, st, calls)
      else
        let (first_error, st, calls) =
          (if g_started st i then
             let ret = eo_stop eo t (g_ports st i) in
             (if ret < 0 \<and> first_error = 0 then ret else first_error,
              if ret = 0 then st\<lparr>g_started := (g_started st)(i := False)\<rparr> else st,
              calls @ [Call_stop (g_ports st i)])
           else (first_error, st, calls));
          ret = eo_close eo t (g_ports st i)
        in (if ret < 0 \<and> first_error = 0 then ret else first_error,
            if ret = 0 then on_stats (\<lambda>x. x\<lparr>st_ports_closed := st_ports_closed x + 1\<rparr>)
              (st\<lparr>g_owned := (g_owned st)(i := False)\<rparr>) else st,
            calls @ [Call_close (g_ports st i)]))"

definition dp_dataplane_teardown ::
  "eth_ops \<Rightarrow> nat \<Rightarrow> ('h, 'l, 'q) dp_state \<Rightarrow> (int \<times> ('h, 'l, 'q) dp_state \<times> port_call list) option" where
  "dp_dataplane_teardown eo t st = do {
     busy \<leftarrow> (if g_running st then Some True
       else do { stopped \<leftarrow> dp_workers_stopped st; Some (\<not> stopped) });
     if busy then Some (- EBUSY, st, [])
     else do {
       let st = st\<lparr>g_ready := False\<rparr>;
       st \<leftarrow> dp_rules_teardown st;
       let (first_error, st, calls) = close_port eo t 0 0 st [];
       let (first_error, st, calls) = close_port eo t 1 first_error st calls;
       (case g_pool st of
          Some pool \<Rightarrow>
            if \<not> g_owned st 0 \<and> \<not> g_owned st 1 then
              let st = on_stats (\<lambda>x. x\<lparr>st_pool_in_use := eo_in_use eo t pool\<rparr>) st in
              if st_pool_in_use (g_stats st) \<noteq> 0
              then Some (if first_error \<noteq> 0 then first_error else - EBUSY, st, calls)
              else Some (first_error, on_stats (\<lambda>x. x\<lparr>st_pool_freed := 1\<rparr>) (st\<lparr>g_pool := None\<rparr>),
                calls @ [Call_pool_free pool])
            else Some (first_error, st, calls)
        | None \<Rightarrow> Some (first_error, st, calls))
     } }"

end
