(* ===== verification/Dp_Setup.thy ===== *)
theory Dp_Setup
  imports Dp_Port
begin

text \<open>
  What set-up and teardown achieve: the assignment of cores and queues to workers, the state and
  the calls of a successful set-up, and what a teardown leaves.
\<close>

section \<open>Lemmas: workers\<close>

lemma assign_lcores_runs:
  assumes "n \<le> length ws" "next_id \<le> n"
  shows "\<exists>ws'. assign_lcores main n lcores next_id ws =
      Some (if next_id + length (filter (\<lambda>l. l \<noteq> main) lcores) \<le> n then None else Some (- EINVAL),
        min n (next_id + length (filter (\<lambda>l. l \<noteq> main) lcores)), ws') \<and> length ws' = length ws \<and>
    (\<forall>i < length ws. ws' ! i =
       (if next_id \<le> i \<and> i < min n (next_id + length (filter (\<lambda>l. l \<noteq> main) lcores))
        then (ws ! i)\<lparr>wc_info := (wc_info (ws ! i))\<lparr>wi_worker_id := word_of_nat i,
          wi_lcore_id := filter (\<lambda>l. l \<noteq> main) lcores ! (i - next_id)\<rparr>\<rparr>
        else ws ! i))"
  using assms
proof (induction lcores arbitrary: next_id ws)
  case Nil
  then show ?case by auto
next
  case (Cons l lcores)
  consider "l = main" | "l \<noteq> main" "n \<le> next_id" | "l \<noteq> main" "next_id < n" by linarith
  then show ?case
  proof cases
    case 1
    then have e: "assign_lcores main n (l # lcores) next_id ws = assign_lcores main n lcores next_id ws"
      "filter (\<lambda>l. l \<noteq> main) (l # lcores) = filter (\<lambda>l. l \<noteq> main) lcores" by simp_all
    show ?thesis unfolding e by (rule Cons.IH [OF Cons.prems])
  next
    case 2
    then show ?thesis using Cons.prems by (intro exI [of _ ws]) auto
  next
    case 3
    let ?w = "(ws ! next_id)\<lparr>wc_info := (wc_info (ws ! next_id))\<lparr>wi_worker_id := word_of_nat next_id, wi_lcore_id := l\<rparr>\<rparr>"
    let ?os = "filter (\<lambda>l. l \<noteq> main) lcores"
    have "n \<le> length (ws[next_id := ?w])" "next_id + 1 \<le> n" using 3 Cons.prems by auto
    from Cons.IH [OF this] obtain ws' where ih: "assign_lcores main n lcores (next_id + 1) (ws[next_id := ?w]) =
        Some (if next_id + 1 + length ?os \<le> n then None else Some (- EINVAL), min n (next_id + 1 + length ?os), ws')"
      "length ws' = length ws"
      "\<And>i. i < length ws \<Longrightarrow> ws' ! i = (if next_id + 1 \<le> i \<and> i < min n (next_id + 1 + length ?os)
        then (ws[next_id := ?w] ! i)\<lparr>wc_info := (wc_info (ws[next_id := ?w] ! i))\<lparr>wi_worker_id := word_of_nat i,
          wi_lcore_id := ?os ! (i - (next_id + 1))\<rparr>\<rparr>
        else ws[next_id := ?w] ! i)"
      by auto
    have "assign_lcores main n (l # lcores) next_id ws = assign_lcores main n lcores (next_id + 1) (ws[next_id := ?w])"
      using 3 Cons.prems by (simp add: mem_simps)
    moreover have "ws' ! i = (if next_id \<le> i \<and> i < min n (next_id + length (l # ?os))
        then (ws ! i)\<lparr>wc_info := (wc_info (ws ! i))\<lparr>wi_worker_id := word_of_nat i,
          wi_lcore_id := (l # ?os) ! (i - next_id)\<rparr>\<rparr>
        else ws ! i)" if "i < length ws" for i
    proof (cases "i = next_id")
      case True
      then show ?thesis using ih(3) [OF that] that 3 by simp
    next
      case False
      then show ?thesis using ih(3) [OF that] that 3
        by (auto simp: nth_Cons' not_less_eq_eq Suc_le_eq)
    qed
    ultimately show ?thesis using ih(1,2) 3 by (intro exI [of _ ws']) auto
  qed
qed

definition queued :: "nat \<Rightarrow> dp_worker_ctx \<Rightarrow> dp_worker_ctx" where
  "queued i w = w\<lparr>wc_info := (wc_info w)\<lparr>wi_rx_queue_id := word_of_nat i, wi_tx_queue_id := word_of_nat i\<rparr>,
     wc_result := 0, wc_launched := False, wc_reader_registered := False\<rparr>"

definition queued_range :: "nat \<Rightarrow> nat \<Rightarrow> dp_worker_ctx list \<Rightarrow> dp_worker_ctx list" where
  "queued_range i k ws = map (\<lambda>j. if i \<le> j \<and> j < i + k then queued j (ws ! j) else ws ! j) [0..<length ws]"

definition info_range :: "nat \<Rightarrow> nat \<Rightarrow> dp_worker_ctx list \<Rightarrow> dp_worker_info list \<Rightarrow> dp_worker_info list" where
  "info_range i k ws infos =
     map (\<lambda>j. if i \<le> j \<and> j < i + k then wc_info (queued j (ws ! j)) else infos ! j) [0..<length infos]"

lemma range_0: "queued_range i 0 ws = ws" "info_range i 0 ws infos = infos"
  by (auto simp: queued_range_def info_range_def intro!: nth_equalityI)

lemma range_Suc:
  assumes "i < length ws" "i < length infos"
  shows "queued_range (i + 1) k (ws[i := queued i (ws ! i)]) = queued_range i (Suc k) ws"
    "info_range (i + 1) k (ws[i := queued i (ws ! i)]) (infos[i := wc_info (queued i (ws ! i))]) =
      info_range i (Suc k) ws infos"
  using assms by (auto simp: queued_range_def info_range_def nth_list_update intro!: nth_equalityI)

definition sockets_ok :: "eal_ops \<Rightarrow> int \<Rightarrow> dp_worker_ctx list \<Rightarrow> bool" where
  "sockets_ok el socket ws \<longleftrightarrow> (\<forall>w \<in> set ws. el_lcore_socket el (wi_lcore_id (wc_info w)) = socket)"

lemma assign_queues_runs:
  assumes "i + k \<le> length (g_workers st)" "i + k \<le> length (ri_workers (g_info st))"
  shows "if sockets_ok el (ri_socket_id (g_info st)) (take k (drop i (g_workers st)))
    then assign_queues el i k st = Some (0, st\<lparr>g_workers := queued_range i k (g_workers st),
      g_info := (g_info st)\<lparr>ri_workers := info_range i k (g_workers st) (ri_workers (g_info st))\<rparr>\<rparr>)
    else \<exists>ws infos. assign_queues el i k st =
      Some (- EXDEV, st\<lparr>g_workers := ws, g_info := (g_info st)\<lparr>ri_workers := infos\<rparr>\<rparr>) \<and>
      length ws = length (g_workers st) \<and> length infos = length (ri_workers (g_info st))"
  using assms
proof (induction k arbitrary: i st)
  case 0
  then show ?case by (simp add: sockets_ok_def range_0)
next
  case (Suc k)
  let ?ws = "g_workers st" and ?info = "g_info st"
  let ?sock = "ri_socket_id ?info"
  have i: "i < length ?ws" "i < length (ri_workers ?info)" using Suc.prems by auto
  have split: "take (Suc k) (drop i ?ws) = ?ws ! i # take k (drop (i + 1) ?ws)"
    using i by (simp add: Cons_nth_drop_Suc [symmetric])
  show ?case
  proof (cases "el_lcore_socket el (wi_lcore_id (wc_info (?ws ! i))) = ?sock")
    case False
    have "assign_queues el i (Suc k) st =
        Some (- EXDEV, st\<lparr>g_workers := ?ws, g_info := ?info\<lparr>ri_workers := ri_workers ?info\<rparr>\<rparr>)"
      using False i by (simp add: mem_simps validate_worker_socket_def errno_simps)
    moreover have "\<not> sockets_ok el ?sock (take (Suc k) (drop i ?ws))"
      using False split by (simp add: sockets_ok_def)
    ultimately show ?thesis by (simp only: if_False) blast
  next
    case True
    let ?st = "st\<lparr>g_workers := ?ws[i := queued i (?ws ! i)],
      g_info := ?info\<lparr>ri_workers := (ri_workers ?info)[i := wc_info (queued i (?ws ! i))]\<rparr>\<rparr>"
    have step: "assign_queues el i (Suc k) st = assign_queues el (i + 1) k ?st"
      using True i by (simp add: mem_simps validate_worker_socket_def queued_def Let_def)
    have ok: "sockets_ok el ?sock (take (Suc k) (drop i ?ws)) =
        sockets_ok el (ri_socket_id (g_info ?st)) (take k (drop (i + 1) (g_workers ?st)))"
      unfolding split using True by (simp add: sockets_ok_def)
    have len: "i + 1 + k \<le> length (g_workers ?st)" "i + 1 + k \<le> length (ri_workers (g_info ?st))"
      using Suc.prems by simp_all
    show ?thesis
    proof (cases "sockets_ok el ?sock (take (Suc k) (drop i ?ws))")
      case good: True
      then have "assign_queues el (i + 1) k ?st = Some (0, ?st\<lparr>g_workers := queued_range (i + 1) k (g_workers ?st),
          g_info := (g_info ?st)\<lparr>ri_workers := info_range (i + 1) k (g_workers ?st) (ri_workers (g_info ?st))\<rparr>\<rparr>)"
        using Suc.IH [OF len] unfolding ok by (simp only: if_True)
      then show ?thesis unfolding step using good range_Suc [OF i, of k] by simp
    next
      case bad: False
      then have "\<exists>ws infos. assign_queues el (i + 1) k ?st =
          Some (- EXDEV, ?st\<lparr>g_workers := ws, g_info := (g_info ?st)\<lparr>ri_workers := infos\<rparr>\<rparr>) \<and>
          length ws = length (g_workers ?st) \<and> length infos = length (ri_workers (g_info ?st))"
        using Suc.IH [OF len] unfolding ok by (simp only: if_False)
      then obtain ws infos where "assign_queues el (i + 1) k ?st =
          Some (- EXDEV, ?st\<lparr>g_workers := ws, g_info := (g_info ?st)\<lparr>ri_workers := infos\<rparr>\<rparr>)"
        "length ws = length (g_workers ?st)" "length infos = length (ri_workers (g_info ?st))" by blast
      then have "assign_queues el (i + 1) k ?st = Some (- EXDEV, st\<lparr>g_workers := ws, g_info := ?info\<lparr>ri_workers := infos\<rparr>\<rparr>) \<and>
          length ws = length ?ws \<and> length infos = length (ri_workers ?info)" by simp
      then show ?thesis unfolding step using bad by (simp only: if_False) blast
    qed
  qed
qed

text \<open>The cores in the order the workers get them, and the context and identity of worker \<open>i\<close>.\<close>

definition worker_lcores :: "u32 \<Rightarrow> u32 list \<Rightarrow> u32 list" where
  "worker_lcores main lcores = main # filter (\<lambda>l. l \<noteq> main) lcores"

definition worker_info_of :: "nat \<Rightarrow> u32 \<Rightarrow> dp_worker_info" where
  "worker_info_of i lcore = \<lparr>wi_worker_id = word_of_nat i, wi_lcore_id = lcore,
     wi_rx_queue_id = word_of_nat i, wi_tx_queue_id = word_of_nat i\<rparr>"

definition fresh_worker :: "nat \<Rightarrow> u32 \<Rightarrow> dp_worker_ctx" where
  "fresh_worker i lcore = zero_worker_ctx\<lparr>wc_info := worker_info_of i lcore\<rparr>"

definition workers_fit :: "eal_ops \<Rightarrow> u32 \<Rightarrow> ('h, 'l, 'q) dp_state \<Rightarrow> bool" where
  "workers_fit el n st \<longleftrightarrow> n \<noteq> 0 \<and> unat n \<le> DP_MAX_WORKERS \<and> ri_lcore_count (g_info st) = n \<and>
     length (worker_lcores (ri_main_lcore (g_info st)) (el_lcores el)) = unat n"

definition workers_ready ::
  "eal_ops \<Rightarrow> u32 \<Rightarrow> ('h, 'l, 'q) dp_state \<Rightarrow> ('h, 'l, 'q) dp_state \<Rightarrow> bool" where
  "workers_ready el n st st' \<longleftrightarrow>
     (let ls = worker_lcores (ri_main_lcore (g_info st)) (el_lcores el) in
      st' = st\<lparr>g_worker_count := n,
        g_workers := map (\<lambda>i. fresh_worker i (ls ! i)) [0..<unat n] @ replicate (DP_MAX_WORKERS - unat n) zero_worker_ctx,
        g_info := (g_info st)\<lparr>ri_worker_count := n,
          ri_workers := map (\<lambda>i. worker_info_of i (ls ! i)) [0..<unat n] @ drop (unat n) (ri_workers (g_info st))\<rparr>\<rparr>)"

text \<open>What every outcome leaves alone.\<close>

definition workers_frame :: "('h, 'l, 'q) dp_state \<Rightarrow> ('h, 'l, 'q) dp_state \<Rightarrow> bool" where
  "workers_frame st st' \<longleftrightarrow> (\<exists>ws n info. st' = st\<lparr>g_worker_count := n, g_workers := ws, g_info := info\<rparr> \<and>
     length (ri_workers info) = length (ri_workers (g_info st)) \<and> ri_lcore_count info = ri_lcore_count (g_info st) \<and>
     (n = g_worker_count st \<and> ws = g_workers st \<or> unat n \<le> DP_MAX_WORKERS \<and> length ws = DP_MAX_WORKERS))"

lemma setup_workers_runs:
  assumes len: "length (ri_workers (g_info st)) = DP_MAX_WORKERS"
  shows "\<exists>ret st'. setup_workers el n st = Some (ret, st') \<and> ret \<le> 0 \<and>
    (ret = 0 \<longleftrightarrow> workers_fit el n st \<and>
       (\<forall>l \<in> set (worker_lcores (ri_main_lcore (g_info st)) (el_lcores el)). el_lcore_socket el l = ri_socket_id (g_info st))) \<and>
    (ret = 0 \<longrightarrow> workers_ready el n st st') \<and> workers_frame st st'"
proof (cases "n = 0 \<or> unat n > DP_MAX_WORKERS \<or> ri_lcore_count (g_info st) \<noteq> n")
  case True
  have "st = st\<lparr>g_worker_count := g_worker_count st, g_workers := g_workers st, g_info := g_info st\<rparr>" by simp
  then have "workers_frame st st" unfolding workers_frame_def by blast
  then show ?thesis
    using True by (intro exI [of _ "- EINVAL"] exI [of _ st]) (auto simp: setup_workers_def workers_fit_def errno_simps)
next
  case False
  let ?main = "ri_main_lcore (g_info st)"
  let ?os = "filter (\<lambda>l. l \<noteq> ?main) (el_lcores el)" and ?ls = "worker_lcores ?main (el_lcores el)"
  let ?k = "unat n"
  let ?info = "(g_info st)\<lparr>ri_worker_count := n\<rparr>"
  let ?ws = "(replicate DP_MAX_WORKERS zero_worker_ctx)[0 := zero_worker_ctx\<lparr>wc_info := zero_worker_info\<lparr>wi_worker_id := 0,
      wi_lcore_id := ?main\<rparr>\<rparr>]"
  have n: "0 < ?k" "?k \<le> DP_MAX_WORKERS" using False by (auto simp: word_unat_eq_iff)
  then have "?k \<le> length ?ws" "1 \<le> ?k" by simp_all
  from assign_lcores_runs [OF this, of ?main "el_lcores el"] obtain ws where al:
    "assign_lcores ?main ?k (el_lcores el) 1 ?ws = Some (if 1 + length ?os \<le> ?k then None else Some (- EINVAL),
       min ?k (1 + length ?os), ws)" "length ws = DP_MAX_WORKERS"
    "\<And>i. i < DP_MAX_WORKERS \<Longrightarrow> ws ! i = (if 1 \<le> i \<and> i < min ?k (1 + length ?os)
        then (?ws ! i)\<lparr>wc_info := (wc_info (?ws ! i))\<lparr>wi_worker_id := word_of_nat i, wi_lcore_id := ?os ! (i - 1)\<rparr>\<rparr>
        else ?ws ! i)"
    by auto
  let ?st = "st\<lparr>g_worker_count := n, g_info := ?info, g_workers := ws\<rparr>"
  have main: "setup_workers el n st = (if 1 + length ?os \<noteq> ?k then Some (- EINVAL, ?st) else assign_queues el 0 ?k ?st)"
    using False al(1) n(2) by (simp add: setup_workers_def mem_simps DP_MAX_WORKERS_def zero_worker_ctx_def)
  have frame: "workers_frame st (?st\<lparr>g_workers := ws', g_info := i'\<rparr>)" if "length ws' = DP_MAX_WORKERS" "length (ri_workers i') = DP_MAX_WORKERS" "ri_lcore_count i' = ri_lcore_count (g_info st)"
    for ws' i'
    unfolding workers_frame_def using n(2) that len
    by (intro exI [of _ ws'] exI [of _ n] exI [of _ i']) simp
  show ?thesis
  proof (cases "1 + length ?os = ?k")
    case False
    have "?st = ?st\<lparr>g_workers := ws, g_info := ?info\<rparr>" by (rule dp_state.equality) simp_all
    moreover have "workers_frame st (?st\<lparr>g_workers := ws, g_info := ?info\<rparr>)"
      by (rule frame) (simp_all add: al(2) len)
    ultimately have "workers_frame st ?st" by (simp only:)
    then show ?thesis
      unfolding main using False
      by (intro exI [of _ "- EINVAL"] exI [of _ ?st]) (auto simp: workers_fit_def worker_lcores_def errno_simps)
  next
    case eq: True
    have ls: "length ?ls = ?k" using eq by (simp add: worker_lcores_def)
    have w: "ws ! i = zero_worker_ctx\<lparr>wc_info := zero_worker_info\<lparr>wi_worker_id := word_of_nat i, wi_lcore_id := ?ls ! i\<rparr>\<rparr>"
      if "i < ?k" for i
      using al(3) [of i] that n(2) eq
      by (cases i) (auto simp: worker_lcores_def zero_worker_ctx_def nth_list_update)
    have z: "ws ! i = zero_worker_ctx" if "?k \<le> i" "i < DP_MAX_WORKERS" for i
      using al(3) [of i] that n(1) eq by (auto simp: nth_list_update)
    have lens: "0 + ?k \<le> length (g_workers ?st)" "0 + ?k \<le> length (ri_workers (g_info ?st))"
      using al(2) len n(2) by simp_all
    have "map (\<lambda>w. wi_lcore_id (wc_info w)) (take ?k ws) = ?ls"
      using w ls al(2) n(2) by (intro nth_equalityI) auto
    then have set: "(\<lambda>w. wi_lcore_id (wc_info w)) ` set (take ?k ws) = set ?ls"
      by (metis set_map)
    have ok: "sockets_ok el (ri_socket_id (g_info ?st)) (take ?k (drop 0 (g_workers ?st))) \<longleftrightarrow>
        (\<forall>l \<in> set ?ls. el_lcore_socket el l = ri_socket_id (g_info st))"
      unfolding set [symmetric] by (simp add: sockets_ok_def)
    have fit: "workers_fit el n st" using False ls by (simp add: workers_fit_def)
    have q: "queued i (ws ! i) = fresh_worker i (?ls ! i)" if "i < ?k" for i
      using w [OF that] by (simp add: queued_def fresh_worker_def worker_info_of_def zero_worker_ctx_def zero_worker_info_def)
    have finished: "queued_range 0 ?k ws = map (\<lambda>i. fresh_worker i (?ls ! i)) [0..<?k] @ replicate (DP_MAX_WORKERS - ?k) zero_worker_ctx"
      "info_range 0 ?k ws infos = map (\<lambda>i. worker_info_of i (?ls ! i)) [0..<?k] @ drop ?k infos"
      if "length infos = DP_MAX_WORKERS" for infos
      using al(2) n(2) q z that
      by (auto simp: queued_range_def info_range_def nth_append fresh_worker_def intro!: nth_equalityI)
    show ?thesis
    proof (cases "\<forall>l \<in> set ?ls. el_lcore_socket el l = ri_socket_id (g_info st)")
      case good: True
      then have run: "assign_queues el 0 ?k ?st = Some (0, ?st\<lparr>g_workers := queued_range 0 ?k ws,
          g_info := ?info\<lparr>ri_workers := info_range 0 ?k ws (ri_workers (g_info st))\<rparr>\<rparr>)"
        using assign_queues_runs [OF lens, of el] ok by simp
      have l: "length (queued_range 0 ?k ws) = DP_MAX_WORKERS" using al(2) by (simp add: queued_range_def)
      have fr: "workers_frame st (?st\<lparr>g_workers := queued_range 0 ?k ws,
          g_info := ?info\<lparr>ri_workers := info_range 0 ?k ws (ri_workers (g_info st))\<rparr>\<rparr>)"
        by (rule frame [OF l]) (simp_all add: info_range_def len)
      have "workers_ready el n st (?st\<lparr>g_workers := queued_range 0 ?k ws,
          g_info := ?info\<lparr>ri_workers := info_range 0 ?k ws (ri_workers (g_info st))\<rparr>\<rparr>)"
        unfolding workers_ready_def Let_def finished [OF len] by simp
      then show ?thesis
        unfolding main using good fit eq run fr by simp
    next
      case bad: False
      then have "\<exists>ws' infos. assign_queues el 0 ?k ?st =
          Some (- EXDEV, ?st\<lparr>g_workers := ws', g_info := (g_info ?st)\<lparr>ri_workers := infos\<rparr>\<rparr>) \<and>
          length ws' = length (g_workers ?st) \<and> length infos = length (ri_workers (g_info ?st))"
        using assign_queues_runs [OF lens, of el] unfolding ok by (simp only: if_False)
      then obtain ws' infos where "assign_queues el 0 ?k ?st =
          Some (- EXDEV, ?st\<lparr>g_workers := ws', g_info := ?info\<lparr>ri_workers := infos\<rparr>\<rparr>)" "length ws' = DP_MAX_WORKERS"
        "length infos = DP_MAX_WORKERS"
        using al(2) len by auto
      then show ?thesis
        unfolding main using bad fit eq frame [of ws' "?info\<lparr>ri_workers := infos\<rparr>"] len
        by (intro exI [of _ "- EXDEV"]) (auto simp: errno_simps)
    qed
  qed
qed

section \<open>Lemmas: ports\<close>

text \<open>The calls that set up a port with \<open>n\<close> queues in each direction.\<close>

definition queue_calls :: "u16 \<Rightarrow> nat \<Rightarrow> nat \<Rightarrow> port_call list" where
  "queue_calls port i k =
     concat (map (\<lambda>q. [Call_rx_queue port (word_of_nat q), Call_tx_queue port (word_of_nat q)]) [i..<i + k])"

definition port_calls :: "u16 \<Rightarrow> u32 \<Rightarrow> port_call list" where
  "port_calls port n = Call_configure port n n # queue_calls port 0 (unat n) @ [Call_start port]"

lemma setup_queues_runs:
  "case setup_queues eo th index port rx tx socket pool i k calls of
     (None, calls') \<Rightarrow> calls' = calls @ queue_calls port i k
   | (Some ret, _) \<Rightarrow> ret < 0"
proof (induction k arbitrary: i calls)
  case 0
  then show ?case by (simp add: queue_calls_def)
next
  case (Suc k)
  have "[i..<i + Suc k] = i # [i + 1..<i + 1 + k]" by (simp add: upt_conv_Cons)
  then have "queue_calls port i (Suc k) =
      [Call_rx_queue port (word_of_nat i), Call_tx_queue port (word_of_nat i)] @ queue_calls port (i + 1) k"
    by (simp add: queue_calls_def)
  then have split: "calls @ queue_calls port i (Suc k) =
      (calls @ [Call_rx_queue port (word_of_nat i), Call_tx_queue port (word_of_nat i)]) @ queue_calls port (i + 1) k"
    by simp
  show ?case
    using Suc.IH [where i = "i + 1" and calls = "calls @ [Call_rx_queue port (word_of_nat i), Call_tx_queue port (word_of_nat i)]"]
    unfolding split by (simp add: Let_def errno_simps)
qed

lemma setup_port_cases:
  "(\<exists>ret calls'. setup_port eo th i st calls = (ret, st, calls') \<and> ret < 0) \<or>
   (\<exists>info. setup_port eo th i st calls = (0, st\<lparr>g_started := (g_started st)(i := True), g_info := info\<rparr>,
      calls @ port_calls (g_ports st i) (g_worker_count st)) \<and>
      ri_workers info = ri_workers (g_info st))"
proof -
  obtain e rx tx where adj: "eo_adjust eo (g_ports st i) 256 256 = (e, rx, tx)" by (cases "eo_adjust eo (g_ports st i) 256 256")
  let ?calls = "calls @ [Call_configure (g_ports st i) (g_worker_count st) (g_worker_count st)]"
  obtain q calls' where q: "setup_queues eo th i (g_ports st i) rx tx (ri_socket_id (g_info st)) (g_pool st) 0
      (unat (g_worker_count st)) ?calls = (q, calls')" by fastforce
  show ?thesis
    using setup_queues_runs [where eo = eo and th = th and index = i and port = "g_ports st i" and rx = rx and
        tx = tx and socket = "ri_socket_id (g_info st)" and pool = "g_pool st" and i = 0 and
        k = "unat (g_worker_count st)" and calls = ?calls] adj q
    by (cases q) (auto simp: setup_port_def Let_def port_calls_def)
qed

text \<open>
  What the code relies on of a device: errors are negative numbers, and a device that could not be
  stopped cannot be closed.
\<close>

lemma check_device_neg: "check_device eo n p = Some ret \<Longrightarrow> ret < 0"
  by (auto simp: check_device_def errno_simps split: if_splits prod.splits)

locale eth_laws =
  fixes eo :: eth_ops
  assumes stop_result: "eo_stop eo t p \<le> 0"
    and close_result: "eo_close eo t p \<le> 0"
    and close_started: "eo_stop eo t p < 0 \<Longrightarrow> eo_close eo t p < 0"
    and errno_result: "0 \<le> eo_errno eo"

definition ports_inv :: "('h, 'l, 'q) dp_state \<Rightarrow> bool" where
  "ports_inv st \<longleftrightarrow> length (g_workers st) = DP_MAX_WORKERS \<and> length (ri_workers (g_info st)) = DP_MAX_WORKERS \<and>
     length (st_workers (g_stats st)) = DP_MAX_WORKERS \<and> unat (g_worker_count st) \<le> DP_MAX_WORKERS \<and>
     (g_started st 0 \<longrightarrow> g_owned st 0) \<and> (g_started st 1 \<longrightarrow> g_owned st 1) \<and>
     (g_ready st \<longrightarrow> g_initialized st \<and> g_pool st \<noteq> None \<and> g_started st 0 \<and> g_started st 1)"

lemma ports_inv_start: "ports_inv dp_start"
  by (simp add: ports_inv_def dp_start_def zero_info_def zero_stats_def dp_packet_stats.extend_def)

text \<open>The fields a set-up or teardown never touches, outside the rules.\<close>

definition runs_frame :: "('h, 'l, 'q) dp_state \<Rightarrow> ('h, 'l, 'q) dp_state \<Rightarrow> bool" where
  "runs_frame st st' \<longleftrightarrow> rules_frame st st' \<and> g_initialized st' = g_initialized st \<and> g_running st' = g_running st \<and>
     g_ran st' = g_ran st \<and> g_attempted st' = g_attempted st"

lemma find_ports_cases:
  "\<exists>ret p. find_ports eo n rxd txd st = (ret, st\<lparr>g_ports := p\<rparr>) \<and> ret \<le> 0 \<and> (ret = 0 \<longrightarrow> p 0 \<noteq> p 1)"
proof -
  obtain r0 p0 where p0: "eo_port_by_name eo rxd = (r0, p0)" by fastforce
  obtain r1 p1 where p1: "eo_port_by_name eo txd = (r1, p1)" by fastforce
  let ?p0 = "(g_ports st)(0 := p0)"
  let ?p1 = "?p0(1 := p1)"
  have s: "st = st\<lparr>g_ports := g_ports st\<rparr>" by simp
  consider "r0 < 0" | "\<not> r0 < 0" "r1 < 0" | "\<not> r0 < 0" "\<not> r1 < 0" by blast
  then show ?thesis
  proof cases
    case 1
    then show ?thesis using s by (intro exI [of _ r0] exI [of _ "g_ports st"]) (simp add: find_ports_def p0)
  next
    case 2
    then show ?thesis by (intro exI [of _ r1] exI [of _ ?p0]) (simp add: find_ports_def p0 p1)
  next
    case 3
    have "find_ports eo n rxd txd st = (if p0 = p1 then - EINVAL
        else case check_device eo n p0 of Some ret \<Rightarrow> ret
        | None \<Rightarrow> (case check_device eo n p1 of Some ret \<Rightarrow> ret | None \<Rightarrow> 0), st\<lparr>g_ports := ?p1\<rparr>)"
      using 3 by (simp add: find_ports_def p0 p1 split: option.splits)
    then show ?thesis
      using check_device_neg [of eo n]
      by (intro exI [of _ "if p0 = p1 then - EINVAL
        else case check_device eo n p0 of Some ret \<Rightarrow> ret
        | None \<Rightarrow> (case check_device eo n p1 of Some ret \<Rightarrow> ret | None \<Rightarrow> 0)"] exI [of _ ?p1])
        (auto simp: errno_simps less_imp_le split: option.splits)
  qed
qed

context eth_laws
begin

lemma claim_ports_cases:
  assumes inv: "ports_inv st" and start: "\<not> g_ready st" "g_initialized st"
  shows "\<exists>ret st' calls. claim_ports eo th st = (ret, st', calls) \<and> ret \<le> 0 \<and> ports_inv st' \<and> runs_frame st st' \<and>
    g_ready st' = (ret = 0) \<and> g_workers st' = g_workers st \<and> g_worker_count st' = g_worker_count st \<and>
    ri_workers (g_info st') = ri_workers (g_info st) \<and> g_ports st' = g_ports st \<and>
    (ret = 0 \<longrightarrow> calls = port_calls (g_ports st 0) (g_worker_count st) @ port_calls (g_ports st 1) (g_worker_count st))"
proof -
  define st3 where "st3 = st\<lparr>g_owned := (g_owned st)(0 := True, 1 := True),
    g_info := (g_info st)\<lparr>ri_rx_port := g_ports st 0, ri_tx_port := g_ports st 1, ri_nb_mbuf := word_of_nat DP_NB_MBUF,
      ri_cache_size := word_of_nat DP_CACHE_SIZE\<rparr>,
    g_pool := eo_pool_create eo ''flow_router_pool'' DP_NB_MBUF DP_CACHE_SIZE (ri_socket_id (g_info st))\<rparr>"
  have g3: "ports_inv st3" "runs_frame st st3" "\<not> g_ready st3" "g_initialized st3" "g_workers st3 = g_workers st"
    "g_worker_count st3 = g_worker_count st" "ri_workers (g_info st3) = ri_workers (g_info st)"
    "g_ports st3 = g_ports st" "g_owned st3 0" "g_owned st3 1"
    using inv start by (simp_all add: st3_def ports_inv_def runs_frame_def rules_frame_def)
  have unf: "claim_ports eo th st = (if g_pool st3 = None then (errno_or (eo_errno eo) ENOMEM, st3, [])
      else let (ret, st, calls) = setup_port eo th 0 st3 [] in
        if ret < 0 then (ret, st, calls)
        else let (ret, st, calls) = setup_port eo th 1 st calls in
          if ret < 0 then (ret, st, calls) else (0, st\<lparr>g_ready := True\<rparr>, calls))"
    unfolding claim_ports_def Let_def st3_def by simp
  have fail: ?thesis if "claim_ports eo th st = (r, st3\<lparr>g_started := s, g_info := i\<rparr>, c)" "r < 0"
    "ri_workers i = ri_workers (g_info st)" for r s i c
    using that g3 by (simp add: ports_inv_def runs_frame_def rules_frame_def)
  have id3: "st3 = st3\<lparr>g_started := g_started st3, g_info := g_info st3\<rparr>" by simp
  show ?thesis
  proof (cases "g_pool st3")
    case None
    have "errno_or (eo_errno eo) ENOMEM < 0" by (rule errno_or_neg [OF errno_result]) (simp add: errno_simps)
    moreover have "claim_ports eo th st = (errno_or (eo_errno eo) ENOMEM, st3\<lparr>g_started := g_started st3, g_info := g_info st3\<rparr>, [])"
      using None by (simp add: unf)
    ultimately show ?thesis using fail g3(7) by blast
  next
    case (Some pool)
    from setup_port_cases [of eo th 0 st3 "[]"] show ?thesis
    proof (elim disjE exE conjE)
      fix ret calls
      assume "setup_port eo th 0 st3 [] = (ret, st3, calls)" "ret < 0"
      then have "claim_ports eo th st = (ret, st3\<lparr>g_started := g_started st3, g_info := g_info st3\<rparr>, calls)"
        using Some by (simp add: unf)
      then show ?thesis using fail \<open>ret < 0\<close> g3(7) by blast
    next
      fix info0
      let ?st4 = "st3\<lparr>g_started := (g_started st3)(0 := True), g_info := info0\<rparr>"
      let ?c0 = "port_calls (g_ports st3 0) (g_worker_count st3)"
      assume s0: "setup_port eo th 0 st3 [] = (0, ?st4, [] @ ?c0)" and i0: "ri_workers info0 = ri_workers (g_info st3)"
      from setup_port_cases [of eo th 1 ?st4 ?c0] show ?thesis
      proof (elim disjE exE conjE)
        fix ret calls
        assume s1: "setup_port eo th 1 ?st4 ?c0 = (ret, ?st4, calls)" "ret < 0"
        have "claim_ports eo th st = (ret, ?st4, calls)" using Some s0 s1 by (simp add: unf)
        moreover have "ri_workers info0 = ri_workers (g_info st)" unfolding i0 by (rule g3(7))
        ultimately show ?thesis by (rule fail [OF _ s1(2)])
      next
        fix info1
        assume s1: "setup_port eo th 1 ?st4 ?c0 = (0, ?st4\<lparr>g_started := (g_started ?st4)(1 := True), g_info := info1\<rparr>,
            ?c0 @ port_calls (g_ports ?st4 1) (g_worker_count ?st4))" and i1: "ri_workers info1 = ri_workers (g_info ?st4)"
        have "claim_ports eo th st = (0, st3\<lparr>g_started := (g_started st3)(0 := True, 1 := True), g_info := info1,
            g_ready := True\<rparr>, ?c0 @ port_calls (g_ports st3 1) (g_worker_count st3))"
          using Some s0 s1 by (simp add: unf)
        then show ?thesis
          using g3 i0 i1 Some by (simp add: ports_inv_def runs_frame_def rules_frame_def)
      qed
    qed
  qed
qed

lemma dp_dataplane_setup_cases:
  assumes inv: "ports_inv st"
  shows "\<exists>ret st' calls. dp_dataplane_setup el eo th rx_device tx_device n st = Some (ret, st', calls) \<and> ret \<le> 0 \<and>
    ports_inv st' \<and> runs_frame st st' \<and> (ret < 0 \<longrightarrow> g_ready st' = g_ready st) \<and>
    (ret = 0 \<longrightarrow> g_ready st' \<and> \<not> g_ready st \<and> g_initialized st \<and> g_rules_configured st \<and> g_pool st = None \<and>
       g_ports st' 0 \<noteq> g_ports st' 1 \<and> workers_fit el n st \<and> g_worker_count st' = n \<and>
       (\<exists>s. workers_ready el n st s \<and> g_workers st' = g_workers s \<and> ri_workers (g_info st') = ri_workers (g_info s)) \<and>
       calls = port_calls (g_ports st' 0) n @ port_calls (g_ports st' 1) n)"
proof (cases "\<not> g_initialized st \<or> g_pool st \<noteq> None \<or> g_ready st \<or> \<not> g_rules_configured st \<or>
    rx_device = None \<or> tx_device = None")
  case True
  then have "\<exists>ret. dp_dataplane_setup el eo th rx_device tx_device n st = Some (ret, st, []) \<and> ret < 0"
    by (auto simp: dp_dataplane_setup_def errno_simps split: option.splits)
  moreover have "runs_frame st st" by (simp add: runs_frame_def rules_frame_def)
  ultimately show ?thesis using inv by (metis less_le)
next
  case False
  then obtain rxd txd where dev: "rx_device = Some rxd" "tx_device = Some txd" by auto
  have start: "\<not> g_ready st" "g_initialized st" "g_rules_configured st" "g_pool st = None" using False by auto
  have len: "length (ri_workers (g_info st)) = DP_MAX_WORKERS" using inv by (simp add: ports_inv_def)
  obtain ret1 st1 where w: "setup_workers el n st = Some (ret1, st1)" "ret1 \<le> 0" "workers_frame st st1"
    "ret1 = 0 \<Longrightarrow> workers_fit el n st" "ret1 = 0 \<Longrightarrow> workers_ready el n st st1"
    using setup_workers_runs [OF len, of el n] by blast
  obtain ret2 p where f: "find_ports eo n rxd txd st1 = (ret2, st1\<lparr>g_ports := p\<rparr>)" "ret2 \<le> 0" "ret2 = 0 \<longrightarrow> p 0 \<noteq> p 1"
    using find_ports_cases by blast
  obtain ws m info where st1: "st1 = st\<lparr>g_worker_count := m, g_workers := ws, g_info := info\<rparr>"
    "length (ri_workers info) = DP_MAX_WORKERS" "unat m \<le> DP_MAX_WORKERS" "length ws = DP_MAX_WORKERS"
    using w(3) inv len by (auto simp: workers_frame_def ports_inv_def)
  let ?st2 = "st1\<lparr>g_ports := p\<rparr>"
  have g1: "ports_inv st1" "runs_frame st st1" "\<not> g_ready st1" "g_initialized st1"
    using inv start st1 by (simp_all add: ports_inv_def runs_frame_def rules_frame_def)
  have g2: "ports_inv ?st2" "runs_frame st ?st2" "\<not> g_ready ?st2" "g_initialized ?st2"
    using g1 by (simp_all add: ports_inv_def runs_frame_def rules_frame_def)
  obtain ret3 st3 calls where c: "claim_ports eo th ?st2 = (ret3, st3, calls)" "ret3 \<le> 0" "ports_inv st3"
    "runs_frame ?st2 st3" "g_ready st3 = (ret3 = 0)" "g_workers st3 = g_workers ?st2"
    "g_worker_count st3 = g_worker_count ?st2" "ri_workers (g_info st3) = ri_workers (g_info ?st2)" "g_ports st3 = p"
    "ret3 = 0 \<longrightarrow> calls = port_calls (p 0) (g_worker_count ?st2) @ port_calls (p 1) (g_worker_count ?st2)"
    using claim_ports_cases [OF g2(1,3,4), of th] by auto
  have run: "dp_dataplane_setup el eo th rx_device tx_device n st =
      Some (if ret1 < 0 then (ret1, st1, []) else if ret2 < 0 then (ret2, ?st2, []) else (ret3, st3, calls))"
    using start dev w(1) f(1) c(1) by (simp add: dp_dataplane_setup_def)
  consider "ret1 < 0" | "ret1 = 0" "ret2 < 0" | "ret1 = 0" "ret2 = 0" "ret3 < 0" | "ret1 = 0" "ret2 = 0" "ret3 = 0"
    using w(2) f(2) c(2) by linarith
  then show ?thesis
  proof cases
    case 1
    then show ?thesis unfolding run using g1 start(1) by simp
  next
    case 2
    then show ?thesis unfolding run using g2 start(1) by simp
  next
    case 3
    have "runs_frame st st3" using g2(2) c(4) by (simp add: runs_frame_def rules_frame_def)
    then show ?thesis unfolding run using 3 c(3,5) start(1) by simp
  next
    case 4
    have "runs_frame st st3" using g2(2) c(4) by (simp add: runs_frame_def rules_frame_def)
    moreover have "g_worker_count st1 = n" using w(5) [OF 4(1)] by (simp add: workers_ready_def Let_def)
    ultimately show ?thesis unfolding run using 4 c(3,5-10) start w(4,5) f(3) by auto
  qed
qed

end

section \<open>Lemmas: teardown\<close>

lemma dp_snapshot_free_workers:
  "dp_snapshot_free s a b st = Some st' \<Longrightarrow> st_workers (g_stats st') = st_workers (g_stats st)"
  by (auto simp: dp_snapshot_free_def Let_def rte_release_def on_stats_def split: option.splits if_splits Option.bind_splits prod.splits)

lemma dp_rules_teardown_workers:
  "dp_rules_teardown st = Some st' \<Longrightarrow> st_workers (g_stats st') = st_workers (g_stats st)"
  by (auto simp: dp_rules_teardown_def Let_def rte_release_def on_stats_def dest: dp_snapshot_free_workers
      split: if_splits Option.bind_splits)

context eth_laws
begin

lemma close_port_cases:
  assumes own: "g_started st i \<longrightarrow> g_owned st i" and fe: "fe \<le> 0"
  shows "\<exists>fe' s ow x cs. close_port eo t i fe st calls =
      (fe', st\<lparr>g_started := s, g_owned := ow, g_stats := x\<rparr>, calls @ cs) \<and> fe' \<le> 0 \<and>
    (fe' = 0 \<longrightarrow> fe = 0 \<and> \<not> ow i) \<and> (s i \<longrightarrow> ow i) \<and>
    (\<forall>j. j \<noteq> i \<longrightarrow> s j = g_started st j \<and> ow j = g_owned st j) \<and> st_workers x = st_workers (g_stats st) \<and>
    (g_owned st i \<and> \<not> ow i \<longrightarrow> Call_close (g_ports st i) \<in> set cs) \<and> (\<forall>p. Call_pool_free p \<notin> set cs)"
proof (cases "g_owned st i")
  case False
  have "st = st\<lparr>g_started := g_started st, g_owned := g_owned st, g_stats := g_stats st\<rparr>" by simp
  moreover have "close_port eo t i fe st calls = (fe, st, calls @ [])" using False by (simp add: close_port_def)
  ultimately have "close_port eo t i fe st calls =
      (fe, st\<lparr>g_started := g_started st, g_owned := g_owned st, g_stats := g_stats st\<rparr>, calls @ [])" by (simp only:)
  moreover have "fe \<le> 0 \<and> (fe = 0 \<longrightarrow> fe = 0 \<and> \<not> g_owned st i) \<and> (g_started st i \<longrightarrow> g_owned st i)"
    "\<forall>j. j \<noteq> i \<longrightarrow> g_started st j = g_started st j \<and> g_owned st j = g_owned st j"
    "st_workers (g_stats st) = st_workers (g_stats st)"
    "g_owned st i \<and> \<not> g_owned st i \<longrightarrow> Call_close (g_ports st i) \<in> set []" "\<forall>p. Call_pool_free p \<notin> set []"
    using False own fe by simp_all
  ultimately show ?thesis by blast
next
  case True
  define a where "a = eo_stop eo t (g_ports st i)"
  define c where "c = eo_close eo t (g_ports st i)"
  have ac: "a \<le> 0" "c \<le> 0" "a < 0 \<Longrightarrow> c < 0"
    using stop_result close_result close_started by (auto simp: a_def c_def)
  let ?s = "if g_started st i \<and> a = 0 then (g_started st)(i := False) else g_started st"
  let ?ow = "if c = 0 then (g_owned st)(i := False) else g_owned st"
  let ?x = "if c = 0 then (g_stats st)\<lparr>st_ports_closed := st_ports_closed (g_stats st) + 1\<rparr> else g_stats st"
  let ?fe = "if g_started st i \<and> a < 0 \<and> fe = 0 then a else fe"
  let ?fe' = "if c < 0 \<and> ?fe = 0 then c else ?fe"
  let ?cs = "(if g_started st i then [Call_stop (g_ports st i)] else []) @ [Call_close (g_ports st i)]"
  have "close_port eo t i fe st calls = (?fe', st\<lparr>g_started := ?s, g_owned := ?ow, g_stats := ?x\<rparr>, calls @ ?cs)"
    using True by (simp add: close_port_def Let_def a_def [symmetric] c_def [symmetric] on_stats_def)
  moreover have "?fe' \<le> 0 \<and> (?fe' = 0 \<longrightarrow> fe = 0 \<and> \<not> ?ow i) \<and> (?s i \<longrightarrow> ?ow i)"
    using fe ac True by auto
  moreover have "\<forall>j. j \<noteq> i \<longrightarrow> ?s j = g_started st j \<and> ?ow j = g_owned st j" by simp
  moreover have "st_workers ?x = st_workers (g_stats st)" by simp
  moreover have "Call_close (g_ports st i) \<in> set ?cs" "\<forall>p. Call_pool_free p \<notin> set ?cs" by simp_all
  ultimately show ?thesis by blast
qed

text \<open>The loop over both ports.\<close>

lemma close_ports_cases:
  assumes "g_started st 0 \<longrightarrow> g_owned st 0" "g_started st 1 \<longrightarrow> g_owned st 1"
  shows "\<exists>fe0 st1 c0 fe s ow x cs. close_port eo t 0 0 st [] = (fe0, st1, c0) \<and>
    close_port eo t 1 fe0 st1 c0 = (fe, st\<lparr>g_started := s, g_owned := ow, g_stats := x\<rparr>, cs) \<and>
    fe \<le> 0 \<and> (fe = 0 \<longrightarrow> \<not> ow 0 \<and> \<not> ow 1) \<and> (s 0 \<longrightarrow> ow 0) \<and> (s 1 \<longrightarrow> ow 1) \<and> st_workers x = st_workers (g_stats st) \<and>
    (\<forall>i < 2. g_owned st i \<and> \<not> ow i \<longrightarrow> Call_close (g_ports st i) \<in> set cs) \<and> (\<forall>p. Call_pool_free p \<notin> set cs)"
proof -
  from close_port_cases [where i = 0, OF assms(1) order_refl, where t = t and calls = "[]"]
  obtain fe0 s0 ow0 x0 cs0 where c0: "close_port eo t 0 0 st [] = (fe0, st\<lparr>g_started := s0, g_owned := ow0, g_stats := x0\<rparr>, [] @ cs0)"
    and 0: "fe0 \<le> 0" "fe0 = 0 \<longrightarrow> \<not> ow0 0" "s0 0 \<longrightarrow> ow0 0" "\<forall>j. j \<noteq> 0 \<longrightarrow> s0 j = g_started st j \<and> ow0 j = g_owned st j"
      "st_workers x0 = st_workers (g_stats st)" "g_owned st 0 \<and> \<not> ow0 0 \<longrightarrow> Call_close (g_ports st 0) \<in> set cs0"
      "\<forall>p. Call_pool_free p \<notin> set cs0" by blast
  let ?st1 = "st\<lparr>g_started := s0, g_owned := ow0, g_stats := x0\<rparr>"
  have "g_started ?st1 1 \<longrightarrow> g_owned ?st1 1" using assms(2) 0(4) by simp
  from close_port_cases [where i = 1, OF this 0(1), where t = t and calls = cs0]
  obtain fe1 s1 ow1 x1 cs1 where c1: "close_port eo t 1 fe0 ?st1 cs0 = (fe1, ?st1\<lparr>g_started := s1, g_owned := ow1, g_stats := x1\<rparr>, cs0 @ cs1)"
    and 1: "fe1 \<le> 0" "fe1 = 0 \<longrightarrow> fe0 = 0 \<and> \<not> ow1 1" "s1 1 \<longrightarrow> ow1 1" "\<forall>j. j \<noteq> 1 \<longrightarrow> s1 j = g_started ?st1 j \<and> ow1 j = g_owned ?st1 j"
      "st_workers x1 = st_workers (g_stats ?st1)" "g_owned ?st1 1 \<and> \<not> ow1 1 \<longrightarrow> Call_close (g_ports ?st1 1) \<in> set cs1"
      "\<forall>p. Call_pool_free p \<notin> set cs1" by blast
  have "\<forall>i < 2. g_owned st i \<and> \<not> ow1 i \<longrightarrow> Call_close (g_ports st i) \<in> set (cs0 @ cs1)"
    using 0(4,6) 1(4,6) by (auto simp: less_2_cases_iff)
  moreover have "\<forall>p. Call_pool_free p \<notin> set (cs0 @ cs1)" using 0(7) 1(7) by simp
  moreover have "close_port eo t 1 fe0 ?st1 cs0 = (fe1, st\<lparr>g_started := s1, g_owned := ow1, g_stats := x1\<rparr>, cs0 @ cs1)"
    using c1 by simp
  moreover have "fe1 = 0 \<longrightarrow> \<not> ow1 0 \<and> \<not> ow1 1" "s1 0 \<longrightarrow> ow1 0" using 0(2,3) 1(2,4) by auto
  moreover have "st_workers x1 = st_workers (g_stats st)" using 0(5) 1(5) by simp
  ultimately show ?thesis using c0 [simplified] 1(1,3) by blast
qed

end

text \<open>The end of the teardown, once the ports are dealt with: \<open>fe\<close> is the first error so far.\<close>

lemma teardown_pool_cases:
  assumes "fe \<le> 0" "fe = 0 \<longrightarrow> \<not> g_owned st 0 \<and> \<not> g_owned st 1"
  shows "\<exists>r p y c. (case g_pool st of
        Some pool \<Rightarrow>
          if \<not> g_owned st 0 \<and> \<not> g_owned st 1 then
            let st = on_stats (\<lambda>x. x\<lparr>st_pool_in_use := eo_in_use eo t pool\<rparr>) st in
            if st_pool_in_use (g_stats st) \<noteq> 0
            then Some (if fe \<noteq> 0 then fe else - EBUSY, st, calls)
            else Some (fe, on_stats (\<lambda>x. x\<lparr>st_pool_freed := 1\<rparr>) (st\<lparr>g_pool := None\<rparr>), calls @ [Call_pool_free pool])
          else Some (fe, st, calls)
      | None \<Rightarrow> Some (fe, st, calls)) = Some (r, st\<lparr>g_pool := p, g_stats := y\<rparr>, c) \<and>
    r \<le> 0 \<and> st_workers y = st_workers (g_stats st) \<and> (r = 0 \<longrightarrow> fe = 0 \<and> p = None) \<and>
    (p = g_pool st \<and> c = calls \<or> (\<exists>pool. g_pool st = Some pool \<and> p = None \<and> \<not> g_owned st 0 \<and> \<not> g_owned st 1 \<and>
       eo_in_use eo t pool = 0 \<and> c = calls @ [Call_pool_free pool]))"
proof -
  have same: "st\<lparr>g_pool := g_pool st, g_stats := g_stats st\<rparr> = st" by simp
  consider "g_pool st = None" | pool where "g_pool st = Some pool" "g_owned st 0 \<or> g_owned st 1"
    | pool where "g_pool st = Some pool" "\<not> g_owned st 0" "\<not> g_owned st 1" "eo_in_use eo t pool \<noteq> 0"
    | pool where "g_pool st = Some pool" "\<not> g_owned st 0" "\<not> g_owned st 1" "eo_in_use eo t pool = 0"
    by (cases "g_pool st") auto
  then show ?thesis
  proof cases
    case 3
    then show ?thesis using assms(1)
      by (intro exI [of _ "if fe \<noteq> 0 then fe else - EBUSY"] exI [of _ "g_pool st"]
          exI [of _ "(g_stats st)\<lparr>st_pool_in_use := eo_in_use eo t pool\<rparr>"] exI [of _ calls]) (simp add: on_stats_def errno_simps)
  next
    case 4
    then show ?thesis using assms(1)
      by (intro exI [of _ fe] exI [of _ None] exI [of _ "(g_stats st)\<lparr>st_pool_in_use := 0, st_pool_freed := 1\<rparr>"]
          exI [of _ "calls @ [Call_pool_free pool]"]) (simp add: on_stats_def)
  next
    case 1
    then show ?thesis using assms
      by (intro exI [of _ fe] exI [of _ "g_pool st"] exI [of _ "g_stats st"] exI [of _ calls], unfold same) simp
  next
    case 2
    then show ?thesis using assms
      by (intro exI [of _ fe] exI [of _ "g_pool st"] exI [of _ "g_stats st"] exI [of _ calls], unfold same) auto
  qed
qed

context eth_laws
begin

lemma dp_dataplane_teardown_cases:
  assumes inv: "ports_inv st" and rules: "rules_inv tv st"
  shows "\<exists>ret st' calls. dp_dataplane_teardown eo t st = Some (ret, st', calls) \<and> ret \<le> 0 \<and>
    ports_inv st' \<and> rules_inv tv st' \<and> g_initialized st' = g_initialized st \<and> g_running st' = g_running st \<and>
    (g_running st \<or> \<not> all_idle st \<longrightarrow> ret = - EBUSY \<and> st' = st \<and> calls = []) \<and>
    (\<not> g_running st \<and> all_idle st \<longrightarrow> all_idle st' \<and> \<not> g_ready st' \<and> g_active_rules st' = None \<and> g_rules_qsbr st' = None \<and>
       \<not> g_rules_configured st' \<and> g_live st' = {#} \<and>
       (ret = 0 \<longrightarrow> resources_gone st') \<and>
       (g_pool st' = g_pool st \<and> (\<forall>p. Call_pool_free p \<notin> set calls) \<or>
        (\<exists>pool cs. g_pool st = Some pool \<and> g_pool st' = None \<and> \<not> g_owned st' 0 \<and> \<not> g_owned st' 1 \<and>
           eo_in_use eo t pool = 0 \<and> calls = cs @ [Call_pool_free pool] \<and> (\<forall>p. Call_pool_free p \<notin> set cs) \<and>
           (\<forall>i < 2. g_owned st i \<longrightarrow> Call_close (g_ports st i) \<in> set cs))))"
proof (cases "g_running st \<or> \<not> all_idle st")
  case True
  have "unat (g_worker_count st) \<le> length (g_workers st)" using inv by (simp add: ports_inv_def)
  then have "dp_dataplane_teardown eo t st = Some (- EBUSY, st, [])"
    using dp_workers_stopped_idle [of st] True by (auto simp: dp_dataplane_teardown_def)
  then show ?thesis using True inv rules by (auto simp: errno_simps)
next
  case False
  let ?st0 = "st\<lparr>g_ready := False\<rparr>"
  have stopped: "dp_workers_stopped st = Some True" using dp_workers_stopped_idle [of st] False inv by (simp add: ports_inv_def)
  have "rules_inv tv ?st0" using rules by (simp add: rules_inv_def rule_objs_def)
  then obtain x where t1: "dp_rules_teardown ?st0 = Some (?st0\<lparr>g_active_rules := None, g_rules_qsbr := None, g_live := {#},
      g_rules_configured := False, g_stats := x\<rparr>)" using dp_rules_teardown_frees by blast
  define st1 where "st1 = ?st0\<lparr>g_active_rules := None, g_rules_qsbr := None, g_live := {#}, g_rules_configured := False, g_stats := x\<rparr>"
  have x: "st_workers x = st_workers (g_stats st)" using dp_rules_teardown_workers [OF t1] by simp
  have "g_started st1 0 \<longrightarrow> g_owned st1 0" "g_started st1 1 \<longrightarrow> g_owned st1 1" using inv by (simp_all add: ports_inv_def st1_def)
  from close_ports_cases [OF this, of t] obtain fe0 s0 c0 fe s ow y cs where c: "close_port eo t 0 0 st1 [] = (fe0, s0, c0)"
    "close_port eo t 1 fe0 s0 c0 = (fe, st1\<lparr>g_started := s, g_owned := ow, g_stats := y\<rparr>, cs)"
    "fe \<le> 0" "fe = 0 \<longrightarrow> \<not> ow 0 \<and> \<not> ow 1" "s 0 \<longrightarrow> ow 0" "s 1 \<longrightarrow> ow 1" "st_workers y = st_workers (g_stats st1)"
    "\<forall>i < 2. g_owned st1 i \<and> \<not> ow i \<longrightarrow> Call_close (g_ports st1 i) \<in> set cs" "\<forall>p. Call_pool_free p \<notin> set cs" by blast
  define st2 where "st2 = st1\<lparr>g_started := s, g_owned := ow, g_stats := y\<rparr>"
  have "fe = 0 \<longrightarrow> \<not> g_owned st2 0 \<and> \<not> g_owned st2 1" using c(4) by (simp add: st2_def)
  note pool = teardown_pool_cases [OF c(3) this, where eo = eo and t = t and calls = cs]
  obtain r p z calls where r: "dp_dataplane_teardown eo t st = Some (r, st2\<lparr>g_pool := p, g_stats := z\<rparr>, calls)" "r \<le> 0"
    "st_workers z = st_workers (g_stats st2)" "r = 0 \<longrightarrow> fe = 0 \<and> p = None"
    "p = g_pool st2 \<and> calls = cs \<or> (\<exists>pool. g_pool st2 = Some pool \<and> p = None \<and> \<not> g_owned st2 0 \<and> \<not> g_owned st2 1 \<and>
       eo_in_use eo t pool = 0 \<and> calls = cs @ [Call_pool_free pool])"
    using pool stopped False t1 c(1,2) unfolding st1_def [symmetric] st2_def [symmetric]
    by (simp add: dp_dataplane_teardown_def) blast
  let ?st' = "st2\<lparr>g_pool := p, g_stats := z\<rparr>"
  note defs = st2_def st1_def
  have "ports_inv ?st'" "rules_inv tv ?st'" "all_idle ?st'"
    using inv rules False c(5-7) r(3) x by (simp_all add: ports_inv_def rules_inv_def rule_objs_def all_idle_def defs)
  moreover have "r = 0 \<longrightarrow> resources_gone ?st'" using r(4) c(4-6) rules by (auto simp: resources_gone_def rules_inv_def defs)
  moreover have "g_pool ?st' = g_pool st \<and> (\<forall>p. Call_pool_free p \<notin> set calls) \<or>
      (\<exists>pool cs. g_pool st = Some pool \<and> g_pool ?st' = None \<and> \<not> g_owned ?st' 0 \<and> \<not> g_owned ?st' 1 \<and>
         eo_in_use eo t pool = 0 \<and> calls = cs @ [Call_pool_free pool] \<and> (\<forall>p. Call_pool_free p \<notin> set cs) \<and>
         (\<forall>i < 2. g_owned st i \<longrightarrow> Call_close (g_ports st i) \<in> set cs))"
    using r(5) c(8,9) by (elim disjE exE conjE) (auto simp: defs less_2_cases_iff)
  ultimately show ?thesis
    using r(1,2) False by (intro exI [of _ r] exI [of _ ?st'] exI [of _ calls]) (simp add: defs)
qed

end

section \<open>A reference device\<close>

text \<open>Two TAP devices that work, but for stops at the given moments.\<close>

definition ref_eth :: "nat list \<Rightarrow> eth_ops" where
  "ref_eth fails = \<lparr>
     eo_port_by_name = (\<lambda>name. if name = ''net_tap0'' then (0, 0) else if name = ''net_tap1'' then (0, 1)
       else (- ENODEV, 0)),
     eo_info = (\<lambda>p. (0, \<lparr>di_driver_name = Some ''net_tap'', di_max_rx_queues = 16, di_max_tx_queues = 16\<rparr>)),
     eo_pool_create = (\<lambda>name n cache socket. Some 1),
     eo_errno = ENOMEM,
     eo_configure = (\<lambda>p rx tx. 0),
     eo_adjust = (\<lambda>p rx tx. (0, rx, tx)),
     eo_rx_queue_setup = (\<lambda>p q desc socket pool. 0),
     eo_tx_queue_setup = (\<lambda>p q desc socket. 0),
     eo_start = (\<lambda>p. 0),
     eo_stop = (\<lambda>t p. if t \<in> set fails then - EIO else 0),
     eo_close = (\<lambda>t p. if t \<in> set fails then - EINVAL else 0),
     eo_in_use = (\<lambda>t pool. 0)\<rparr>"

interpretation ref_eth: eth_laws "ref_eth fails"
  by unfold_locales (auto simp: ref_eth_def errno_simps split: if_splits)

end
