(* ===== verification/Dp_Run.thy ===== *)
theory Dp_Run
  imports Dp_Setup
begin

text \<open>
  \<open>dp_dataplane_run\<close>: the launch of the workers on their cores, worker 0 on the caller's core, and
  the join. The execution of a worker is an argument: \<open>exec i\<close> runs \<open>dp_worker_run\<close> of worker \<open>i\<close>
  to its end. For worker 0 that is the call in the code; for a launched worker it is what has
  happened on its core by the time \<open>rte_eal_wait_lcore\<close> returns, together with the value it
  returns. \<open>exec_worker\<close> is that execution on the model of the worker.
\<close>

section \<open>Launch and join\<close>

type_synonym ('h, 'l, 'q) executor =
  "nat \<Rightarrow> ('h, 'l, 'q) dp_state \<times> mbuf_heap \<Rightarrow> (int \<times> ('h, 'l, 'q) dp_state \<times> mbuf_heap) option"

definition set_launched :: "nat \<Rightarrow> bool \<Rightarrow> ('h, 'l, 'q) dp_state \<Rightarrow> ('h, 'l, 'q) dp_state option" where
  "set_launched i b st = do {
     w \<leftarrow> idx (g_workers st) i;
     ws \<leftarrow> set_idx (g_workers st) i (w\<lparr>wc_launched := b\<rparr>);
     Some (st\<lparr>g_workers := ws\<rparr>) }"

text \<open>The launching loop at worker \<open>i\<close>, \<open>k\<close> left: the first error and the number launched.\<close>

fun launch_workers ::
  "(u32 \<Rightarrow> int) \<Rightarrow> int \<Rightarrow> nat \<Rightarrow> nat \<Rightarrow> nat \<Rightarrow> ('h, 'l, 'q) dp_state \<Rightarrow>
   (int \<times> nat \<times> ('h, 'l, 'q) dp_state) option" where
  "launch_workers launch failure i 0 launched st = Some (0, launched, st)"
| "launch_workers launch failure i (Suc k) launched st = do {
     w \<leftarrow> idx (g_workers st) i;
     let ret = (if failure = int i then - EIO else launch (wi_lcore_id (wc_info w)));
     if ret \<noteq> 0 then Some (if ret < 0 then ret else - EIO, launched, st\<lparr>g_stop := True\<rparr>)
     else do {
       st \<leftarrow> set_launched i True st;
       launch_workers launch failure (i + 1) k (launched + 1) st
     } }"

text \<open>The joining loop at worker \<open>i\<close>, \<open>k\<close> left.\<close>

fun join_workers ::
  "('h, 'l, 'q) executor \<Rightarrow> nat \<Rightarrow> nat \<Rightarrow> int \<Rightarrow> ('h, 'l, 'q) dp_state \<times> mbuf_heap \<Rightarrow>
   (int \<times> ('h, 'l, 'q) dp_state \<times> mbuf_heap) option" where
  "join_workers exec i 0 first_error s = Some (first_error, s)"
| "join_workers exec i (Suc k) first_error s = do {
     (ret, st, h) \<leftarrow> exec i s;
     st \<leftarrow> set_launched i False st;
     join_workers exec (i + 1) k (if ret < 0 \<and> first_error = 0 then ret else first_error) (st, h) }"

definition dp_dataplane_run ::
  "(u32 \<Rightarrow> int) \<Rightarrow> int \<Rightarrow> ('h, 'l, 'q) executor \<Rightarrow> ('h, 'l, 'q) dp_state \<Rightarrow> mbuf_heap \<Rightarrow>
   (int \<times> ('h, 'l, 'q) dp_state \<times> mbuf_heap) option" where
  "dp_dataplane_run launch failure exec st h =
     (if \<not> g_ready st then Some (- ENODEV, st, h)
      else if g_ran st then Some (- EALREADY, st, h)
      else do {
        let st = st\<lparr>g_ran := True, g_running := True\<rparr>;
        (first_error, launched, st) \<leftarrow>
          launch_workers launch failure 1 (unat (g_worker_count st) - 1) 0 st;
        (first_error, st, h) \<leftarrow>
          (if first_error = 0 then do {
             st \<leftarrow> set_launched 0 True st;
             (ret, st, h) \<leftarrow> exec 0 (st, h);
             st \<leftarrow> set_launched 0 False st;
             Some (if ret < 0 then ret else 0, st, h) }
           else Some (first_error, st, h));
        (first_error, st, h) \<leftarrow> join_workers exec 1 launched first_error (st, h);
        Some (first_error, st\<lparr>g_running := False\<rparr>, h)
      })"

text \<open>
  The execution of worker \<open>i\<close> on the model. \<open>polls i\<close> are its passes, \<open>t i\<close> the moment of its
  registration. Not to return is \<open>None\<close>.
\<close>

definition exec_worker ::
  "rte_cksum_ops \<Rightarrow> ('h, 'l) rte_table_ops \<Rightarrow> 'q qsbr_ops \<Rightarrow> int \<Rightarrow> (nat \<Rightarrow> nat) \<Rightarrow>
   (nat \<Rightarrow> ('h, 'l, 'q) poll list) \<Rightarrow> ('h, 'l, 'q) executor" where
  "exec_worker ck ops qs failure t polls i s = do {
     let (st, h) = s;
     w \<leftarrow> idx (g_workers st) i;
     (ret, st, w, h) \<leftarrow> dp_worker_run ck ops qs failure (t i) (polls i) st w h;
     ret \<leftarrow> ret;
     ws \<leftarrow> set_idx (g_workers st) i w;
     Some (ret, st\<lparr>g_workers := ws\<rparr>, h) }"

end
