(* ===== verification/Dp_Fleet.thy ===== *)
theory Dp_Fleet
  imports Dp_Run
begin

text \<open>
  All workers together: what \<open>dp_dataplane_run\<close> promises for any way its workers execute
  (\<open>worker_runner\<close>), and that the model of the worker is such a way, as long as the other threads
  do not disturb the workers.
\<close>

section \<open>Launch and join\<close>

text \<open>The error of a run: the first negative result, in the order the workers end.\<close>

definition first_error :: "(nat \<times> int) list \<Rightarrow> int" where
  "first_error rs = (case filter (\<lambda>r. r < 0) (map snd rs) of [] \<Rightarrow> 0 | r # _ \<Rightarrow> r)"

definition launched_set :: "('h, 'l, 'q) dp_state \<Rightarrow> nat set" where
  "launched_set st = {i. i < length (g_workers st) \<and> wc_launched (g_workers st ! i)}"

lemma first_error_simps [simp]:
  "first_error [] = 0" "first_error ((i, r) # rs) = (if r < 0 then r else first_error rs)"
  by (simp_all add: first_error_def)

lemma first_error_append [simp]:
  "first_error (rs @ rs') = (if first_error rs = 0 then first_error rs' else first_error rs)"
  by (induction rs) auto

lemma first_error_nonpos: "first_error rs \<le> 0"
  by (induction rs) auto

lemma first_error_ok: "first_error rs = 0 \<longleftrightarrow> (\<forall>x \<in> set rs. 0 \<le> snd x)"
  by (induction rs) (auto split: if_splits)

lemma set_launched_runs:
  "i < length (g_workers st) \<Longrightarrow>
     \<exists>st'. set_launched i b st = Some st' \<and>
       launched_set st' = (if b then insert i (launched_set st) else launched_set st - {i}) \<and>
       head_count st' = head_count st \<and> g_ran st' = g_ran st \<and> length (g_workers st') = length (g_workers st)"
  by (auto simp: set_launched_def mem_simps launched_set_def head_count_def nth_list_update split: if_splits)

text \<open>
  A way to execute \<open>n\<close> workers, each at most once. \<open>P rs st h\<close> says what holds when the workers in
  \<open>rs\<close> have ended with the results in \<open>rs\<close>.
\<close>

locale worker_runner =
  fixes exec :: "('h, 'l, 'q) executor"
    and P :: "(nat \<times> int) list \<Rightarrow> ('h, 'l, 'q) dp_state \<Rightarrow> mbuf_heap \<Rightarrow> bool"
    and n :: nat
  assumes exec_runs: "P rs st h \<Longrightarrow> i < n \<Longrightarrow> i \<notin> fst ` set rs \<Longrightarrow>
      \<exists>ret st' h'. exec i (st, h) = Some (ret, st', h') \<and> P (rs @ [(i, ret)]) st' h' \<and>
        launched_set st' = launched_set st \<and> head_count st' = head_count st \<and> g_ran st' = g_ran st"
    and keeps_launched: "P rs st h \<Longrightarrow> set_launched i b st = Some st' \<Longrightarrow> P rs st' h"
    and keeps_flags: "P rs st h \<Longrightarrow> P rs (st\<lparr>g_running := b\<rparr>) h" "P rs st h \<Longrightarrow> P rs (st\<lparr>g_ran := b\<rparr>) h"
      "P rs st h \<Longrightarrow> P rs (st\<lparr>g_stop := b\<rparr>) h"
    and workers: "P rs st h \<Longrightarrow> unat (g_worker_count st) = n \<and> 0 < n \<and> n \<le> length (g_workers st)"
begin

lemma launch_workers_cases:
  assumes "P rs st h" "i + k = n"
  shows "\<exists>e l st'. launch_workers launch failure i k c st = Some (e, c + l, st') \<and> P rs st' h \<and>
    head_count st' = head_count st \<and> g_ran st' = g_ran st \<and> launched_set st' = launched_set st \<union> {i..<i + l} \<and>
    l \<le> k \<and> (e = 0 \<longrightarrow> l = k) \<and> (e \<noteq> 0 \<longrightarrow> e < 0 \<and> l < k \<and> g_stop st')"
  using assms
proof (induction k arbitrary: i c st)
  case 0
  then show ?case by (intro exI [of _ 0] exI [of _ st]) simp
next
  case (Suc k)
  let ?w = "g_workers st ! i"
  define r where "r = (if failure = int i then - EIO else launch (wi_lcore_id (wc_info ?w)))"
  have i: "i < length (g_workers st)" using workers [OF Suc.prems(1)] Suc.prems(2) by simp
  show ?case
  proof (cases "r = 0")
    case False
    let ?e = "if r < 0 then r else - EIO"
    have "launch_workers launch failure i (Suc k) c st = Some (?e, c + 0, st\<lparr>g_stop := True\<rparr>)"
      using i False by (simp add: mem_simps r_def [symmetric] Let_def)
    moreover have "launched_set (st\<lparr>g_stop := True\<rparr>) = launched_set st \<union> {i..<i + 0}"
      "head_count (st\<lparr>g_stop := True\<rparr>) = head_count st" "?e < 0"
      using False by (simp_all add: launched_set_def head_count_def errno_simps)
    ultimately show ?thesis
      using keeps_flags(3) [OF Suc.prems(1), of True]
      by (intro exI [of _ ?e] exI [of _ 0] exI [of _ "st\<lparr>g_stop := True\<rparr>"]) simp
  next
    case True
    obtain st1 where st1: "set_launched i True st = Some st1" "launched_set st1 = insert i (launched_set st)"
      "head_count st1 = head_count st" "g_ran st1 = g_ran st"
      using set_launched_runs [OF i, of True] by auto
    have step: "launch_workers launch failure i (Suc k) c st = launch_workers launch failure (i + 1) k (c + 1) st1"
      using True i st1(1) by (simp add: mem_simps r_def [symmetric] Let_def)
    have "i + 1 + k = n" using Suc.prems(2) by simp
    from Suc.IH [OF keeps_launched [OF Suc.prems(1) st1(1)] this, of "c + 1"]
    obtain e l st' where ih: "launch_workers launch failure (i + 1) k (c + 1) st1 = Some (e, c + 1 + l, st')"
      "P rs st' h" "head_count st' = head_count st1" "g_ran st' = g_ran st1"
      "launched_set st' = launched_set st1 \<union> {i + 1..<i + 1 + l}" "l \<le> k" "e = 0 \<longrightarrow> l = k"
      "e \<noteq> 0 \<longrightarrow> e < 0 \<and> l < k \<and> g_stop st'"
      by (elim exE conjE) (rule that)
    have "{i..<i + (l + 1)} = insert i {i + 1..<i + 1 + l}" by auto
    then have "launched_set st' = launched_set st \<union> {i..<i + (l + 1)}" unfolding ih(5) st1(2) by simp
    then show ?thesis
      unfolding step using ih st1(3,4) by (intro exI [of _ e] exI [of _ "l + 1"] exI [of _ st']) simp
  qed
qed

lemma join_workers_runs:
  assumes "P rs st h" "i + k \<le> n" "\<forall>j. i \<le> j \<and> j < i + k \<longrightarrow> j \<notin> fst ` set rs"
  shows "\<exists>rs' st' h'. join_workers exec i k e (st, h) =
      Some (if e = 0 then first_error rs' else e, st', h') \<and> P (rs @ rs') st' h' \<and> map fst rs' = [i..<i + k] \<and>
    head_count st' = head_count st \<and> g_ran st' = g_ran st \<and> launched_set st' = launched_set st - {i..<i + k}"
  using assms
proof (induction k arbitrary: i e rs st h)
  case 0
  then show ?case by (intro exI [of _ "[]"] exI [of _ st] exI [of _ h]) simp
next
  case (Suc k)
  obtain ret st1 h1 where x: "exec i (st, h) = Some (ret, st1, h1)" "P (rs @ [(i, ret)]) st1 h1"
    "launched_set st1 = launched_set st" "head_count st1 = head_count st" "g_ran st1 = g_ran st"
    using exec_runs [OF Suc.prems(1), of i] Suc.prems(2,3) by auto
  have "i < length (g_workers st1)" using workers [OF x(2)] Suc.prems(2) by simp
  from set_launched_runs [OF this, of False]
  obtain st2 where st2: "set_launched i False st1 = Some st2"
    "launched_set st2 = launched_set st1 - {i}" "head_count st2 = head_count st1" "g_ran st2 = g_ran st1"
    by auto
  let ?e = "if ret < 0 \<and> e = 0 then ret else e"
  obtain rs' st' h' where ih: "join_workers exec (i + 1) k ?e (st2, h1) =
      Some (if ?e = 0 then first_error rs' else ?e, st', h')" "P ((rs @ [(i, ret)]) @ rs') st' h'"
    "map fst rs' = [i + 1..<i + 1 + k]" "head_count st' = head_count st2" "g_ran st' = g_ran st2"
    "launched_set st' = launched_set st2 - {i + 1..<i + 1 + k}"
    using Suc.IH [OF keeps_launched [OF x(2) st2(1)], of "i + 1" ?e] Suc.prems(2,3) by auto
  have "launched_set st' = launched_set st - {i..<i + Suc k}" "map fst ((i, ret) # rs') = [i..<i + Suc k]"
    using ih(3,6) st2(2) x(3) by (auto simp: upt_conv_Cons simp del: upt_Suc)
  moreover have "P (rs @ (i, ret) # rs') st' h'" using ih(2) by simp
  ultimately show ?case
    using x(1,4,5) st2(1,3,4) ih(1,4,5)
    by (intro exI [of _ "(i, ret) # rs'"] exI [of _ st'] exI [of _ h']) (simp split: if_splits)
qed

lemma dp_dataplane_run_cases:
  assumes P: "P [] st h" and ready: "g_ready st" "\<not> g_ran st"
  shows "\<exists>ret rs st' h'. dp_dataplane_run launch failure exec st h = Some (ret, st', h') \<and> P rs st' h' \<and>
    \<not> g_running st' \<and> g_ran st' \<and> head_count st' = head_count st \<and> launched_set st' \<subseteq> launched_set st \<and>
    (map fst rs = [0..<n] \<and> ret = first_error rs \<or> (\<exists>k. k < n \<and> map fst rs = [1..<k] \<and> ret < 0))"
proof -
  let ?st = "st\<lparr>g_ran := True, g_running := True\<rparr>"
  have "P [] (st\<lparr>g_ran := True\<rparr>) h" by (rule keeps_flags(2) [OF P])
  from keeps_flags(1) [OF this, of True] have P0: "P [] ?st h" by simp
  have n: "unat (g_worker_count ?st) = n" "0 < n" "1 + (n - 1) = n" using workers [OF P0] by auto
  have start: "head_count ?st = head_count st" "launched_set ?st = launched_set st"
    by (simp_all add: head_count_def launched_set_def)
  obtain e l st1 where l: "launch_workers launch failure 1 (n - 1) 0 ?st = Some (e, l, st1)" "P [] st1 h"
    "head_count st1 = head_count st" "g_ran st1" "launched_set st1 = launched_set st \<union> {1..<1 + l}"
    "l \<le> n - 1" "e = 0 \<longrightarrow> l = n - 1" "e \<noteq> 0 \<longrightarrow> e < 0 \<and> l < n - 1"
    using launch_workers_cases [OF P0 n(3), of launch failure 0] start by auto
  have fin: ?thesis if j: "dp_dataplane_run launch failure exec st h =
      join_workers exec 1 l x (st2, h2) \<bind> (\<lambda>(ret, st, h). Some (ret, st\<lparr>g_running := False\<rparr>, h))"
    and p: "P rs st2 h2" "head_count st2 = head_count st" "g_ran st2" "launched_set st2 \<subseteq> launched_set st \<union> {1..<1 + l}"
    and c: "e = 0 \<and> map fst rs = [0] \<and> x = first_error rs \<or> e \<noteq> 0 \<and> rs = [] \<and> x = e" for x rs st2 h2
  proof -
    have "set (map fst rs) \<subseteq> {0}" using c by (elim disjE conjE) simp_all
    then have "\<forall>j. 1 \<le> j \<and> j < 1 + l \<longrightarrow> j \<notin> fst ` set rs" by (auto simp: subset_iff)
    moreover have "1 + l \<le> n" using l(6) n(2) by simp
    ultimately obtain rs' st' h' where r: "join_workers exec 1 l x (st2, h2) =
        Some (if x = 0 then first_error rs' else x, st', h')" "P (rs @ rs') st' h'" "map fst rs' = [1..<1 + l]"
      "head_count st' = head_count st2" "g_ran st' = g_ran st2" "launched_set st' = launched_set st2 - {1..<1 + l}"
      using join_workers_runs [OF p(1), of 1 l x] by auto
    have end_state: "launched_set (st'\<lparr>g_running := False\<rparr>) = launched_set st'"
      "head_count (st'\<lparr>g_running := False\<rparr>) = head_count st'" by (simp_all add: launched_set_def head_count_def)
    have "map fst (rs @ rs') = [0..<n] \<and> (if x = 0 then first_error rs' else x) = first_error (rs @ rs') \<or>
      (\<exists>k. k < n \<and> map fst (rs @ rs') = [1..<k] \<and> (if x = 0 then first_error rs' else x) < 0)"
      using c
    proof (elim disjE conjE)
      assume "e = 0" "map fst rs = [0]" "x = first_error rs"
      moreover have "[0..<n] = 0 # [1..<n]" using n(2) by (simp add: upt_conv_Cons)
      ultimately show ?thesis using r(3) l(7) n(2) by simp
    next
      assume "e \<noteq> 0" "rs = []" "x = e"
      then show ?thesis using r(3) l(8) by (intro disjI2 exI [of _ "1 + l"]) auto
    qed
    then show ?thesis
      using j r p(2,3,4) keeps_flags(1) [OF r(2), of False] end_state
      by (intro exI [of _ "if x = 0 then first_error rs' else x"] exI [of _ "rs @ rs'"]
          exI [of _ "st'\<lparr>g_running := False\<rparr>"] exI [of _ h']) auto
  qed
  show ?thesis
  proof (cases "e = 0")
    case False
    have "dp_dataplane_run launch failure exec st h =
        join_workers exec 1 l e (st1, h) \<bind> (\<lambda>(ret, st, h). Some (ret, st\<lparr>g_running := False\<rparr>, h))"
      using ready False l(1) n(1) by (simp add: dp_dataplane_run_def Let_def split: option.splits)
    then show ?thesis by (rule fin [where rs = "[]"]) (use l False in auto)
  next
    case True
    have "0 < length (g_workers st1)" using workers [OF l(2)] by linarith
    from set_launched_runs [OF this, of True]
    obtain st2 where st2: "set_launched 0 True st1 = Some st2" "launched_set st2 = insert 0 (launched_set st1)"
      "head_count st2 = head_count st1" "g_ran st2 = g_ran st1" by auto
    have P2: "P [] st2 h" by (rule keeps_launched [OF l(2) st2(1)])
    obtain ret st3 h3 where x: "exec 0 (st2, h) = Some (ret, st3, h3)" "P [(0, ret)] st3 h3"
      "launched_set st3 = launched_set st2" "head_count st3 = head_count st2" "g_ran st3 = g_ran st2"
      using exec_runs [OF P2 n(2)] by auto
    have "0 < length (g_workers st3)" using workers [OF x(2)] by linarith
    from set_launched_runs [OF this, of False]
    obtain st4 where st4: "set_launched 0 False st3 = Some st4" "launched_set st4 = launched_set st3 - {0}"
      "head_count st4 = head_count st3" "g_ran st4 = g_ran st3" by auto
    have "dp_dataplane_run launch failure exec st h =
        join_workers exec 1 l (if ret < 0 then ret else 0) (st4, h3) \<bind> (\<lambda>(ret, st, h). Some (ret, st\<lparr>g_running := False\<rparr>, h))"
      using ready True l(1) n(1) st2(1) x(1) st4(1) by (simp add: dp_dataplane_run_def Let_def split: option.splits)
    then show ?thesis
    proof (rule fin [OF _ keeps_launched [OF x(2) st4(1)]])
      show "launched_set st4 \<subseteq> launched_set st \<union> {1..<1 + l}" using l(5) st2(2) x(3) st4(2) by auto
      show "e = 0 \<and> map fst [(0, ret)] = [0] \<and> (if ret < 0 then ret else 0) = first_error [(0, ret)] \<or>
        e \<noteq> 0 \<and> [(0, ret)] = [] \<and> (if ret < 0 then ret else 0) = e" using True by (simp add: first_error_def)
    qed (use l st2 x st4 in auto)
  qed
qed

end

section \<open>Workers that are not disturbed\<close>

text \<open>
  The readers that are online, and what a worker's passes may do to the state when the other
  threads only publish rules, start grace periods and ask for a stop.
\<close>

definition readers :: "'q qsbr_view \<Rightarrow> ('h, 'l, 'q) dp_state \<Rightarrow> nat set option" where
  "readers qv st = (case g_rules_qsbr st of None \<Rightarrow> None
     | Some q \<Rightarrow> if qs_inv qv q then Some (qs_online qv q) else None)"

definition rules_live :: "('h, 'l) table_view \<Rightarrow> ('h, 'l, 'q) dp_state \<Rightarrow> bool" where
  "rules_live tv st \<longleftrightarrow> (\<exists>flows routes. represents tv flows routes (g_active_rules st))"

definition same_fleet :: "('h, 'l, 'q) dp_state \<Rightarrow> ('h, 'l, 'q) dp_state \<Rightarrow> bool" where
  "same_fleet st st' \<longleftrightarrow> g_workers st' = g_workers st \<and> g_worker_count st' = g_worker_count st \<and>
     g_ran st' = g_ran st"

definition undisturbed ::
  "('h, 'l) table_view \<Rightarrow> 'q qsbr_view \<Rightarrow> (('h, 'l, 'q) dp_state \<Rightarrow> ('h, 'l, 'q) dp_state) \<Rightarrow> bool" where
  "undisturbed tv qv f \<longleftrightarrow> (\<forall>st. same_fleet st (f st) \<and> head_count (f st) = head_count st \<and>
     readers qv (f st) = readers qv st \<and> (rules_live tv st \<longrightarrow> rules_live tv (f st)))"

definition calm :: "('h, 'l) table_view \<Rightarrow> 'q qsbr_view \<Rightarrow> ('h, 'l, 'q) poll \<Rightarrow> bool" where
  "calm tv qv po \<longleftrightarrow> undisturbed tv qv (po_others po) \<and> undisturbed tv qv (po_during po) \<and>
     distinct (map fst (po_rx po)) \<and> (\<forall>x \<in> set (po_rx po). mbuf_wf (snd x)) \<and>
     length (po_rx po) \<le> DP_BURST_SIZE \<and> (\<forall>n. po_driver po n \<le> n)"

lemma worker_sees_readers:
  "worker_sees tv qv r st \<longleftrightarrow> (\<exists>on. readers qv st = Some on \<and> r \<in> on) \<and> rules_live tv st"
  by (auto simp: worker_sees_def readers_def rules_live_def split: option.splits)

lemma calm_ok: "calm tv qv po \<Longrightarrow> poll_ok tv qv r po \<and> counts_kept po"
  by (simp add: calm_def poll_ok_def counts_kept_def undisturbed_def worker_sees_readers)

lemma worker_loop_context:
  "worker_loop ck ops qs polls st w h = Some (stopped, st', w', h') \<Longrightarrow>
     wc_info w' = wc_info w \<and> wc_launched w' = wc_launched w"
proof (induction polls arbitrary: st w h)
  case (Cons po polls)
  show ?case
  proof (cases "g_stop (po_others po st)")
    case False
    then obtain st1 stats h1 where
      "worker_loop ck ops qs polls st1 (w\<lparr>wc_stats := stats\<rparr>) h1 = Some (stopped, st', w', h')"
      using Cons.prems by (auto simp: Let_def split: Option.bind_splits)
    from Cons.IH [OF this] show ?thesis by simp
  qed (use Cons.prems in simp)
qed simp

lemma calm_keeps:
  assumes "calm tv qv po"
  shows "same_fleet st (po_others po st)" "same_fleet st (po_during po st)"
    "readers qv (po_others po st) = readers qv st" "readers qv (po_during po st) = readers qv st"
  using assms by (simp_all add: calm_def undisturbed_def)

lemma same_fleet_trans [trans]: "same_fleet a b \<Longrightarrow> same_fleet b c \<Longrightarrow> same_fleet a c"
  by (simp add: same_fleet_def)

context worker_env
begin

lemma readers_register:
  assumes "readers qv st = Some on"
  shows "\<exists>ret st'. dp_rules_reader_register qs ops t r st = (ret, st') \<and> ret \<le> 0 \<and> same_fleet st st' \<and>
    g_active_rules st' = g_active_rules st \<and>
    readers qv st' = Some (if ret = 0 then insert r on else on)"
proof -
  obtain q where q: "g_rules_qsbr st = Some q" "qs_inv qv q" "qs_online qv q = on"
    using assms by (auto simp: readers_def split: option.splits if_splits)
  from register_cases [OF q(1,2), of t r] show ?thesis
    by (elim disjE exE conjE) (simp_all add: same_fleet_def readers_def q(3))
qed

lemma readers_quiescent:
  assumes "readers qv st = Some on" "r \<in> on"
  shows "\<exists>st'. dp_rules_reader_quiescent qs r st = Some st' \<and> same_fleet st st' \<and>
    g_active_rules st' = g_active_rules st \<and> readers qv st' = Some on"
proof -
  obtain q where q: "g_rules_qsbr st = Some q" "qs_inv qv q" "qs_online qv q = on"
    using assms(1) by (auto simp: readers_def split: option.splits if_splits)
  then show ?thesis
    using quiescent_law [OF q(2) refl, of r] assms(2)
    by (simp add: dp_rules_reader_quiescent_def same_fleet_def readers_def)
qed

lemma readers_unregister:
  assumes "readers qv st = Some on"
  shows "\<exists>st'. dp_rules_reader_unregister qs r st = Some st' \<and> same_fleet st st' \<and>
    g_active_rules st' = g_active_rules st \<and> readers qv st' = Some (on - {r})"
proof -
  obtain q where q: "g_rules_qsbr st = Some q" "qs_inv qv q" "qs_online qv q = on"
    using assms by (auto simp: readers_def split: option.splits if_splits)
  from unregister_cases [OF q(1,2), of r] show ?thesis
    by (elim exE conjE) (simp add: same_fleet_def readers_def q(3))
qed

lemma dp_worker_run_fleet:
  assumes on: "readers qv st = Some on" "unat (wi_worker_id (wc_info w)) \<notin> on" and live: "rules_live tv st"
    and calm: "\<And>po. po \<in> set polls \<Longrightarrow> calm tv qv po"
    and run: "dp_worker_run ck ops qs failure t polls st w h = Some (Some ret, st', w', h')"
  shows "same_fleet st st' \<and> readers qv st' = Some on \<and> rules_live tv st' \<and>
    wc_info w' = wc_info w \<and> wc_launched w' = wc_launched w"
proof -
  let ?r = "unat (wi_worker_id (wc_info w))"
  define st1 where "st1 = st\<lparr>g_active_workers := g_active_workers st + 1\<rparr>"
  have st1: "same_fleet st st1" "readers qv st1 = Some on" "rules_live tv st1"
    using on live by (simp_all add: st1_def same_fleet_def readers_def rules_live_def)
  have bye: "same_fleet st (s\<lparr>g_stop := b, g_active_workers := a\<rparr>) = same_fleet st s"
    "same_fleet st (s\<lparr>g_active_workers := a\<rparr>) = same_fleet st s"
    "readers qv (s\<lparr>g_stop := b, g_active_workers := a\<rparr>) = readers qv s"
    "readers qv (s\<lparr>g_active_workers := a\<rparr>) = readers qv s"
    "rules_live tv (s\<lparr>g_stop := b, g_active_workers := a\<rparr>) = rules_live tv s"
    "rules_live tv (s\<lparr>g_active_workers := a\<rparr>) = rules_live tv s" for s b a
    by (simp_all add: same_fleet_def readers_def rules_live_def)
  obtain e st2 where reg: "dp_rules_reader_register qs ops t ?r st1 = (e, st2)" "e \<le> 0" "same_fleet st1 st2"
    "g_active_rules st2 = g_active_rules st1" "readers qv st2 = Some (if e = 0 then insert ?r on else on)"
    using readers_register [OF st1(2), of t ?r] by auto
  have st2: "same_fleet st st2" "rules_live tv st2"
    using same_fleet_trans [OF st1(1) reg(3)] reg(4) st1(3) by (simp_all add: rules_live_def)
  consider "failure = sint (wi_worker_id (wc_info w))" | "failure \<noteq> sint (wi_worker_id (wc_info w))" "e < 0"
    | "failure \<noteq> sint (wi_worker_id (wc_info w))" "e = 0" using reg(2) by fastforce
  then show ?thesis
  proof cases
    case 1
    then show ?thesis
      using run st1 bye by (auto simp: dp_worker_run_def worker_fail_def st1_def [symmetric])
  next
    case 2
    then show ?thesis
      using run st2 bye reg(1,5) by (auto simp: dp_worker_run_def worker_fail_def st1_def [symmetric])
  next
    case 3
    let ?w = "w\<lparr>wc_reader_registered := True\<rparr>"
    obtain st3 w3 st4 where loop: "worker_loop ck ops qs polls st2 ?w h = Some (True, st3, w3, h')"
      "dp_rules_reader_unregister qs ?r st3 = Some st4"
      "st' = st4\<lparr>g_active_workers := g_active_workers st4 - 1\<rparr>"
      "w' = w3\<lparr>wc_reader_registered := False, wc_result := 0\<rparr>"
      using run 3 reg(1)
      by (auto simp: dp_worker_run_def Let_def st1_def [symmetric] split: Option.bind_splits if_splits)
    have "same_fleet st st3 \<and> readers qv st3 = Some (insert ?r on) \<and> rules_live tv st3"
    proof (rule worker_loop_keeps [OF _ _ loop(1), where J =
          "\<lambda>s. same_fleet st s \<and> readers qv s = Some (insert ?r on) \<and> rules_live tv s"], goal_cases)
      case (1 po s)
      then show ?case
        using calm_keeps [OF calm [OF 1(1)], of s] calm [OF 1(1)] same_fleet_trans [of st s]
        by (auto simp: calm_def undisturbed_def)
    next
      case (2 s s')
      then show ?case
        using readers_quiescent [of s "insert ?r on" ?r] same_fleet_trans [of st s] by (auto simp: rules_live_def)
    next
      case 3
      then show ?case using st2 reg(5) \<open>e = 0\<close> by simp
    qed
    moreover have "wc_info w3 = wc_info w \<and> wc_launched w3 = wc_launched w"
      using worker_loop_context [OF loop(1)] by simp
    moreover obtain st5 where "dp_rules_reader_unregister qs ?r st3 = Some st5" "same_fleet st3 st5"
      "g_active_rules st5 = g_active_rules st3" "readers qv st5 = Some (insert ?r on - {?r})"
      using readers_unregister [of st3 "insert ?r on" ?r] calculation(1) by auto
    ultimately show ?thesis
      using loop(2,3,4) on(2) same_fleet_trans [of st st3 st5] bye by (auto simp: rules_live_def same_fleet_def)
  qed
qed

end

section \<open>The fleet\<close>

text \<open>
  \<open>n\<close> workers, none of them polling, each with its own identity. \<open>fleet_after\<close> adds what those that
  have ended did with their packets: \<open>k i\<close> is the number of passes worker \<open>i\<close> made.
\<close>

definition fleet ::
  "('h, 'l) table_view \<Rightarrow> 'q qsbr_view \<Rightarrow> nat \<Rightarrow> ('h, 'l, 'q) dp_state \<Rightarrow> bool" where
  "fleet tv qv n st \<longleftrightarrow> unat (g_worker_count st) = n \<and> 0 < n \<and> n \<le> length (g_workers st) \<and>
     readers qv st = Some {} \<and> rules_live tv st \<and>
     (\<forall>i < n. let w = g_workers st ! i in unat (wi_worker_id (wc_info w)) = i \<and> balanced (wc_stats w) \<and>
        \<not> wc_reader_registered w)"

definition passes_done :: "(nat \<Rightarrow> ('h, 'l, 'q) poll list) \<Rightarrow> (nat \<Rightarrow> nat) \<Rightarrow> nat list \<Rightarrow> nat list" where
  "passes_done polls k is = concat (map (\<lambda>i. received (take (k i) (polls i))) is)"

definition fleet_after ::
  "('h, 'l) table_view \<Rightarrow> 'q qsbr_view \<Rightarrow> nat \<Rightarrow> (nat \<Rightarrow> ('h, 'l, 'q) poll list) \<Rightarrow> mbuf_heap \<Rightarrow>
   (nat \<times> int) list \<Rightarrow> ('h, 'l, 'q) dp_state \<Rightarrow> mbuf_heap \<Rightarrow> bool" where
  "fleet_after tv qv n polls h0 rs st h \<longleftrightarrow> fleet tv qv n st \<and>
     (\<exists>k freed sent. h = handed_on freed sent h0 \<and> (\<forall>i. k i \<le> length (polls i)) \<and>
        mset freed + mset (map fst sent) = mset (passes_done polls k (map fst rs)))"

lemma fleet_cong:
  assumes "fleet tv qv n st" "length (g_workers st') = length (g_workers st)" "g_worker_count st' = g_worker_count st"
    "readers qv st' = readers qv st" "rules_live tv st'"
    "\<And>i. i < n \<Longrightarrow> wc_info (g_workers st' ! i) = wc_info (g_workers st ! i) \<and>
      balanced (wc_stats (g_workers st' ! i)) \<and> \<not> wc_reader_registered (g_workers st' ! i)"
  shows "fleet tv qv n st'"
  using assms by (simp add: fleet_def Let_def)

lemma fleet_idle:
  assumes "fleet tv qv n st" "fleet tv qv n st'" "head_count st' = head_count st" "launched_set st' \<subseteq> launched_set st"
    "all_idle st"
  shows "all_idle st'"
proof -
  have n: "unat (g_worker_count st) = n" "unat (g_worker_count st') = n" "n \<le> length (g_workers st)"
    "n \<le> length (g_workers st')" "\<forall>i < n. \<not> wc_reader_registered (g_workers st' ! i)"
    using assms(1,2) by (simp_all add: fleet_def Let_def)
  have idle: "\<not> wc_launched (g_workers st ! i)" if "i < n" for i
    using assms(5) n that by (force simp: all_idle_def in_set_conv_nth)
  have "\<not> wc_launched (g_workers st' ! i)" if "i < n" for i
    using idle [OF that] subsetD [OF assms(4), of i] n that by (auto simp: launched_set_def)
  then show ?thesis
    using assms(3,5) n by (auto simp: all_idle_def head_count_def in_set_conv_nth)
qed

lemma passes_done_cong: "(\<And>i. i \<in> set is \<Longrightarrow> k i = k' i) \<Longrightarrow> passes_done polls k is = passes_done polls k' is"
  unfolding passes_done_def by (metis (mono_tags, lifting) map_eq_conv)

context worker_env
begin

lemma exec_worker_runs:
  assumes fleet: "fleet tv qv n st" and i: "i < n"
    and calm: "\<And>po. po \<in> set (polls i) \<Longrightarrow> calm tv qv po"
    and stop: "po \<in> set (polls i)" "\<And>st. g_stop (po_others po st)"
    and fresh: "\<And>p. p \<in> set (received (polls i)) \<Longrightarrow> mh_live h p = None"
  shows "\<exists>ret st' k freed sent. exec_worker ck ops qs failure t polls i (st, h) =
      Some (ret, st', handed_on freed sent h) \<and> fleet tv qv n st' \<and> k \<le> length (polls i) \<and>
    mset freed + mset (map fst sent) = mset (received (take k (polls i))) \<and>
    launched_set st' = launched_set st \<and> head_count st' = head_count st \<and> g_ran st' = g_ran st"
proof -
  define w where "w = g_workers st ! i"
  have w: "unat (wi_worker_id (wc_info w)) = i" "balanced (wc_stats w)" "\<not> wc_reader_registered w"
    and f: "readers qv st = Some {}" "rules_live tv st" and l: "i < length (g_workers st)"
    using fleet i by (auto simp: fleet_def w_def Let_def)
  obtain q where q: "g_rules_qsbr st = Some q" "qs_inv qv q" "qs_online qv q = {}"
    using f(1) by (auto simp: readers_def split: option.splits if_splits)
  obtain flows routes where repr: "represents tv flows routes (g_active_rules st)"
    using f(2) by (auto simp: rules_live_def)
  have off: "unat (wi_worker_id (wc_info w)) \<notin> qs_online qv q" by (simp add: q(3))
  obtain k x st1 w' freed sent where run: "k \<le> length (polls i)"
    "dp_worker_run ck ops qs failure (t i) (polls i) st w h = Some (x, st1, w', handed_on freed sent h)"
    "mset freed + mset (map fst sent) = mset (received (take k (polls i)))"
    "counted (wc_stats w) (length (received (take k (polls i)))) (length sent) (wc_stats w')"
    "wc_reader_registered w' = (x = None)" "x \<noteq> None \<longrightarrow> wc_result w' = the x \<and> head_count st1 = head_count st"
    "x = None \<longrightarrow> (\<forall>po \<in> set (polls i). \<exists>st. \<not> g_stop (po_others po st))"
    by (rule dp_worker_run_outcome [where polls = "polls i" and ck = ck and failure = failure and t = "t i",
        OF q(1,2) off repr calm_ok [OF calm] fresh w(2,3), THEN exE], assumption, assumption, elim exE conjE, rule that)
  obtain ret where x: "x = Some ret" using run(7) stop by (cases x) blast+
  have e: "same_fleet st st1" "readers qv st1 = Some {}" "rules_live tv st1" "wc_info w' = wc_info w"
    "wc_launched w' = wc_launched w"
    using dp_worker_run_fleet [OF f(1) _ f(2) calm run(2) [unfolded x]] by auto
  let ?st = "st1\<lparr>g_workers := (g_workers st1)[i := w']\<rparr>"
  have same: "g_workers st1 = g_workers st" "g_worker_count st1 = g_worker_count st" "g_ran st1 = g_ran st"
    using e(1) by (simp_all add: same_fleet_def)
  have "exec_worker ck ops qs failure t polls i (st, h) = Some (ret, ?st, handed_on freed sent h)"
    using l run(2) x same by (simp add: exec_worker_def mem_simps w_def [symmetric])
  moreover have "fleet tv qv n ?st"
  proof (rule fleet_cong [OF fleet])
    show "wc_info (g_workers ?st ! j) = wc_info (g_workers st ! j) \<and> balanced (wc_stats (g_workers ?st ! j)) \<and>
      \<not> wc_reader_registered (g_workers ?st ! j)" if "j < n" for j
      using that fleet l e(4) run(4,5) x
      by (cases "j = i") (simp_all add: same w_def [symmetric] counted_def, simp add: fleet_def Let_def)
  qed (use same e f in \<open>simp_all add: readers_def rules_live_def\<close>)
  moreover have "launched_set ?st = launched_set st"
    using l e(5) by (auto simp: launched_set_def same nth_list_update w_def split: if_splits)
  moreover have "head_count ?st = head_count st" "g_ran ?st = g_ran st"
    using run(6) x same by (simp_all add: head_count_def)
  ultimately show ?thesis using run(1,3) by blast
qed

lemma exec_worker_runner:
  assumes calm: "\<And>i po. i < n \<Longrightarrow> po \<in> set (polls i) \<Longrightarrow> calm tv qv po"
    and stop: "\<And>i. i < n \<Longrightarrow> \<exists>po \<in> set (polls i). \<forall>st. g_stop (po_others po st)"
    and fresh: "\<And>i p. i < n \<Longrightarrow> p \<in> set (received (polls i)) \<Longrightarrow> mh_live h0 p = None"
  shows "worker_runner (exec_worker ck ops qs failure t polls) (fleet_after tv qv n polls h0) n"
proof
  show "unat (g_worker_count st) = n \<and> 0 < n \<and> n \<le> length (g_workers st)"
    if "fleet_after tv qv n polls h0 rs st h" for rs st h
    using that by (simp add: fleet_after_def fleet_def)
  show "fleet_after tv qv n polls h0 rs (st\<lparr>g_running := b\<rparr>) h" "fleet_after tv qv n polls h0 rs (st\<lparr>g_ran := b\<rparr>) h"
    "fleet_after tv qv n polls h0 rs (st\<lparr>g_stop := b\<rparr>) h"
    if "fleet_after tv qv n polls h0 rs st h" for rs st h b
    using that by (simp_all add: fleet_after_def fleet_def readers_def rules_live_def)
  show "fleet_after tv qv n polls h0 rs st' h"
    if f: "fleet_after tv qv n polls h0 rs st h" and l: "set_launched i b st = Some st'" for rs st h i b st'
  proof -
    let ?ws = "(g_workers st)[i := (g_workers st ! i)\<lparr>wc_launched := b\<rparr>]"
    have st': "st' = st\<lparr>g_workers := ?ws\<rparr>" "i < length (g_workers st)"
      using l by (auto simp: set_launched_def idx_eq_Some set_idx_eq_Some split: Option.bind_splits)
    have fl: "fleet tv qv n st" using f by (simp add: fleet_after_def)
    have "fleet tv qv n st'"
    proof (rule fleet_cong [OF fl])
      show "wc_info (g_workers st' ! j) = wc_info (g_workers st ! j) \<and> balanced (wc_stats (g_workers st' ! j)) \<and>
        \<not> wc_reader_registered (g_workers st' ! j)" if "j < n" for j
        using that fl st'(2) by (cases "j = i") (simp_all add: st'(1) fleet_def Let_def)
    qed (use fl in \<open>simp_all add: st'(1) readers_def rules_live_def fleet_def\<close>)
    then show ?thesis using f by (simp add: fleet_after_def)
  qed
  show "\<exists>ret st' h'. exec_worker ck ops qs failure t polls i (st, h) = Some (ret, st', h') \<and>
      fleet_after tv qv n polls h0 (rs @ [(i, ret)]) st' h' \<and>
      launched_set st' = launched_set st \<and> head_count st' = head_count st \<and> g_ran st' = g_ran st"
    if f: "fleet_after tv qv n polls h0 rs st h" and i: "i < n" "i \<notin> fst ` set rs" for rs st h i
  proof -
    obtain k freed sent where h: "h = handed_on freed sent h0" "\<forall>i. k i \<le> length (polls i)"
      "mset freed + mset (map fst sent) = mset (passes_done polls k (map fst rs))" and fl: "fleet tv qv n st"
      using f by (auto simp: fleet_after_def)
    obtain po where po: "po \<in> set (polls i)" "\<And>st. g_stop (po_others po st)" using stop [OF i(1)] by blast
    have live: "mh_live h p = None" if "p \<in> set (received (polls i))" for p
      using fresh [OF i(1) that] by (simp add: h(1))
    obtain ret st' k' freed' sent' where x: "exec_worker ck ops qs failure t polls i (st, h) =
        Some (ret, st', handed_on freed' sent' h)" "fleet tv qv n st'" "k' \<le> length (polls i)"
      "mset freed' + mset (map fst sent') = mset (received (take k' (polls i)))"
      "launched_set st' = launched_set st" "head_count st' = head_count st" "g_ran st' = g_ran st"
      using exec_worker_runs [where polls = polls and i = i and n = n and st = st and h = h and po = po,
          OF fl i(1) calm [OF i(1)] po live] by blast
    let ?k = "k(i := k')"
    have "passes_done polls ?k (map fst rs) = passes_done polls k (map fst rs)"
      by (rule passes_done_cong) (use i(2) in auto)
    then have "mset (freed @ freed') + mset (map fst (sent @ sent')) =
        mset (passes_done polls ?k (map fst (rs @ [(i, ret)])))"
      using h(3) x(4) by (simp add: passes_done_def add_ac)
    moreover have "\<forall>j. ?k j \<le> length (polls j)" using h(2) x(3) by simp
    ultimately have "fleet_after tv qv n polls h0 (rs @ [(i, ret)]) st' (handed_on freed' sent' h)"
      unfolding fleet_after_def using x(2) h(1)
      by (intro conjI exI [of _ ?k] exI [of _ "freed @ freed'"] exI [of _ "sent @ sent'"]) simp_all
    then show ?thesis using x by blast
  qed
qed

end

section \<open>A fleet of two workers\<close>

definition demo_fleet :: "(ref_hash, ref_lpm, ref_qsbr) dp_state" where
  "demo_fleet = demo_state\<lparr>g_ready := True, g_worker_count := 2,
     g_workers := map (\<lambda>i. fresh_worker i (word_of_nat i)) [0..<2] @ replicate (DP_MAX_WORKERS - 2) zero_worker_ctx\<rparr>"

lemma undisturbed_stop: "undisturbed tv qv (\<lambda>st. st)" "undisturbed tv qv dp_dataplane_request_stop"
  by (simp_all add: undisturbed_def same_fleet_def head_count_def readers_def rules_live_def
      dp_dataplane_request_stop_def)

lemma demo_calm: "po \<in> set demo_polls \<Longrightarrow> calm tv qv po"
  using demo_burst_ok by (auto simp: demo_polls_def calm_def undisturbed_stop)

lemma demo_stop: "\<exists>po \<in> set demo_polls. \<forall>st. g_stop (po_others po st)"
  by (simp add: demo_polls_def dp_dataplane_request_stop_def)

lemma demo_fresh: "mh_live (demo_heap []) p = None"
  by (simp add: demo_heap_def)

interpretation demo_run: worker_runner
  "exec_worker rfc_cksum (ref_tables []) (ref_qsbr_ops 128) (- 1) (\<lambda>_. 0) (\<lambda>_. demo_polls)"
  "fleet_after ref_view (ref_qsbr_view 128) 2 (\<lambda>_. demo_polls) (demo_heap [])" 2
  by (rule refw.exec_worker_runner [OF demo_calm demo_stop demo_fresh])

lemma demo_fleet_ok: "fleet ref_view (ref_qsbr_view 128) 2 demo_fleet"
  using demo_represents zero_stats_balanced
  by (auto simp: fleet_def demo_fleet_def demo_state_def readers_def rules_live_def fresh_worker_def
      worker_info_of_def zero_worker_ctx_def ref_qsbr_view_def rq_inv_def rq_online_def Let_def less_2_cases_iff nth_append)

text \<open>The whole run, from its start to the join of all workers.\<close>

lemma dataplane_run_result:
  assumes "rte_table_laws ops tv" and "qsbr_laws qs qv"
    and fleet: "fleet tv qv n st" and ready: "g_ready st" "\<not> g_ran st"
    and calm: "\<And>i po. i < n \<Longrightarrow> po \<in> set (polls i) \<Longrightarrow> calm tv qv po"
    and stop: "\<And>i. i < n \<Longrightarrow> \<exists>po \<in> set (polls i). \<forall>st. g_stop (po_others po st)"
    and fresh: "\<And>i p. i < n \<Longrightarrow> p \<in> set (received (polls i)) \<Longrightarrow> mh_live h p = None"
  shows "\<exists>ret rs st' k freed sent.
    dp_dataplane_run launch failure (exec_worker ck ops qs failed t polls) st h = Some (ret, st', handed_on freed sent h) \<and>
    \<not> g_running st' \<and> g_ran st' \<and> fleet tv qv n st' \<and> (all_idle st \<longrightarrow> all_idle st') \<and>
    (map fst rs = [0..<n] \<and> ret = first_error rs \<or> (\<exists>j < n. map fst rs = [1..<j] \<and> ret < 0)) \<and>
    mset freed + mset (map fst sent) = mset (passes_done polls k (map fst rs)) \<and>
    (\<forall>launch failure exec h. \<exists>e < 0. dp_dataplane_run launch failure exec st' h = Some (e, st', h))"
proof -
  have run: "worker_runner (exec_worker ck ops qs failed t polls) (fleet_after tv qv n polls h) n"
    by (rule worker_env.exec_worker_runner [OF worker_env.intro [OF assms(1,2)] calm stop fresh])
  have "\<forall>i. (0::nat) \<le> length (polls i)" "mset ([] :: nat list) + mset (map fst []) = mset (passes_done polls (\<lambda>_. 0) [])"
    by (simp_all add: passes_done_def)
  then have "fleet_after tv qv n polls h [] st h"
    unfolding fleet_after_def using fleet by (metis handed_on_simps(3) list.map(1))
  from worker_runner.dp_dataplane_run_cases [OF run this ready, of launch failure]
  obtain ret rs st' h' where r: "dp_dataplane_run launch failure (exec_worker ck ops qs failed t polls) st h =
      Some (ret, st', h')" "fleet_after tv qv n polls h rs st' h'" "\<not> g_running st'" "g_ran st'"
    "head_count st' = head_count st" "launched_set st' \<subseteq> launched_set st"
    "map fst rs = [0..<n] \<and> ret = first_error rs \<or> (\<exists>k < n. map fst rs = [1..<k] \<and> ret < 0)"
    by blast
  obtain k freed sent where h': "h' = handed_on freed sent h" "fleet tv qv n st'"
    "mset freed + mset (map fst sent) = mset (passes_done polls k (map fst rs))"
    using r(2) by (auto simp: fleet_after_def)
  have "all_idle st'" if "all_idle st" by (rule fleet_idle [OF fleet h'(2) r(5,6) that])
  moreover have "\<exists>e < 0. dp_dataplane_run launch failure exec st' h = Some (e, st', h)" for launch failure exec h
    using r(4) by (simp add: dp_dataplane_run_def errno_simps)
  ultimately show ?thesis using r(1,3,4,7) h' by blast
qed

section \<open>Properties\<close>



end
