(* ===== verification/Dp_Lifecycle.thy ===== *)
theory Dp_Lifecycle
  imports Dp_Fleet
begin

text \<open>
  The whole life of the process: every operation of the boundary in any order. \<open>life_inv\<close> says which
  resources a state holds; every step keeps it. The properties of set-up, teardown and clean-up
  follow.
\<close>

section \<open>What the rule operations leave alone\<close>

definition rules_only :: "('h, 'l, 'q) dp_state \<Rightarrow> ('h, 'l, 'q) dp_state \<Rightarrow> bool" where
  "rules_only st st' \<longleftrightarrow>
     g_initialized st' = g_initialized st \<and> g_ready st' = g_ready st \<and> g_pool st' = g_pool st \<and> g_owned st' = g_owned st \<and> g_started st' = g_started st \<and>
     g_worker_count st' = g_worker_count st \<and> length (g_workers st') = length (g_workers st) \<and> g_info st' = g_info st \<and>
     st_workers (g_stats st') = st_workers (g_stats st)"

lemma rules_only_refl: "rules_only st st"
  by (simp add: rules_only_def)

lemma stats_workers [simp]:
  "st_workers (count_failed x) = st_workers x" "st_workers (count_published x) = st_workers x"
  "st_workers (freed_stats s a b x) = st_workers x"
  by (simp_all add: count_failed_def count_published_def freed_stats_def Let_def)

lemma rules_only_stats: "(\<And>x. st_workers (f x) = st_workers x) \<Longrightarrow> rules_only st (on_stats f st)"
  by (simp add: rules_only_def on_stats_def)

lemma publish_rules_only:
  assumes "\<And>t. 0 \<le> rte_errno ops t" "array_arg flows nf" "array_arg routes nr" "rules_inv tv st"
    and "dp_publish_rules qs ops t reports flows nf routes nr generation st = Some (Returned r st')"
  shows "rules_only st st' \<and> g_rules_configured st' = g_rules_configured st \<and>
    (g_rules_qsbr st' = None \<longleftrightarrow> g_rules_qsbr st = None)"
proof (cases "generation = None")
  case True
  then show ?thesis using assms(5) rules_only_refl by (simp add: dp_publish_rules_def)
next
  case False
  have s: "rules_only st (on_stats f st)" if "f = (\<lambda>x. x) \<or> f = count_failed" for f
    by (rule rules_only_stats) (use that in auto)
  from dp_publish_rules_cases [OF assms(1-4) False, of qs t reports] show ?thesis
  proof (elim disjE exE conjE)
    fix s old q token q1
    assume "g_rules_qsbr st = Some q" "dp_publish_rules qs ops t reports flows nf routes nr generation st =
         Some (case await_grace qs token reports q1 of
           None \<Rightarrow> Still_Waiting ((publish_enter st)\<lparr>g_active_rules := Some s, g_rules_qsbr := Some q1,
             g_live := g_live st + snapshot_objs s, g_stats := count_published (g_stats st)\<rparr>)
         | Some q2 \<Rightarrow> Returned (0, Some (st_rules_generation (g_stats st) + 1)) (published old q2 s st))"
    then show ?thesis
      using assms(5)
      by (auto simp: published_def rules_only_def split: option.splits)
  qed (use assms(5) s in auto)
qed

lemma configure_rules_only:
  assumes e: "\<And>t. 0 \<le> rte_errno ops t" and arr: "array_arg flows nf" "array_arg routes nr"
    and run: "dp_configure_rules qs ops t flows nf routes nr st = Some (ret, st')"
  shows "rules_only st st' \<and> (g_rules_configured st \<longrightarrow> st' = st) \<and> (\<not> g_initialized st \<longrightarrow> st' = st)"
proof (cases "g_initialized st \<and> \<not> (g_rules_configured st \<or> g_ready st \<or> g_running st \<or> g_ran st)")
  case False
  then have "st' = st" using run by (auto simp: dp_configure_rules_def split: if_splits)
  then show ?thesis by (simp add: rules_only_refl)
next
  case True
  have snap: "rules_only st st'" if c: "configure_snapshot ops (t + 3) flows nf routes nr st1 = Some (ret, st')"
    and o: "rules_only st st1" for st1
    using dp_snapshot_build_cases [OF e arr, of "t + 3" 1 st1]
  proof (elim disjE exE conjE)
    fix s
    assume "dp_snapshot_build ops (t + 3) flows nf routes nr 1 st1 =
      Some (0, Some s, st1\<lparr>g_live := g_live st1 + snapshot_objs s\<rparr>)"
    then have "st' = on_stats (\<lambda>x. x\<lparr>st_rules_generation := 1, st_rules_publish_success := 1\<rparr>)
        (st1\<lparr>g_live := g_live st1 + snapshot_objs s, g_active_rules := Some s, g_rules_configured := True\<rparr>)"
      using c by (simp add: configure_snapshot_def)
    with o show ?thesis by (simp add: rules_only_def on_stats_def)
  next
    fix e
    assume "dp_snapshot_build ops (t + 3) flows nf routes nr 1 st1 = Some (e, None, st1)" "e < 0"
    then have "st' = on_stats (\<lambda>x. x\<lparr>st_rules_publish_failed := st_rules_publish_failed x + 1\<rparr>) st1"
      using c by (simp add: configure_snapshot_def)
    with o show ?thesis by (simp add: rules_only_def on_stats_def)
  qed
  from dp_qsbr_create_cases [OF e, of qs t st] have "rules_only st st'"
  proof (elim disjE exE conjE)
    fix q
    assume c: "dp_qsbr_create qs ops t st =
        Some (0, st\<lparr>g_live := add_mset Obj_Qsbr (g_live st), g_rules_qsbr := Some q\<rparr>)"
    have "rules_only st (st\<lparr>g_live := add_mset Obj_Qsbr (g_live st), g_rules_qsbr := Some q\<rparr>)"
      by (simp add: rules_only_def)
    then show ?thesis by (rule snap [rotated]) (use c run True in \<open>simp add: dp_configure_rules_def\<close>)
  next
    assume "dp_qsbr_create qs ops t st = Some (0, st)"
    then show ?thesis using run True snap [OF _ rules_only_refl] by (simp add: dp_configure_rules_def)
  next
    fix e
    assume "dp_qsbr_create qs ops t st = Some (e, st)" "e < 0"
    then show ?thesis using run True rules_only_refl [of st] by (simp add: dp_configure_rules_def)
  qed
  then show ?thesis using True by simp
qed

section \<open>The invariant\<close>

text \<open>
  Beside the invariants of ports and rules: without the environment layer no resource is held, and
  a ready dataplane has rules.
\<close>

definition life_inv :: "('h, 'l) table_view \<Rightarrow> ('h, 'l, 'q) dp_state \<Rightarrow> bool" where
  "life_inv tv st \<longleftrightarrow> ports_inv st \<and> rules_inv tv st \<and> (\<not> g_initialized st \<longrightarrow> resources_gone st) \<and>
     (g_ready st \<longrightarrow> g_rules_configured st)"

lemma life_inv_start: "life_inv tv dp_start"
  unfolding life_inv_def
  by (intro conjI ports_inv_start rules_inv_start) (simp_all add: dp_start_def resources_gone_def)

lemma ports_inv_rules_only: "ports_inv st \<Longrightarrow> rules_only st st' \<Longrightarrow> ports_inv st'"
  by (simp add: ports_inv_def rules_only_def)

lemma dp_runtime_init_cases:
  "0 \<le> el_errno el \<Longrightarrow> dp_runtime_init el argc argv st = (ret, st') \<Longrightarrow>
     (ret < 0 \<longrightarrow> st' = st \<or> st' = st\<lparr>g_attempted := True\<rparr>) \<and> (g_attempted st \<longrightarrow> ret = - EALREADY \<and> st' = st) \<and>
     (ret \<ge> 0 \<longrightarrow> ret = 0 \<and> \<not> g_attempted st \<and> g_attempted st' \<and> g_initialized st' \<and> rules_frame st st' \<and>
       (\<exists>i. st' = st\<lparr>g_attempted := True, g_initialized := True, g_info := i\<rparr> \<and> ri_workers i = ri_workers (g_info st)))"
  by (auto simp: dp_runtime_init_def Let_def rules_frame_def errno_simps errno_or_def split: if_splits option.splits)

lemma life_inv_rules_only:
  assumes "life_inv tv st" "rules_inv tv st'" "rules_only st st'"
    "\<not> g_initialized st \<Longrightarrow> g_rules_configured st' = g_rules_configured st \<and> (g_rules_qsbr st' = None \<longleftrightarrow> g_rules_qsbr st = None)"
    "g_rules_configured st \<Longrightarrow> g_rules_configured st'"
  shows "life_inv tv st'"
proof -
  have "ports_inv st'" using assms(1,3) ports_inv_rules_only by (auto simp: life_inv_def)
  moreover have "resources_gone st'" if "\<not> g_initialized st'"
    using that assms(1-4) by (auto simp: life_inv_def resources_gone_def rules_only_def rules_inv_def)
  moreover have "g_ready st' \<longrightarrow> g_rules_configured st'" using assms(1,3,5) by (simp add: life_inv_def rules_only_def)
  ultimately show ?thesis using assms(2) by (simp add: life_inv_def)
qed

lemma life_inv_frame:
  assumes "life_inv tv st" "rules_frame st st'" "rules_only st st'"
  shows "life_inv tv st'"
proof (rule life_inv_rules_only [OF assms(1) _ assms(3)])
  show "rules_inv tv st'" using assms(1,2) by (auto simp: life_inv_def intro: rules_inv_frame)
qed (use assms(2) in \<open>auto simp: rules_frame_def\<close>)

text \<open>The fields a worker, a stop request and the launch and join loops write.\<close>

lemma life_inv_worker_fields:
  "life_inv tv st \<Longrightarrow> life_inv tv (st\<lparr>g_active_workers := a\<rparr>)"
  "life_inv tv st \<Longrightarrow> life_inv tv (st\<lparr>g_stop := b\<rparr>)"
  "life_inv tv st \<Longrightarrow> life_inv tv (st\<lparr>g_running := b\<rparr>)"
  "life_inv tv st \<Longrightarrow> life_inv tv (st\<lparr>g_ran := b\<rparr>)"
  "life_inv tv st \<Longrightarrow> length ws = length (g_workers st) \<Longrightarrow> life_inv tv (st\<lparr>g_workers := ws\<rparr>)"
  by (erule life_inv_frame; simp add: rules_frame_def rules_only_def)+

lemma life_inv_reader:
  assumes "life_inv tv st"
  shows "dp_rules_reader_register qs ops t r st = (ret, st') \<Longrightarrow> life_inv tv st'"
    "dp_rules_reader_quiescent qs r st = Some st' \<Longrightarrow> life_inv tv st'"
    "dp_rules_reader_unregister qs r st = Some st' \<Longrightarrow> life_inv tv st'"
proof -
  have inv: "rules_inv tv st" using assms by (simp add: life_inv_def)
  have frame: "rules_only st st' \<and> g_rules_configured st' = g_rules_configured st \<and>
      (g_rules_qsbr st' = None \<longleftrightarrow> g_rules_qsbr st = None)"
    if "dp_rules_reader_register qs ops t r st = (ret, st') \<or> dp_rules_reader_quiescent qs r st = Some st' \<or>
      dp_rules_reader_unregister qs r st = Some st'"
    using that by (auto simp: dp_rules_reader_register_def dp_rules_reader_quiescent_def rules_only_def
        dp_rules_reader_unregister_def Let_def split_beta split: option.splits if_splits Option.bind_splits)
  show "life_inv tv st'" if "dp_rules_reader_register qs ops t r st = (ret, st')"
    by (rule life_inv_rules_only [OF assms reader_ops_inv(1) [OF inv that]]) (use frame that in auto)
  show "life_inv tv st'" if "dp_rules_reader_quiescent qs r st = Some st'"
    by (rule life_inv_rules_only [OF assms reader_ops_inv(2) [OF inv that]]) (use frame that in auto)
  show "life_inv tv st'" if "dp_rules_reader_unregister qs r st = Some st'"
    by (rule life_inv_rules_only [OF assms reader_ops_inv(3) [OF inv that]]) (use frame that in auto)
qed

section \<open>Every operation keeps the invariant\<close>

lemma teardown_without_resources:
  assumes "resources_gone st" "rules_inv tv st" "dp_dataplane_teardown eo t st = Some (ret, st', calls)"
  shows "resources_gone st'"
proof -
  obtain x where t: "dp_rules_teardown (st\<lparr>g_ready := False\<rparr>) =
      Some (st\<lparr>g_ready := False, g_active_rules := None, g_rules_qsbr := None, g_live := {#}, g_rules_configured := False,
        g_stats := x\<rparr>)"
    using dp_rules_teardown_frees [of tv "st\<lparr>g_ready := False\<rparr>"] assms(2) by (auto simp: rules_inv_def rule_objs_def)
  then show ?thesis
    using assms(1,3)
    by (auto simp: dp_dataplane_teardown_def close_port_def resources_gone_def Let_def split: if_splits Option.bind_splits)
qed

context eth_laws
begin

lemma life_inv_setup:
  assumes "life_inv tv st" "dp_dataplane_setup el eo th rxd txd n st = Some (ret, st', calls)"
  shows "life_inv tv st'"
proof -
  have p: "ports_inv st" using assms(1) by (simp add: life_inv_def)
  obtain "ports_inv st'" "runs_frame st st'" "ret < 0 \<longrightarrow> g_ready st' = g_ready st" "ret \<le> 0" "ret = 0 \<longrightarrow> g_rules_configured st"
    using dp_dataplane_setup_cases [OF p, of el th rxd txd n] assms(2) by auto
  moreover from this have "rules_inv tv st'" "g_rules_configured st' = g_rules_configured st"
    using assms(1) rules_inv_frame [of tv st st'] by (auto simp: life_inv_def runs_frame_def rules_frame_def)
  moreover have "st' = st" if "\<not> g_initialized st" using that assms(2) by (simp add: dp_dataplane_setup_def)
  ultimately show ?thesis using assms(1) by (cases "ret = 0") (auto simp: life_inv_def runs_frame_def)
qed

lemma life_inv_teardown:
  assumes "life_inv tv st" "dp_dataplane_teardown eo t st = Some (ret, st', calls)"
  shows "life_inv tv st'"
proof -
  have p: "ports_inv st" "rules_inv tv st" using assms(1) by (auto simp: life_inv_def)
  from dp_dataplane_teardown_cases [OF p, of t] assms(2)
  have c: "ports_inv st'" "rules_inv tv st'" "g_initialized st' = g_initialized st" "st' = st \<or> \<not> g_ready st'" by auto
  moreover have "resources_gone st'" if "\<not> g_initialized st'"
    by (rule teardown_without_resources [OF _ p(2) assms(2)]) (use that c(3) assms(1) in \<open>simp add: life_inv_def\<close>)
  ultimately show ?thesis using assms(1) by (auto simp: life_inv_def)
qed

end

context rte_table_laws
begin

lemma life_inv_configure:
  assumes "life_inv tv st" "array_arg flows nf" "array_arg routes nr"
    "dp_configure_rules qs ops t flows nf routes nr st = Some (ret, st')"
  shows "life_inv tv st'"
proof (rule life_inv_rules_only [OF assms(1)])
  have "rules_inv tv st" using assms(1) by (simp add: life_inv_def)
  from dp_configure_rules_cases [OF assms(2,3) this, of qs t] assms(4) show "rules_inv tv st'" by auto
qed (use configure_rules_only [OF errno_law assms(2-4)] in auto)

lemma life_inv_publish:
  assumes "life_inv tv st" "array_arg flows nf" "array_arg routes nr"
    "dp_publish_rules qs ops t reports flows nf routes nr generation st = Some (Returned r st')"
  shows "life_inv tv st'"
proof (rule life_inv_rules_only [OF assms(1)])
  have inv: "rules_inv tv st" using assms(1) by (simp add: life_inv_def)
  show "rules_inv tv st'"
  proof (cases "generation = None")
    case True
    then show ?thesis using assms(4) inv by (simp add: dp_publish_rules_def)
  next
    case False
    from publish_outcome [OF inv assms(2,3) False, of qs t reports] assms(4) show ?thesis by (cases r) auto
  qed
qed (use publish_rules_only [OF errno_law assms(2,3) _ assms(4), of tv] assms(1) in \<open>auto simp: life_inv_def\<close>)

end

lemma life_inv_init:
  assumes "0 \<le> el_errno el" "life_inv tv st" "dp_runtime_init el argc argv st = (ret, st')"
  shows "life_inv tv st'"
proof -
  have same: "life_inv tv (st\<lparr>g_attempted := True\<rparr>)" "ports_inv (st\<lparr>g_attempted := True, g_initialized := True, g_info := i\<rparr>)"
    if "ri_workers i = ri_workers (g_info st)" for i
    using assms(2) that by (auto simp: life_inv_def ports_inv_def resources_gone_def rules_inv_def rule_objs_def)
  show ?thesis
  proof (cases "ret < 0")
    case True
    then show ?thesis using dp_runtime_init_cases [OF assms(1,3)] assms(2) same(1) by blast
  next
    case False
    then obtain i where st': "rules_frame st st'" "st' = st\<lparr>g_attempted := True, g_initialized := True, g_info := i\<rparr>"
      "ri_workers i = ri_workers (g_info st)" using dp_runtime_init_cases [OF assms(1,3)] by auto
    have "rules_inv tv st'" using assms(2) st'(1) by (auto simp: life_inv_def intro: rules_inv_frame)
    with same(2) [OF st'(3)] assms(2) show ?thesis by (simp add: life_inv_def st'(2))
  qed
qed

lemma life_inv_cleanup:
  assumes "life_inv tv st" "dp_runtime_cleanup el st = Some (ret, st')"
  shows "life_inv tv st'"
proof -
  have "unat (g_worker_count st) \<le> length (g_workers st)" using assms(1) by (simp add: life_inv_def ports_inv_def)
  from dp_runtime_cleanup_cases [OF this, of el] assms(2)
  have "st' = st \<or> resources_gone st \<and> st' = st\<lparr>g_initialized := False\<rparr>" by (auto split: if_splits)
  moreover have "life_inv tv (st\<lparr>g_initialized := False\<rparr>)" if "resources_gone st"
    using assms(1) that by (auto simp: life_inv_def ports_inv_def resources_gone_def rules_inv_def rule_objs_def)
  ultimately show ?thesis using assms(1) by blast
qed

section \<open>What a run keeps\<close>

text \<open>
  A condition on states that every write of a worker and of the launch and join loops keeps. Then
  a whole run keeps it, whatever the other threads do at each pass, as long as they keep it too.
\<close>

locale worker_invariant =
  fixes qs :: "'q qsbr_ops" and ops :: "('h, 'l) rte_table_ops" and J :: "('h, 'l, 'q) dp_state \<Rightarrow> bool"
  assumes fields: "J st \<Longrightarrow> J (st\<lparr>g_active_workers := a\<rparr>)" "J st \<Longrightarrow> J (st\<lparr>g_stop := b\<rparr>)"
      "J st \<Longrightarrow> J (st\<lparr>g_running := b\<rparr>)" "J st \<Longrightarrow> J (st\<lparr>g_ran := b\<rparr>)"
      "J st \<Longrightarrow> length ws = length (g_workers st) \<Longrightarrow> J (st\<lparr>g_workers := ws\<rparr>)"
    and readers: "J st \<Longrightarrow> dp_rules_reader_register qs ops t r st = (ret, st') \<Longrightarrow> J st'"
      "J st \<Longrightarrow> dp_rules_reader_quiescent qs r st = Some st' \<Longrightarrow> J st'"
      "J st \<Longrightarrow> dp_rules_reader_unregister qs r st = Some st' \<Longrightarrow> J st'"
begin

lemma dp_worker_run_keeps:
  assumes others: "\<And>po st. po \<in> set polls \<Longrightarrow> J st \<Longrightarrow> J (po_others po st) \<and> J (po_during po st)"
    and run: "dp_worker_run ck ops qs failure t polls st w h = Some (ret, st', w', h')" and J: "J st"
  shows "J st'"
proof -
  let ?r = "unat (wi_worker_id (wc_info w))"
  define st1 where "st1 = st\<lparr>g_active_workers := g_active_workers st + 1\<rparr>"
  have J1: "J st1" using fields(1) J by (simp add: st1_def)
  have fail: "J (st\<lparr>g_stop := True, g_active_workers := a\<rparr>)" if "J st" for st a
    using fields(1) [OF fields(2) [OF that]] .
  obtain e st2 where reg: "dp_rules_reader_register qs ops t ?r st1 = (e, st2)" by fastforce
  have J2: "J st2" by (rule readers(1) [OF J1 reg])
  consider "failure = sint (wi_worker_id (wc_info w)) \<or> e < 0" | "failure \<noteq> sint (wi_worker_id (wc_info w))" "\<not> e < 0"
    by blast
  then show ?thesis
  proof cases
    case 1
    then have "st' = st1\<lparr>g_stop := True, g_active_workers := g_active_workers st1 - 1\<rparr> \<or>
        st' = st2\<lparr>g_stop := True, g_active_workers := g_active_workers st2 - 1\<rparr>"
      using run reg by (auto simp: dp_worker_run_def worker_fail_def Let_def st1_def [symmetric] split: if_splits)
    then show ?thesis using fail J1 J2 by blast
  next
    case 2
    then obtain stopped st3 w3 h3 where l: "worker_loop ck ops qs polls st2 (w\<lparr>wc_reader_registered := True\<rparr>) h =
        Some (stopped, st3, w3, h3)" and
      e: "\<not> stopped \<and> st' = st3 \<or> (\<exists>st4. dp_rules_reader_unregister qs ?r st3 = Some st4 \<and>
        st' = st4\<lparr>g_active_workers := g_active_workers st4 - 1\<rparr>)"
      using run reg by (auto simp: dp_worker_run_def Let_def st1_def [symmetric] split: if_splits Option.bind_splits)
    have "J st3" by (rule worker_loop_keeps [OF others readers(2) l J2])
    with e show ?thesis using fields(1) readers(3) by blast
  qed
qed

lemma exec_worker_keeps:
  assumes others: "\<And>po st. po \<in> set (polls i) \<Longrightarrow> J st \<Longrightarrow> J (po_others po st) \<and> J (po_during po st)"
    and run: "exec_worker ck ops qs failure t polls i (st, h) = Some (ret, st', h')" and J: "J st"
  shows "J st'"
proof -
  obtain w x st1 w1 ws1 where r: "dp_worker_run ck ops qs failure (t i) (polls i) st w h = Some (x, st1, w1, h')"
    "st' = st1\<lparr>g_workers := ws1\<rparr>" "length ws1 = length (g_workers st1)"
    using run by (auto simp: exec_worker_def set_idx_eq_Some split: Option.bind_splits)
  have "J st1" by (rule dp_worker_run_keeps [OF others r(1) J])
  then show ?thesis using fields(5) r(2,3) by simp
qed

lemma set_launched_keeps: "J st \<Longrightarrow> set_launched i b st = Some st' \<Longrightarrow> J st'"
  using fields(5) by (auto simp: set_launched_def idx_eq_Some set_idx_eq_Some split: Option.bind_splits)

lemma launch_workers_keeps:
  "J st \<Longrightarrow> launch_workers launch failure i k c st = Some (e, l, st') \<Longrightarrow> J st'"
proof (induction k arbitrary: i c st)
  case (Suc k)
  obtain w where w: "idx (g_workers st) i = Some w" using Suc.prems(2) by (auto split: Option.bind_splits)
  define r where "r = (if failure = int i then - EIO else launch (wi_lcore_id (wc_info w)))"
  show ?case
  proof (cases "r = 0")
    case True
    then obtain st1 where s: "set_launched i True st = Some st1"
      "launch_workers launch failure (i + 1) k (c + 1) st1 = Some (e, l, st')"
      using Suc.prems(2) w by (auto simp: r_def [symmetric] Let_def split: Option.bind_splits)
    show ?thesis by (rule Suc.IH [OF set_launched_keeps [OF Suc.prems(1) s(1)] s(2)])
  next
    case False
    then show ?thesis
      using Suc.prems w fields(2) [OF Suc.prems(1), of True] by (simp add: r_def [symmetric] Let_def)
  qed
qed simp

lemma join_workers_keeps:
  assumes exec: "\<And>i st h ret st' h'. J st \<Longrightarrow> exec i (st, h) = Some (ret, st', h') \<Longrightarrow> J st'"
  shows "J (fst s) \<Longrightarrow> join_workers exec i k e s = Some (ret, s') \<Longrightarrow> J (fst s')"
proof (induction k arbitrary: i e s)
  case (Suc k)
  obtain st h where s: "s = (st, h)" by (cases s)
  then obtain r st1 h1 st2 where x: "exec i (st, h) = Some (r, st1, h1)" "set_launched i False st1 = Some st2"
    "join_workers exec (i + 1) k (if r < 0 \<and> e = 0 then r else e) (st2, h1) = Some (ret, s')"
    using Suc.prems(2) by (auto split: Option.bind_splits)
  have "J st2" using set_launched_keeps [OF exec [OF _ x(1)] x(2)] Suc.prems(1) s by simp
  from Suc.IH [OF _ x(3)] this show ?case by simp
qed simp

lemma dp_dataplane_run_keeps:
  assumes exec: "\<And>i st h ret st' h'. J st \<Longrightarrow> exec i (st, h) = Some (ret, st', h') \<Longrightarrow> J st'"
    and run: "dp_dataplane_run launch failure exec st h = Some (ret, st', h')" and J: "J st"
  shows "J st'"
proof (cases "g_ready st \<and> \<not> g_ran st")
  case False
  then show ?thesis using run J by (auto simp: dp_dataplane_run_def split: if_splits)
next
  case True
  define st0 where "st0 = st\<lparr>g_ran := True, g_running := True\<rparr>"
  obtain e l st1 where l: "launch_workers launch failure 1 (unat (g_worker_count st0) - 1) 0 st0 = Some (e, l, st1)"
    and r: "(if e = 0 then do {
             st \<leftarrow> set_launched 0 True st1;
             (ret, st, h) \<leftarrow> exec 0 (st, h);
             st \<leftarrow> set_launched 0 False st;
             Some (if ret < 0 then ret else 0, st, h) }
           else Some (e, st1, h)) \<bind> (\<lambda>(e, st, h). join_workers exec 1 l e (st, h) \<bind>
             (\<lambda>(e, st, h). Some (e, st\<lparr>g_running := False\<rparr>, h))) = Some (ret, st', h')"
    using run True unfolding dp_dataplane_run_def Let_def st0_def [symmetric]
    by (auto split: Option.bind_splits)
  have "J st0" using fields(3) [OF fields(4) [OF J], of True True] by (simp add: st0_def)
  from launch_workers_keeps [OF this l] have "J st1" .
  obtain e2 st2 h2 where j: "J st2" "join_workers exec 1 l e2 (st2, h2) \<bind>
      (\<lambda>(e, st, h). Some (e, st\<lparr>g_running := False\<rparr>, h)) = Some (ret, st', h')"
  proof (cases "e = 0")
    case False
    with r that [OF \<open>J st1\<close>] show ?thesis by simp
  next
    case True
    then obtain st4 ret4 st5 h5 st6 where x: "set_launched 0 True st1 = Some st4" "exec 0 (st4, h) = Some (ret4, st5, h5)"
      "set_launched 0 False st5 = Some st6"
      and n: "join_workers exec 1 l (if ret4 < 0 then ret4 else 0) (st6, h5) \<bind>
        (\<lambda>(e, st, h). Some (e, st\<lparr>g_running := False\<rparr>, h)) = Some (ret, st', h')"
      using r by (auto split: Option.bind_splits)
    have "J st6" by (rule set_launched_keeps [OF exec [OF set_launched_keeps [OF \<open>J st1\<close> x(1)] x(2)] x(3)])
    then show ?thesis by (rule that [OF _ n])
  qed
  then obtain st3 where j3: "join_workers exec 1 l e2 (st2, h2) = Some (ret, st3, h')" "st' = st3\<lparr>g_running := False\<rparr>"
    by (auto split: Option.bind_splits)
  have "J st3" using join_workers_keeps [of exec, OF exec _ j3(1)] j(1) by simp
  then show ?thesis using fields(3) j3(2) by simp
qed

end

interpretation life: worker_invariant qs ops "life_inv tv" for qs ops tv
  by unfold_locales (erule life_inv_worker_fields life_inv_reader, assumption?)+

section \<open>The life of the process\<close>

text \<open>
  \<open>meanwhile\<close>: what the control threads do while workers poll. \<open>life\<close>: the states the operations of
  the boundary reach, each with any arguments, moments and injected failures. A run is the
  execution of the model's workers, with any sequence of control operations at each pass.
\<close>

inductive meanwhile :: "'q qsbr_ops \<Rightarrow> ('h, 'l) rte_table_ops \<Rightarrow> ('h, 'l, 'q) dp_state \<Rightarrow> ('h, 'l, 'q) dp_state \<Rightarrow> bool"
  for qs ops where
  mw_publish: "array_arg flows nf \<Longrightarrow> array_arg routes nr \<Longrightarrow>
    dp_publish_rules qs ops t reports flows nf routes nr generation st = Some (Returned r st') \<Longrightarrow>
    meanwhile qs ops st st'"
| mw_stop: "meanwhile qs ops st (dp_dataplane_request_stop st)"

definition interferes ::
  "'q qsbr_ops \<Rightarrow> ('h, 'l) rte_table_ops \<Rightarrow> ('h, 'l, 'q) poll \<Rightarrow> bool" where
  "interferes qs ops po \<longleftrightarrow>
     (\<forall>st. (meanwhile qs ops)\<^sup>*\<^sup>* st (po_others po st) \<and> (meanwhile qs ops)\<^sup>*\<^sup>* st (po_during po st))"

inductive life ::
  "eal_ops \<Rightarrow> eth_ops \<Rightarrow> rte_cksum_ops \<Rightarrow> 'q qsbr_ops \<Rightarrow> ('h, 'l) rte_table_ops \<Rightarrow> ('h, 'l, 'q) dp_state \<Rightarrow> bool"
  for el eo ck qs ops where
  life_start: "life el eo ck qs ops dp_start"
| life_init: "life el eo ck qs ops st \<Longrightarrow> dp_runtime_init el argc argv st = (ret, st') \<Longrightarrow> life el eo ck qs ops st'"
| life_configure: "life el eo ck qs ops st \<Longrightarrow> array_arg flows nf \<Longrightarrow> array_arg routes nr \<Longrightarrow>
    dp_configure_rules qs ops t flows nf routes nr st = Some (ret, st') \<Longrightarrow> life el eo ck qs ops st'"
| life_setup: "life el eo ck qs ops st \<Longrightarrow>
    dp_dataplane_setup el eo th rxd txd n st = Some (ret, st', calls) \<Longrightarrow> life el eo ck qs ops st'"
| life_control: "life el eo ck qs ops st \<Longrightarrow> meanwhile qs ops st st' \<Longrightarrow> life el eo ck qs ops st'"
| life_run: "life el eo ck qs ops st \<Longrightarrow> (\<And>i po. po \<in> set (polls i) \<Longrightarrow> interferes qs ops po) \<Longrightarrow>
    dp_dataplane_run (el_launch el) failure (exec_worker ck ops qs failed t polls) st h = Some (ret, st', h') \<Longrightarrow>
    life el eo ck qs ops st'"
| life_teardown: "life el eo ck qs ops st \<Longrightarrow> dp_dataplane_teardown eo t st = Some (ret, st', calls) \<Longrightarrow>
    life el eo ck qs ops st'"
| life_cleanup: "life el eo ck qs ops st \<Longrightarrow> dp_runtime_cleanup el st = Some (ret, st') \<Longrightarrow> life el eo ck qs ops st'"

locale process_env = rte_table_laws ops tv + eth_laws eo
  for ops :: "('h, 'l) rte_table_ops" and tv :: "('h, 'l) table_view" and eo +
  fixes el :: eal_ops
  assumes eal_errno: "0 \<le> el_errno el"
begin

lemma life_inv_meanwhile: "meanwhile qs ops st st' \<Longrightarrow> life_inv tv st \<Longrightarrow> life_inv tv st'"
  by (induction rule: meanwhile.induct)
    (auto intro: life_inv_publish life_inv_worker_fields(2) simp: dp_dataplane_request_stop_def)

lemma life_inv_interferes:
  assumes "interferes qs ops po" "life_inv tv st"
  shows "life_inv tv (po_others po st) \<and> life_inv tv (po_during po st)"
proof -
  have "life_inv tv st'" if "(meanwhile qs ops)\<^sup>*\<^sup>* st st'" for st'
    using that assms(2) by (induction rule: rtranclp_induct) (auto intro: life_inv_meanwhile)
  then show ?thesis using assms(1) by (simp add: interferes_def)
qed

lemma life_life_inv: "life el eo ck qs ops st \<Longrightarrow> life_inv tv st"
proof (induction rule: life.induct)
  case life_start
  show ?case by (rule life_inv_start)
next
  case (life_init st argc argv ret st')
  then show ?case using life_inv_init [OF eal_errno] by blast
next
  case (life_run st polls failure failed t h ret st' h')
  show ?case
  proof (rule life.dp_dataplane_run_keeps [OF _ life_run(3,4)])
    show "life_inv tv s'" if "life_inv tv s" "exec_worker ck ops qs failed t polls i (s, h) = Some (ret, s', h')"
      for i s h ret s' h'
      by (rule life.exec_worker_keeps [OF _ that(2,1)]) (use life_inv_interferes life_run(2) in blast)
  qed
qed (auto intro: life_inv_configure life_inv_setup life_inv_teardown life_inv_meanwhile life_inv_cleanup)

end

section \<open>A teardown on devices that work\<close>

definition device_ok :: "eth_ops \<Rightarrow> nat \<Rightarrow> bool" where
  "device_ok eo t \<longleftrightarrow> (\<forall>p. eo_stop eo t p = 0 \<and> eo_close eo t p = 0) \<and> (\<forall>pool. eo_in_use eo t pool = 0)"

lemma close_port_ok:
  assumes "device_ok eo t"
  shows "\<exists>s ow x cs. close_port eo t i 0 st calls = (0, st\<lparr>g_started := s, g_owned := ow, g_stats := x\<rparr>, cs)"
proof (cases "g_owned st i")
  case False
  then show ?thesis
    by (intro exI [of _ "g_started st"] exI [of _ "g_owned st"] exI [of _ "g_stats st"] exI [of _ calls])
      (simp add: close_port_def)
next
  case True
  then show ?thesis
    using assms
    by (intro exI [of _ "(g_started st)(i := False)"] exI [of _ "(g_owned st)(i := False)"]
        exI [of _ "(g_stats st)\<lparr>st_ports_closed := st_ports_closed (g_stats st) + 1\<rparr>"]
        exI [of _ "calls @ (if g_started st i then [Call_stop (g_ports st i)] else []) @ [Call_close (g_ports st i)]"])
      (auto simp: close_port_def device_ok_def on_stats_def fun_upd_idem Let_def)
qed

lemma teardown_ok:
  assumes ok: "device_ok eo t" and idle: "\<not> g_running st" "dp_workers_stopped st = Some True" and inv: "rules_inv tv st"
  shows "\<exists>st' calls. dp_dataplane_teardown eo t st = Some (0, st', calls)"
proof -
  have "rules_inv tv (st\<lparr>g_ready := False\<rparr>)" using inv by (simp add: rules_inv_def rule_objs_def)
  then obtain st1 where t: "dp_rules_teardown (st\<lparr>g_ready := False\<rparr>) = Some st1"
    using dp_rules_teardown_frees by blast
  obtain st2 cs2 where c0: "close_port eo t 0 0 st1 [] = (0, st2, cs2)" using close_port_ok [OF ok] by blast
  obtain st3 cs3 where c1: "close_port eo t 1 0 st2 cs2 = (0, st3, cs3)" using close_port_ok [OF ok] by blast
  show ?thesis
    using ok idle t c0 c1
    by (simp add: dp_dataplane_teardown_def device_ok_def on_stats_def Let_def split: option.splits)
qed

definition demo_eal :: eal_ops where
  "demo_eal = \<lparr>el_version = ''DPDK 25.11.3'', el_init = (\<lambda>_ _. 4), el_errno = 0, el_main_lcore = 0, el_lcore_count = 2,
     el_lcores = [0, 1], el_lcore_socket = (\<lambda>_. 0), el_socket_id = 0, el_launch = (\<lambda>_. 0), el_cleanup = 0\<rparr>"

interpretation ref_process: process_env "ref_tables fails" ref_view "ref_eth fails'" demo_eal
  by unfold_locales (simp add: demo_eal_def)

definition demo_configured :: "(ref_hash, ref_lpm, ref_qsbr) dp_state" where
  "demo_configured = demo_state\<lparr>g_rules_configured := True,
     g_info := (g_info demo_state)\<lparr>ri_lcore_count := 2, ri_main_lcore := 0\<rparr>\<rparr>"

lemmas queue_loops =
  assign_queues.simps(2) [where k = "pred_numeral v" for v, folded numeral_eq_Suc]
  setup_queues.simps(2) [where k = "pred_numeral v" for v, folded numeral_eq_Suc]

lemma demo_setup:
  "\<exists>st' calls. dp_dataplane_setup demo_eal (ref_eth []) test_hooks_start (Some ''net_tap0'') (Some ''net_tap1'') 2
    demo_configured = Some (0, st', calls)"
  by (simp add: dp_dataplane_setup_def setup_workers_def demo_configured_def demo_state_def sample_state_def dp_start_def demo_eal_def
    DP_MAX_WORKERS_def zero_info_def mem_simps Let_def validate_worker_socket_def find_ports_def ref_eth_def check_device_def validate_queue_capacity_def
    claim_ports_def setup_port_def test_hooks_start_def queue_loops)

text \<open>The demo fleet with its ports, its pool and the ledger of its rules.\<close>

definition demo_up :: "(ref_hash, ref_lpm, ref_qsbr) dp_state" where
  "demo_up = demo_fleet\<lparr>g_rules_configured := True, g_live := rule_objs demo_fleet,
     g_stats := (g_stats demo_fleet)\<lparr>st_rules_generation := sn_generation demo_snapshot\<rparr>,
     g_pool := Some 1, g_owned := (\<lambda>i. i < 2), g_started := (\<lambda>i. i < 2), g_ports := word_of_nat\<rparr>"

lemmas demo_defs = demo_up_def demo_fleet_def demo_state_def sample_state_def dp_start_def

lemma demo_up_inv: "rules_inv ref_view demo_up" "ports_inv demo_up" "all_idle demo_up" "\<not> g_running demo_up"
  "g_initialized demo_up" "g_pool demo_up = Some 1" "g_ports demo_up = word_of_nat" "g_owned demo_up 0"
proof -
  have "\<exists>flows routes. snapshot_repr ref_view flows routes demo_snapshot"
    using demo_represents by (auto simp: represents_def)
  then show "rules_inv ref_view demo_up"
    by (simp add: rules_inv_def rule_objs_def demo_defs)
  show "ports_inv demo_up"
    by (simp add: ports_inv_def demo_defs DP_MAX_WORKERS_def zero_info_def zero_stats_def dp_packet_stats.extend_def)
  show "all_idle demo_up"
    by (simp add: all_idle_def demo_defs fresh_worker_def zero_worker_ctx_def)
qed (simp_all add: demo_defs)

section \<open>Properties\<close>

text \<open>
  C24. The state of the process stays sound. In every state that the operations of the boundary
  reach, in any order, with any arguments and any failures of devices, tables and environment,
  workers running included: without the environment layer no resource is held and no DPDK object
  allocated; a ready dataplane is initialised, has rules, a pool and two started ports; a started
  port is owned; the number of workers fits the array; and the rule state is sound.
\<close>

theorem process_invariant:
  assumes "rte_table_laws ops tv" and "eth_laws eo" and "0 \<le> el_errno el" and "life el eo ck qs ops st"
  shows "rules_inv tv st \<and> unat (g_worker_count st) \<le> length (g_workers st) \<and>
    (\<not> g_initialized st \<longrightarrow> resources_gone st \<and> g_live st = {#}) \<and>
    (g_ready st \<longrightarrow> g_initialized st \<and> g_rules_configured st \<and> g_pool st \<noteq> None \<and> g_started st 0 \<and> g_started st 1) \<and>
    (g_started st 0 \<longrightarrow> g_owned st 0) \<and> (g_started st 1 \<longrightarrow> g_owned st 1)"
proof -
  have "process_env ops tv eo el"
    using assms(1-3) by (simp add: process_env_def process_env_axioms_def)
  from process_env.life_life_inv [OF this assms(4)] have inv: "life_inv tv st" .
  then have "resources_gone st \<longrightarrow> g_live st = {#}"
    by (auto simp: life_inv_def rules_inv_def rule_objs_def resources_gone_def)
  with inv show ?thesis by (simp add: life_inv_def ports_inv_def)
qed

theorem process_invariant_witness:
  "\<exists>(st :: (ref_hash, ref_lpm, ref_qsbr) dp_state) st' calls. dp_runtime_init demo_eal 1 (Some [''flow-router'']) dp_start = (0, st) \<and>
    dp_dataplane_teardown (ref_eth [3]) 0 st = Some (0, st', calls) \<and> rules_inv ref_view st'"
proof -
  obtain st :: "(ref_hash, ref_lpm, ref_qsbr) dp_state" where i: "dp_runtime_init demo_eal 1 (Some [''flow-router'']) dp_start = (0, st)"
    by (simp add: dp_runtime_init_def demo_eal_def dp_start_def)
  have l: "life demo_eal (ref_eth [3]) rfc_cksum (ref_qsbr_ops 128) (ref_tables []) st"
    by (rule life_init [OF life_start i])
  have e: "0 \<le> el_errno demo_eal" by (simp add: demo_eal_def)
  have "rules_inv ref_view st"
    using process_invariant [OF reft.rte_table_laws_axioms ref_eth.eth_laws_axioms e l] by blast
  moreover have "\<not> g_running st" "dp_workers_stopped st = Some True"
    using i by (auto simp: dp_runtime_init_def demo_eal_def dp_start_def dp_workers_stopped_def)
  moreover have "device_ok (ref_eth [3]) 0" by (simp add: device_ok_def ref_eth_def)
  ultimately obtain st' calls where t: "dp_dataplane_teardown (ref_eth [3]) 0 st = Some (0, st', calls)"
    using teardown_ok by blast
  moreover have "rules_inv ref_view st'"
    using process_invariant [OF reft.rte_table_laws_axioms ref_eth.eth_laws_axioms e life_teardown [OF l t]] by blast
  ultimately show ?thesis using i by blast
qed

text \<open>
  C33. Set-up gives every worker its own core and its own pair of queues on both ports. From a sound
  state \<open>dp_dataplane_setup\<close> never faults and returns 0 or a negative code. When it returns 0, worker
  \<open>i\<close> has identity \<open>i\<close>, the \<open>i\<close>-th of the cores with the main core first, and queue \<open>i\<close> on both ports; the
  ports differ; and the calls on each port are one configuration for that many queues, the
  set-up of each queue, and the start, in this order, first for the receiving port. When it
  fails the dataplane is not made ready. The invariant of the ports holds in any case.
\<close>

theorem setup_wires_ports:
  assumes "eth_laws eo" and "ports_inv st"
  shows "\<exists>ret st' calls. dp_dataplane_setup el eo th rx_device tx_device n st = Some (ret, st', calls) \<and> ret \<le> 0 \<and>
    ports_inv st' \<and> (ret < 0 \<longrightarrow> g_ready st' = g_ready st) \<and>
    (ret = 0 \<longrightarrow> g_ready st' \<and> \<not> g_ready st \<and> g_initialized st \<and> g_rules_configured st \<and> g_pool st = None \<and>
       g_ports st' 0 \<noteq> g_ports st' 1 \<and> 0 < unat n \<and> unat n \<le> DP_MAX_WORKERS \<and> g_worker_count st' = n \<and>
       (\<forall>i < unat n. wc_info (g_workers st' ! i) =
          worker_info_of i (worker_lcores (ri_main_lcore (g_info st)) (el_lcores el) ! i)) \<and>
       calls = port_calls (g_ports st' 0) n @ port_calls (g_ports st' 1) n)"
proof -
  obtain ret st' calls where r: "dp_dataplane_setup el eo th rx_device tx_device n st = Some (ret, st', calls)" "ret \<le> 0"
    "ports_inv st'" "ret < 0 \<longrightarrow> g_ready st' = g_ready st"
    "ret = 0 \<longrightarrow> g_ready st' \<and> \<not> g_ready st \<and> g_initialized st \<and> g_rules_configured st \<and> g_pool st = None \<and>
       g_ports st' 0 \<noteq> g_ports st' 1 \<and> workers_fit el n st \<and> g_worker_count st' = n \<and>
       (\<exists>s. workers_ready el n st s \<and> g_workers st' = g_workers s \<and> ri_workers (g_info st') = ri_workers (g_info s)) \<and>
       calls = port_calls (g_ports st' 0) n @ port_calls (g_ports st' 1) n"
    using eth_laws.dp_dataplane_setup_cases [OF assms, of el th rx_device tx_device n] by blast
  have "wc_info (g_workers st' ! i) = worker_info_of i (worker_lcores (ri_main_lcore (g_info st)) (el_lcores el) ! i)"
    if "ret = 0" "i < unat n" for i
    using r(5) that by (auto simp: workers_ready_def Let_def nth_append fresh_worker_def)
  moreover have "0 < unat n \<and> unat n \<le> DP_MAX_WORKERS" if "ret = 0"
    using r(5) that by (simp add: workers_fit_def unat_gt_0)
  ultimately show ?thesis using r by blast
qed

theorem setup_wires_ports_witness:
  "\<exists>st' calls. dp_dataplane_setup demo_eal (ref_eth []) test_hooks_start (Some ''net_tap0'') (Some ''net_tap1'') 2
      demo_configured = Some (0, st', calls) \<and> g_ready st' \<and> calls = port_calls (g_ports st' 0) 2 @ port_calls (g_ports st' 1) 2"
proof -
  have inv: "ports_inv demo_configured"
    by (simp add: ports_inv_def demo_configured_def demo_defs DP_MAX_WORKERS_def zero_info_def zero_stats_def
        dp_packet_stats.extend_def)
  obtain st' calls where s: "dp_dataplane_setup demo_eal (ref_eth []) test_hooks_start (Some ''net_tap0'')
      (Some ''net_tap1'') 2 demo_configured = Some (0, st', calls)" using demo_setup by blast
  with setup_wires_ports [OF ref_eth.eth_laws_axioms [of "[]"] inv, of demo_eal test_hooks_start "Some ''net_tap0''"
      "Some ''net_tap1''" 2] show ?thesis by auto
qed

text \<open>
  C25. Teardown releases in a safe order. On a sound state \<open>dp_dataplane_teardown\<close> never faults. While
  a worker may still run it answers \<open>-EBUSY\<close> and touches nothing. Otherwise every object of the
  rules is freed and the dataplane is no longer ready; the packet pool is freed at most once, as
  the last call, and only after every owned port was closed and with no buffer in use; if it
  returns 0 every resource is gone. The invariants of rules and ports hold in any case, so a
  failed teardown can be tried again.
\<close>

theorem teardown_in_order:
  assumes "eth_laws eo" and "ports_inv st" and "rules_inv tv st"
  shows "\<exists>ret st' calls. dp_dataplane_teardown eo t st = Some (ret, st', calls) \<and> ret \<le> 0 \<and>
    ports_inv st' \<and> rules_inv tv st' \<and>
    (if g_running st \<or> \<not> all_idle st then ret = - EBUSY \<and> st' = st \<and> calls = []
     else all_idle st' \<and> \<not> g_ready st' \<and> g_live st' = {#} \<and> (ret = 0 \<longrightarrow> resources_gone st') \<and>
       (g_pool st' = g_pool st \<and> (\<forall>p. Call_pool_free p \<notin> set calls) \<or>
        (\<exists>pool cs. g_pool st = Some pool \<and> g_pool st' = None \<and> \<not> g_owned st' 0 \<and> \<not> g_owned st' 1 \<and>
           eo_in_use eo t pool = 0 \<and> calls = cs @ [Call_pool_free pool] \<and> (\<forall>p. Call_pool_free p \<notin> set cs) \<and>
           (\<forall>i < 2. g_owned st i \<longrightarrow> Call_close (g_ports st i) \<in> set cs))))"
  using eth_laws.dp_dataplane_teardown_cases [OF assms, of t]
  by (cases "g_running st \<or> \<not> all_idle st") (simp_all only: if_True if_False, blast+)

theorem teardown_in_order_witness:
  "\<exists>ret st' calls. dp_dataplane_teardown (ref_eth []) 0 demo_up = Some (ret, st', calls) \<and> \<not> g_ready st' \<and>
    g_live st' = {#}"
  using teardown_in_order [OF ref_eth.eth_laws_axioms demo_up_inv(2,1), of "[]" 0] demo_up_inv(3,4) by auto

text \<open>
  A shutdown completes. From any sound state with idle workers, whatever set-up or teardown
  failed before, a teardown on devices that stop and close and with no buffer in use returns 0,
  and a clean-up of the initialised environment after it passes its guard: it returns what the
  environment layer returns, and the environment is gone. Without the teardown, while a resource
  is held, the clean-up answers \<open>-EBUSY\<close> and changes nothing.
\<close>

theorem shutdown_completes:
  assumes "eth_laws eo" and "ports_inv st" and "rules_inv tv st" and "all_idle st" and "\<not> g_running st"
    and "g_initialized st" and "device_ok eo t"
  shows "\<exists>st' calls. dp_dataplane_teardown eo t st = Some (0, st', calls) \<and>
    dp_runtime_cleanup el st' = Some (el_cleanup el, st'\<lparr>g_initialized := False\<rparr>) \<and>
    (\<not> resources_gone st \<longrightarrow> dp_runtime_cleanup el st = Some (- EBUSY, st))"
proof -
  have len: "unat (g_worker_count st) \<le> length (g_workers st)" using assms(2) by (simp add: ports_inv_def)
  have "dp_workers_stopped st = Some True" using dp_workers_stopped_idle [OF len] assms(4) by simp
  from teardown_ok [OF assms(7,5) this assms(3)]
  obtain st' calls where t: "dp_dataplane_teardown eo t st = Some (0, st', calls)" by blast
  obtain "ports_inv st'" "g_initialized st'" "\<not> g_running st'" "all_idle st'" "resources_gone st'"
    using eth_laws.dp_dataplane_teardown_cases [OF assms(1-3), of t] t assms(4-6) by auto
  moreover from this have "unat (g_worker_count st') \<le> length (g_workers st')" by (simp add: ports_inv_def)
  ultimately have "dp_runtime_cleanup el st' = Some (el_cleanup el, st'\<lparr>g_initialized := False\<rparr>)"
    by (simp add: dp_runtime_cleanup_cases)
  moreover have "dp_runtime_cleanup el st = Some (- EBUSY, st)" if "\<not> resources_gone st"
    using that assms(6) by (simp add: dp_runtime_cleanup_cases [OF len])
  ultimately show ?thesis using t by blast
qed

theorem shutdown_completes_witness:
  "\<exists>st' calls. dp_dataplane_teardown (ref_eth [3]) 0 demo_up = Some (0, st', calls) \<and>
    dp_runtime_cleanup demo_eal st' = Some (0, st'\<lparr>g_initialized := False\<rparr>) \<and>
    dp_runtime_cleanup demo_eal demo_up = Some (- EBUSY, demo_up)"
proof -
  have "device_ok (ref_eth [3]) 0" by (simp add: device_ok_def ref_eth_def)
  from shutdown_completes [OF ref_eth.eth_laws_axioms demo_up_inv(2,1,3,4,5) this, of demo_eal] demo_up_inv(6)
  show ?thesis by (auto simp: resources_gone_def demo_eal_def)
qed

text \<open>
  The environment layer is entered at most once. \<open>dp_runtime_init\<close> returns 0 or a negative code; it
  returns 0 only from a state in which it was never attempted, with the required DPDK version, and
  then the state is initialised, the rest of it is as before, and \<open>dp_runtime_get_info\<close> reports the
  environment's main core and number of cores. Once attempted, every later call answers
  \<open>-EALREADY\<close> and changes nothing, whatever its arguments.
\<close>

theorem runtime_init_once:
  assumes "0 \<le> el_errno el" and "dp_runtime_init el argc argv st = (ret, st')"
  shows "ret \<le> 0 \<and>
    (ret < 0 \<longrightarrow> g_initialized st' = g_initialized st) \<and>
    (ret = 0 \<longrightarrow> \<not> g_attempted st \<and> g_attempted st' \<and> g_initialized st' \<and> rules_frame st st' \<and>
       el_version el = ''DPDK 25.11.3'' \<and> 1 \<le> argc \<and> argv \<noteq> None \<and>
       (\<exists>i. \<forall>out. dp_runtime_get_info (Some out) st' = (0, Some i) \<and>
          ri_main_lcore i = el_main_lcore el \<and> ri_lcore_count i = el_lcore_count el)) \<and>
    (g_attempted st' \<longrightarrow> (\<forall>el argc argv. dp_runtime_init el argc argv st' = (- EALREADY, st')))"
proof -
  note c = dp_runtime_init_cases [OF assms]
  have "\<forall>el argc argv. g_attempted s \<longrightarrow> dp_runtime_init el argc argv s = (- EALREADY, s)" for s :: "('a, 'b, 'c) dp_state"
    by (simp add: dp_runtime_init_def)
  moreover have "el_version el = ''DPDK 25.11.3'' \<and> 1 \<le> argc \<and> argv \<noteq> None \<and>
      ri_main_lcore (g_info st') = el_main_lcore el \<and> ri_lcore_count (g_info st') = el_lcore_count el" if "ret = 0"
    using assms that errno_or_neg [OF assms(1), of EIO]
    by (auto simp: dp_runtime_init_def Let_def errno_simps split: if_splits option.splits)
  ultimately show ?thesis using c by (cases "ret < 0") (auto simp: dp_runtime_get_info_def)
qed

theorem runtime_init_once_witness:
  "dp_runtime_init demo_eal 1 (Some [''flow-router'']) (dp_start :: (ref_hash, ref_lpm, ref_qsbr) dp_state) =
      (0, snd (dp_runtime_init demo_eal 1 (Some [''flow-router'']) dp_start)) \<and>
    g_initialized (snd (dp_runtime_init demo_eal 1 (Some [''flow-router'']) (dp_start :: (ref_hash, ref_lpm, ref_qsbr) dp_state)))"
proof -
  obtain st :: "(ref_hash, ref_lpm, ref_qsbr) dp_state" where i: "dp_runtime_init demo_eal 1 (Some [''flow-router'']) dp_start = (0, st)"
    by (simp add: dp_runtime_init_def demo_eal_def dp_start_def)
  then show ?thesis using runtime_init_once [OF _ i] by (simp add: demo_eal_def)
qed

end
