(* ===== verification/Dp_Rcu.thy ===== *)
theory Dp_Rcu
  imports Dp_Lifecycle
begin


text \<open>
  Workers and publishers interleaved. A worker's pass and \<open>dp_publish_rules\<close> are cut into the steps
  between which other threads run: each atomic access, each call on the QSBR variable, and the
  sections under the writer lock. A system has any number of publishers and \<open>n\<close> workers, each with
  a program counter beside the shared state; one step is a step of one thread. The operations
  are those of \<open>Dp_Rules\<close> and \<open>Dp_Worker\<close>.
\<close>

section \<open>The steps of a worker\<close>

text \<open>
  \<open>R_holding x\<close>: the worker has loaded \<open>x\<close> as the active snapshot and handles a burst with it.
\<close>

datatype ('h, 'l) reader_pc = R_out | R_entered | R_polling | R_holding "('h, 'l) dp_rule_snapshot option"

inductive reader_step ::
  "'q qsbr_ops \<Rightarrow> ('h, 'l) rte_table_ops \<Rightarrow> nat \<Rightarrow>
   ('h, 'l) reader_pc \<Rightarrow> ('h, 'l, 'q) dp_state \<Rightarrow> ('h, 'l) reader_pc \<Rightarrow> ('h, 'l, 'q) dp_state \<Rightarrow> bool"
  for qs ops r where
  r_enter: "reader_step qs ops r R_out st R_entered (st\<lparr>g_active_workers := g_active_workers st + 1\<rparr>)"
| r_register: "dp_rules_reader_register qs ops t r st = (ret, st') \<Longrightarrow> \<not> ret < 0 \<Longrightarrow>
    reader_step qs ops r R_entered st R_polling st'"
| r_refused: "dp_rules_reader_register qs ops t r st = (ret, st1) \<Longrightarrow> ret < 0 \<Longrightarrow>
    worker_fail ret st1 w h = (res, st', w', h') \<Longrightarrow> reader_step qs ops r R_entered st R_out st'"
| r_injected: "worker_fail (- EIO) st w h = (res, st', w', h') \<Longrightarrow> reader_step qs ops r R_entered st R_out st'"
| r_load: "\<not> g_stop st \<Longrightarrow> reader_step qs ops r R_polling st (R_holding (dp_rules_active_load st)) st"
| r_report: "dp_rules_reader_quiescent qs r st = Some st' \<Longrightarrow> reader_step qs ops r (R_holding x) st R_polling st'"
| r_leave: "g_stop st \<Longrightarrow> dp_rules_reader_unregister qs r st = Some st' \<Longrightarrow>
    reader_step qs ops r R_polling st R_out (st'\<lparr>g_active_workers := g_active_workers st' - 1\<rparr>)"

section \<open>The steps of a publisher\<close>

text \<open>
  The lock can be taken when no publisher holds it. \<open>W_waiting\<close> is the loop of the blocking check: the
  step out of it is a check that answers true, the checks that answer false change nothing.
\<close>

datatype ('h, 'l) writer_pc =
    W_idle
  | W_locked
  | W_built "('h, 'l) dp_rule_snapshot option" u64
  | W_exchanged "('h, 'l) dp_rule_snapshot option" u64
  | W_accounted "('h, 'l) dp_rule_snapshot option"
  | W_waiting "('h, 'l) dp_rule_snapshot option" u64
  | W_grace "('h, 'l) dp_rule_snapshot option"
  | W_done

inductive writer_step ::
  "'q qsbr_ops \<Rightarrow> ('h, 'l) rte_table_ops \<Rightarrow>
   ('h, 'l) writer_pc \<Rightarrow> ('h, 'l, 'q) dp_state \<Rightarrow> ('h, 'l) writer_pc \<Rightarrow> ('h, 'l, 'q) dp_state \<Rightarrow> bool"
  for qs ops where
  w_enter: "\<not> g_writer_lock st \<Longrightarrow> writer_step qs ops W_idle st W_locked (publish_enter st)"
| w_refused: "publish_build ops t flows nf routes nr st = Some (ret, s, st') \<Longrightarrow> array_arg flows nf \<Longrightarrow>
    array_arg routes nr \<Longrightarrow> ret < 0 \<Longrightarrow> writer_step qs ops W_locked st W_done st'"
| w_build: "publish_build ops t flows nf routes nr st = Some (ret, s, st') \<Longrightarrow> array_arg flows nf \<Longrightarrow>
    array_arg routes nr \<Longrightarrow> \<not> ret < 0 \<Longrightarrow>
    writer_step qs ops W_locked st (W_built s (st_rules_generation (g_stats st) + 1)) st'"
| w_exchange: "publish_exchange s st = (old, st') \<Longrightarrow> writer_step qs ops (W_built s g) st (W_exchanged old g) st'"
| w_account: "writer_step qs ops (W_exchanged old g) st (W_accounted old) (publish_account g st)"
| w_start: "publish_start qs st = Some (token, st') \<Longrightarrow> writer_step qs ops (W_accounted old) st (W_waiting old token) st'"
| w_check: "publish_check qs token st = Some True \<Longrightarrow> writer_step qs ops (W_waiting old token) st (W_grace old) st"
| w_free: "dp_snapshot_free old True True st = Some st' \<Longrightarrow> writer_step qs ops (W_grace old) st W_done st'"
| w_exit: "writer_step qs ops W_done st W_idle (publish_exit st)"

section \<open>The system\<close>

record ('h, 'l, 'q) rcu =
  rc_state :: "('h, 'l, 'q) dp_state"
  rc_reader :: "nat \<Rightarrow> ('h, 'l) reader_pc"
  rc_writer :: "nat \<Rightarrow> ('h, 'l) writer_pc"

datatype rcu_label = By_reader nat | By_writer nat | By_stop

inductive rcu_step ::
  "'q qsbr_ops \<Rightarrow> ('h, 'l) rte_table_ops \<Rightarrow> nat \<Rightarrow> rcu_label \<Rightarrow> ('h, 'l, 'q) rcu \<Rightarrow> ('h, 'l, 'q) rcu \<Rightarrow> bool"
  for qs ops n where
  rcu_reader: "r < n \<Longrightarrow> reader_step qs ops r (rc_reader s r) (rc_state s) pc st \<Longrightarrow>
    rcu_step qs ops n (By_reader r) s (s\<lparr>rc_state := st, rc_reader := (rc_reader s)(r := pc)\<rparr>)"
| rcu_writer: "writer_step qs ops (rc_writer s w) (rc_state s) pc st \<Longrightarrow>
    rcu_step qs ops n (By_writer w) s (s\<lparr>rc_state := st, rc_writer := (rc_writer s)(w := pc)\<rparr>)"
| rcu_stop: "rcu_step qs ops n By_stop s (s\<lparr>rc_state := dp_dataplane_request_stop (rc_state s)\<rparr>)"

definition rcu_start :: "('h, 'l, 'q) dp_state \<Rightarrow> ('h, 'l, 'q) rcu" where
  "rcu_start st = \<lparr>rc_state = st, rc_reader = (\<lambda>_. R_out), rc_writer = (\<lambda>_. W_idle)\<rparr>"

inductive rcu_run ::
  "'q qsbr_ops \<Rightarrow> ('h, 'l) rte_table_ops \<Rightarrow> nat \<Rightarrow> ('h, 'l, 'q) rcu \<Rightarrow> rcu_label list \<Rightarrow> ('h, 'l, 'q) rcu \<Rightarrow> bool"
  for qs ops n where
  rcu_nil: "rcu_run qs ops n s [] s"
| rcu_cons: "rcu_step qs ops n l s s1 \<Longrightarrow> rcu_run qs ops n s1 ls s' \<Longrightarrow> rcu_run qs ops n s (l # ls) s'"

inductive_cases reader_stepE: "reader_step qs ops r pc st pc' st'"
inductive_cases writer_stepE: "writer_step qs ops pc st pc' st'"
inductive_cases rcu_stepE: "rcu_step qs ops n l s s'"

section \<open>The invariant\<close>

text \<open>
  The snapshot a publisher has taken out and not yet freed, and the DPDK objects it is responsible
  for. A reader may still hold the old snapshot from the exchange to the end of the grace period;
  after the start of the grace period only if the QSBR variable waits for it.
\<close>

fun retired :: "('h, 'l) writer_pc \<Rightarrow> ('h, 'l) dp_rule_snapshot option" where
  "retired (W_exchanged old g) = old"
| "retired (W_accounted old) = old"
| "retired (W_waiting old token) = old"
| "retired (W_grace old) = old"
| "retired _ = None"

definition objs_of :: "('h, 'l) dp_rule_snapshot option \<Rightarrow> rte_obj multiset" where
  "objs_of s = (case s of None \<Rightarrow> {#} | Some s \<Rightarrow> snapshot_objs s)"

lemma objs_of_simps [simp]: "objs_of None = {#}" "objs_of (Some s) = snapshot_objs s"
  by (simp_all add: objs_of_def)

fun owned_objs :: "('h, 'l) writer_pc \<Rightarrow> rte_obj multiset" where
  "owned_objs (W_built s g) = objs_of s"
| "owned_objs pc = objs_of (retired pc)"

fun may_hold :: "'q qsbr_view \<Rightarrow> 'q \<Rightarrow> nat \<Rightarrow> ('h, 'l) writer_pc \<Rightarrow> bool" where
  "may_hold qv q r (W_exchanged old g) = True"
| "may_hold qv q r (W_accounted old) = True"
| "may_hold qv q r (W_waiting old token) = (r \<in> qs_waits qv q)"
| "may_hold qv q r _ = False"

definition good_snapshot :: "('h, 'l) table_view \<Rightarrow> ('h, 'l) dp_rule_snapshot option \<Rightarrow> bool" where
  "good_snapshot tv s \<longleftrightarrow> (\<exists>x flows routes. s = Some x \<and> snapshot_repr tv flows routes x)"

fun phase_ok ::
  "('h, 'l) table_view \<Rightarrow> 'q qsbr_view \<Rightarrow> 'q \<Rightarrow> u64 \<Rightarrow> u64 \<Rightarrow> ('h, 'l) writer_pc \<Rightarrow> bool" where
  "phase_ok tv qv q a g (W_built s g') = (a = g \<and> g' = g + 1 \<and> good_snapshot tv s \<and> (\<forall>x. s = Some x \<longrightarrow> sn_generation x = g'))"
| "phase_ok tv qv q a g (W_exchanged old g') = (g' = g + 1 \<and> a = g' \<and> good_snapshot tv old)"
| "phase_ok tv qv q a g (W_accounted old) = (a = g \<and> good_snapshot tv old)"
| "phase_ok tv qv q a g (W_waiting old token) = (a = g \<and> good_snapshot tv old \<and> token = qs_token qv q)"
| "phase_ok tv qv q a g (W_grace old) = (a = g \<and> good_snapshot tv old)"
| "phase_ok tv qv q a g _ = (a = g)"

text \<open>What holds of the shared state when the one busy publisher is at \<open>pc\<close>.\<close>

definition shared_ok ::
  "('h, 'l) table_view \<Rightarrow> 'q qsbr_view \<Rightarrow> ('h, 'l) writer_pc \<Rightarrow> ('h, 'l, 'q) dp_state \<Rightarrow> bool" where
  "shared_ok tv qv pc st \<longleftrightarrow>
     g_writer_lock st = (pc \<noteq> W_idle) \<and> g_writer_active st = (pc \<noteq> W_idle) \<and> g_initialized st \<and> g_rules_configured st \<and>
     good_snapshot tv (g_active_rules st) \<and>
     g_live st = objs_of (g_active_rules st) + {#Obj_Qsbr#} + owned_objs pc \<and>
     (\<exists>q. g_rules_qsbr st = Some q \<and> qs_inv qv q \<and>
       phase_ok tv qv q (sn_generation (the (g_active_rules st))) (st_rules_generation (g_stats st)) pc)"

text \<open>What holds of a reader.\<close>

fun reader_ok ::
  "'q qsbr_view \<Rightarrow> 'q \<Rightarrow> nat \<Rightarrow> ('h, 'l) writer_pc \<Rightarrow> ('h, 'l) dp_rule_snapshot option \<Rightarrow> ('h, 'l) reader_pc \<Rightarrow> bool" where
  "reader_ok qv q r pc active (R_holding x) =
     (r \<in> qs_online qv q \<and> (x = active \<or> x = retired pc \<and> may_hold qv q r pc))"
| "reader_ok qv q r pc active R_polling = (r \<in> qs_online qv q)"
| "reader_ok qv q r pc active _ = (r \<notin> qs_online qv q)"

definition rcu_inv :: "('h, 'l) table_view \<Rightarrow> 'q qsbr_view \<Rightarrow> ('h, 'l, 'q) rcu \<Rightarrow> bool" where
  "rcu_inv tv qv s \<longleftrightarrow> (\<exists>w pc. rc_writer s = (\<lambda>_. W_idle)(w := pc) \<and> shared_ok tv qv pc (rc_state s) \<and>
     (\<forall>r. reader_ok qv (the (g_rules_qsbr (rc_state s))) r pc (g_active_rules (rc_state s)) (rc_reader s r)))"

section \<open>Steps of a worker keep it\<close>

text \<open>\<open>moved qv r q q'\<close>: only the entry of reader \<open>r\<close> changes.\<close>

definition moved :: "'q qsbr_view \<Rightarrow> nat \<Rightarrow> 'q \<Rightarrow> 'q \<Rightarrow> bool" where
  "moved qv r q q' \<longleftrightarrow> qs_inv qv q' \<and> qs_token qv q' = qs_token qv q \<and>
     qs_online qv q' - {r} = qs_online qv q - {r} \<and> qs_waits qv q' - {r} = qs_waits qv q - {r}"

text \<open>A step in which a worker changes its own entry and no field of the rules.\<close>

definition rule_fields :: "('h, 'l, 'q) dp_state \<Rightarrow>
    (bool \<times> bool \<times> bool \<times> bool) \<times> ('h, 'l) dp_rule_snapshot option \<times> rte_obj multiset \<times> u64" where
  "rule_fields st = ((g_writer_lock st, g_writer_active st, g_initialized st, g_rules_configured st),
     g_active_rules st, g_live st, st_rules_generation (g_stats st))"

definition worker_moved :: "'q qsbr_view \<Rightarrow> nat \<Rightarrow> ('h, 'l, 'q) dp_state \<Rightarrow> ('h, 'l, 'q) dp_state \<Rightarrow> bool" where
  "worker_moved qv r st st' \<longleftrightarrow> rule_fields st' = rule_fields st \<and>
     (\<exists>q q'. g_rules_qsbr st = Some q \<and> g_rules_qsbr st' = Some q' \<and> moved qv r q q')"

lemma moved_phase: "moved qv r q q' \<Longrightarrow> phase_ok tv qv q' a g pc = phase_ok tv qv q a g pc"
  by (cases pc) (auto simp: moved_def)

lemma moved_other: "moved qv r q q' \<Longrightarrow> r' \<noteq> r \<Longrightarrow>
    (r' \<in> qs_online qv q' \<longleftrightarrow> r' \<in> qs_online qv q) \<and> (r' \<in> qs_waits qv q' \<longleftrightarrow> r' \<in> qs_waits qv q)"
  by (auto simp: moved_def)

lemma worker_moved_shared:
  assumes "shared_ok tv qv pc st" "worker_moved qv r st st'"
  shows "shared_ok tv qv pc st'"
proof -
  obtain q q' where q: "g_rules_qsbr st = Some q" "g_rules_qsbr st' = Some q'" "moved qv r q q'"
    using assms(2) by (auto simp: worker_moved_def)
  have "qs_inv qv q'" using q(3) by (simp add: moved_def)
  then show ?thesis
    using assms q(1,2) by (simp add: shared_ok_def worker_moved_def rule_fields_def moved_phase [OF q(3)])
qed

lemma worker_moved_reader:
  assumes "worker_moved qv r st st'" "r' \<noteq> r" "reader_ok qv (the (g_rules_qsbr st)) r' pc (g_active_rules st) rp"
  shows "reader_ok qv (the (g_rules_qsbr st')) r' pc (g_active_rules st') rp"
proof -
  obtain q q' where q: "g_rules_qsbr st = Some q" "g_rules_qsbr st' = Some q'" "moved qv r q q'"
    using assms(1) by (auto simp: worker_moved_def)
  note o = moved_other [OF q(3) assms(2)]
  have "may_hold qv q' r' pc = may_hold qv q r' pc" using o by (cases pc) simp_all
  moreover have "g_active_rules st' = g_active_rules st" using assms(1) by (simp add: worker_moved_def rule_fields_def)
  ultimately show ?thesis using assms(3) o q(1,2) by (cases rp) simp_all
qed

lemma worker_moved_fields:
  "worker_moved qv r st (st'\<lparr>g_active_workers := a\<rparr>) = worker_moved qv r st st'"
  "worker_moved qv r st (st'\<lparr>g_stop := b\<rparr>) = worker_moved qv r st st'"
  "worker_moved qv r (st\<lparr>g_active_workers := a\<rparr>) st' = worker_moved qv r st st'"
  by (simp_all add: worker_moved_def rule_fields_def)

context worker_env
begin

lemma worker_moved_refl: "g_rules_qsbr st = Some q \<Longrightarrow> qs_inv qv q \<Longrightarrow> worker_moved qv r st st"
  by (simp add: worker_moved_def moved_def)

lemma reader_register_moved:
  assumes "g_rules_qsbr st = Some q" "qs_inv qv q" "dp_rules_reader_register qs ops t r st = (ret, st')"
  shows "worker_moved qv r st st' \<and>
    qs_online qv (the (g_rules_qsbr st')) = (if ret < 0 then qs_online qv q else insert r (qs_online qv q)) \<and>
    qs_waits qv (the (g_rules_qsbr st')) \<subseteq> qs_waits qv q"
proof (cases "r < qsbr_max_lcore qs")
  case False
  then show ?thesis
    using assms worker_moved_refl [OF assms(1,2)] by (auto simp: dp_rules_reader_register_def errno_simps)
next
  case True
  obtain e q1 where reg: "qsbr_thread_register qs q r = (e, q1)" by fastforce
  note law = register_law [OF assms(2) reg]
  have neg: "errno_or (rte_errno ops t) EIO < 0" by (rule errno_or_neg [OF errno_law]) (simp add: errno_simps)
  show ?thesis
  proof (cases "e = 0")
    case False
    then have "ret = errno_or (rte_errno ops t) EIO" "st' = st\<lparr>g_rules_qsbr := Some q1\<rparr>"
      using assms(1,3) True reg by (simp_all add: dp_rules_reader_register_def)
    then show ?thesis using neg law assms(1) by (simp add: worker_moved_def moved_def rule_fields_def)
  next
    case e: True
    define q2 where "q2 = qsbr_thread_online qs q1 r"
    have "ret = 0" "st' = st\<lparr>g_rules_qsbr := Some q2, g_registered_readers := g_registered_readers st + 1\<rparr>"
      using assms(1,3) True reg e by (simp_all add: dp_rules_reader_register_def q2_def)
    moreover have "moved qv r q q2" "qs_online qv q2 = insert r (qs_online qv q)" "qs_waits qv q2 \<subseteq> qs_waits qv q"
      using law online_law [OF _ q2_def True] by (auto simp: moved_def)
    ultimately show ?thesis using assms(1) by (simp add: worker_moved_def rule_fields_def)
  qed
qed

lemma reader_quiescent_moved:
  assumes "g_rules_qsbr st = Some q" "qs_inv qv q" "r \<in> qs_online qv q" "dp_rules_reader_quiescent qs r st = Some st'"
  shows "worker_moved qv r st st' \<and> r \<in> qs_online qv (the (g_rules_qsbr st')) \<and>
    qs_waits qv (the (g_rules_qsbr st')) = qs_waits qv q - {r}"
proof -
  have st': "st' = st\<lparr>g_rules_qsbr := Some (qsbr_quiescent qs q r)\<rparr>"
    using assms(1,4) by (simp add: dp_rules_reader_quiescent_def)
  note law = quiescent_law [OF assms(2) refl assms(3)]
  then show ?thesis using assms(1,3) by (simp add: st' worker_moved_def moved_def rule_fields_def)
qed

lemma reader_unregister_moved:
  assumes "g_rules_qsbr st = Some q" "qs_inv qv q" "dp_rules_reader_unregister qs r st = Some st'"
  shows "worker_moved qv r st st' \<and> r \<notin> qs_online qv (the (g_rules_qsbr st')) \<and>
    qs_waits qv (the (g_rules_qsbr st')) = qs_waits qv q - {r}"
proof -
  define q1 where "q1 = qsbr_thread_offline qs q r"
  obtain e q2 where u: "qsbr_thread_unregister qs q1 r = (e, q2)" by fastforce
  have st': "st' = st\<lparr>g_rules_qsbr := Some q2, g_registered_readers := g_registered_readers st - 1\<rparr>"
    using assms(1,3) u by (simp add: dp_rules_reader_unregister_def q1_def)
  note law1 = offline_law [OF assms(2) q1_def]
  have law2: "qs_inv qv q2" "qs_online qv q2 = qs_online qv q1" "qs_waits qv q2 = qs_waits qv q1"
    "qs_token qv q2 = qs_token qv q1" using unregister_law [OF _ u] law1 by auto
  show ?thesis using law1 law2 assms(1) by (simp add: st' worker_moved_def moved_def rule_fields_def)
qed

text \<open>Every step of a worker: it changes only its own entry, and its new program counter is in order.\<close>

lemma reader_step_moves:
  assumes shared: "shared_ok tv qv pc st" and ok: "reader_ok qv (the (g_rules_qsbr st)) r pc (g_active_rules st) rp"
    and step: "reader_step qs ops r rp st rp' st'"
  shows "worker_moved qv r st st' \<and> reader_ok qv (the (g_rules_qsbr st')) r pc (g_active_rules st') rp'"
proof -
  obtain q where q: "g_rules_qsbr st = Some q" "qs_inv qv q" using shared by (auto simp: shared_ok_def)
  note refl = worker_moved_refl [OF q]
  have active: "g_active_rules s = g_active_rules st" if "worker_moved qv r st s" for s
    using that by (simp add: worker_moved_def rule_fields_def)
  from step show ?thesis
  proof cases
    case r_enter
    then show ?thesis using refl [of r] ok by (simp add: worker_moved_fields)
  next
    case (r_register t ret)
    then show ?thesis using reader_register_moved [OF q r_register(3)] by simp
  next
    case (r_refused t ret st1 w h res w' h')
    then have "worker_moved qv r st st1" "r \<notin> qs_online qv (the (g_rules_qsbr st1))"
      using reader_register_moved [OF q r_refused(3)] ok q by auto
    then show ?thesis using r_refused(2,5) by (auto simp: worker_fail_def worker_moved_fields)
  next
    case (r_injected w h res w' h')
    then show ?thesis using refl [of r] ok by (auto simp: worker_fail_def worker_moved_fields)
  next
    case r_load
    then show ?thesis using refl [of r] ok by (simp add: dp_rules_active_load_def)
  next
    case (r_report x)
    then have "r \<in> qs_online qv q" using ok q by simp
    from reader_quiescent_moved [OF q this r_report(3)] r_report(2) show ?thesis by simp
  next
    case (r_leave st1)
    from reader_unregister_moved [OF q r_leave(5)] r_leave(2,3) show ?thesis by (simp add: worker_moved_fields)
  qed
qed

end

section \<open>Steps of a publisher keep it\<close>

lemma freed_stats_generation [simp]: "st_rules_generation (freed_stats s a b x) = st_rules_generation x"
  by (simp add: freed_stats_def Let_def)

lemma reader_ok_online: "reader_ok qv q r pc active rp \<Longrightarrow> (r \<in> qs_online qv q \<longleftrightarrow> rp = R_polling \<or> (\<exists>x. rp = R_holding x))"
  by (cases rp) auto

lemma reader_ok_pc:
  assumes "reader_ok qv q r pc active rp" "retired pc' = retired pc" "may_hold qv q r pc \<Longrightarrow> may_hold qv q r pc'"
  shows "reader_ok qv q r pc' active rp"
  using assms by (cases rp) auto

context worker_env
begin

lemma publish_build_ok:
  assumes shared: "shared_ok tv qv W_locked st" and arr: "array_arg flows nf" "array_arg routes nr"
    and build: "publish_build ops t flows nf routes nr st = Some (ret, s, st')"
  shows "g_active_rules st' = g_active_rules st \<and> g_rules_qsbr st' = g_rules_qsbr st \<and>
    (ret < 0 \<longrightarrow> shared_ok tv qv W_done st') \<and>
    (\<not> ret < 0 \<longrightarrow> shared_ok tv qv (W_built s (st_rules_generation (g_stats st) + 1)) st' \<and>
       args_ok flows nf routes nr \<and> (\<exists>x. s = Some x \<and> snapshot_repr tv (rules_of flows nf) (rules_of routes nr) x))"
proof -
  from publish_build_cases [OF errno_law arr, of t st]
  consider (ok) x where
      "publish_build ops t flows nf routes nr st = Some (0, Some x, st\<lparr>g_live := g_live st + snapshot_objs x\<rparr>)"
      "dp_snapshot_build ops t flows nf routes nr (st_rules_generation (g_stats st) + 1) st =
         Some (0, Some x, st\<lparr>g_live := g_live st + snapshot_objs x\<rparr>)"
      "sn_generation x = st_rules_generation (g_stats st) + 1"
    | (fail) e f where "publish_build ops t flows nf routes nr st = Some (e, None, on_stats f st)" "e < 0"
      "f = (\<lambda>x. x) \<or> f = count_failed" by blast
  then show ?thesis
  proof cases
    case ok
    have r: "args_ok flows nf routes nr" "snapshot_repr tv (rules_of flows nf) (rules_of routes nr) x"
      using dp_snapshot_build_repr [OF ok(2) arr] by simp_all
    then have "good_snapshot tv (Some x)" by (auto simp: good_snapshot_def)
    with ok(1,3) build shared r show ?thesis by (auto simp: shared_ok_def objs_of_def)
  next
    case fail
    have "st_rules_generation (f x) = st_rules_generation x" for x using fail(3) by (auto simp: count_failed_def)
    with fail build shared show ?thesis by (auto simp: shared_ok_def)
  qed
qed

lemma publish_start_ok:
  assumes shared: "shared_ok tv qv (W_accounted old) st" and start: "publish_start qs st = Some (token, st')"
  shows "shared_ok tv qv (W_waiting old token) st' \<and> g_active_rules st' = g_active_rules st \<and>
    qs_online qv (the (g_rules_qsbr st')) = qs_online qv (the (g_rules_qsbr st)) \<and>
    qs_waits qv (the (g_rules_qsbr st')) = qs_online qv (the (g_rules_qsbr st))"
proof -
  obtain q where q: "g_rules_qsbr st = Some q" "qs_inv qv q" using shared by (auto simp: shared_ok_def)
  obtain tok q' where s: "qsbr_start qs q = (tok, q')" by fastforce
  then have "token = tok" "st' = st\<lparr>g_rules_qsbr := Some q'\<rparr>"
    using start q(1) by (simp_all add: publish_start_def)
  with start_law [OF q(2) s] shared q(1) show ?thesis by (simp add: shared_ok_def)
qed

lemma publish_free_ok:
  assumes shared: "shared_ok tv qv (W_grace old) st"
  shows "\<exists>st'. dp_snapshot_free old True True st = Some st' \<and> shared_ok tv qv W_done st' \<and>
    g_active_rules st' = g_active_rules st \<and> g_rules_qsbr st' = g_rules_qsbr st"
proof -
  obtain x where x: "old = Some x" using shared by (auto simp: shared_ok_def good_snapshot_def)
  have "g_live st = (objs_of (g_active_rules st) + {#Obj_Qsbr#}) + snapshot_objs x"
    using shared by (simp add: shared_ok_def x objs_of_def)
  from dp_snapshot_free_frees [OF this, of True True] shared show ?thesis
    by (auto simp: x shared_ok_def)
qed

lemma writer_step_ok:
  assumes shared: "shared_ok tv qv pc st"
    and readers: "\<And>r. reader_ok qv (the (g_rules_qsbr st)) r pc (g_active_rules st) (rd r)"
    and step: "writer_step qs ops pc st pc' st'"
  shows "shared_ok tv qv pc' st' \<and> (\<forall>r. reader_ok qv (the (g_rules_qsbr st')) r pc' (g_active_rules st') (rd r))"
proof -
  obtain q where q: "g_rules_qsbr st = Some q" "qs_inv qv q" using shared by (auto simp: shared_ok_def)
  have same: "\<forall>r. reader_ok qv (the (g_rules_qsbr st')) r pc' (g_active_rules st') (rd r)"
    if "g_rules_qsbr st' = g_rules_qsbr st" "g_active_rules st' = g_active_rules st" "retired pc' = retired pc"
      "\<And>r. may_hold qv q r pc \<Longrightarrow> may_hold qv q r pc'"
    using reader_ok_pc [OF readers] that q(1) by simp
  from step show ?thesis
  proof cases
    case w_enter
    then have "shared_ok tv qv pc' st'" using shared by (auto simp: shared_ok_def publish_enter_def)
    moreover have "\<forall>r. reader_ok qv (the (g_rules_qsbr st')) r pc' (g_active_rules st') (rd r)"
      by (rule same) (simp_all add: w_enter)
    ultimately show ?thesis ..
  next
    case (w_refused t flows nf routes nr ret s)
    note b = publish_build_ok [OF shared [unfolded w_refused(1)] w_refused(4,5,3)]
    have "\<forall>r. reader_ok qv (the (g_rules_qsbr st')) r pc' (g_active_rules st') (rd r)"
      by (rule same) (use b w_refused in simp_all)
    then show ?thesis using b w_refused(2,6) by simp
  next
    case (w_build t flows nf routes nr ret s)
    note b = publish_build_ok [OF shared [unfolded w_build(1)] w_build(4,5,3)]
    have "\<forall>r. reader_ok qv (the (g_rules_qsbr st')) r pc' (g_active_rules st') (rd r)"
      by (rule same) (use b w_build in simp_all)
    then show ?thesis using b w_build(2,6) by simp
  next
    case (w_exchange s old g)
    then have st': "old = g_active_rules st" "st' = st\<lparr>g_active_rules := s\<rparr>" by (simp_all add: publish_exchange_def)
    have "shared_ok tv qv pc' st'"
      using shared w_exchange(1,2) by (auto simp: shared_ok_def st' good_snapshot_def objs_of_def add_ac)
    moreover have "reader_ok qv (the (g_rules_qsbr st')) r pc' (g_active_rules st') (rd r)" for r
      using readers [of r] w_exchange(1,2) by (cases "rd r") (auto simp: st')
    ultimately show ?thesis by blast
  next
    case (w_account old g)
    then have "shared_ok tv qv pc' st'" using shared by (auto simp: shared_ok_def publish_account_def)
    moreover have "\<forall>r. reader_ok qv (the (g_rules_qsbr st')) r pc' (g_active_rules st') (rd r)"
      by (rule same) (simp_all add: w_account publish_account_def)
    ultimately show ?thesis ..
  next
    case (w_start token old)
    note b = publish_start_ok [OF shared [unfolded w_start(1)] w_start(3)]
    have "reader_ok qv (the (g_rules_qsbr st')) r pc' (g_active_rules st') (rd r)" for r
      using readers [of r] w_start(1,2) b by (cases "rd r") auto
    with b w_start(2) show ?thesis by simp
  next
    case (w_check token old)
    have "token = qs_token qv q" using shared w_check(1) q by (auto simp: shared_ok_def)
    then have w: "qs_waits qv q = {}" using check_law [OF q(2)] w_check(4) q(1) by (simp add: publish_check_def)
    have "reader_ok qv (the (g_rules_qsbr st')) r pc' (g_active_rules st') (rd r)" for r
      using readers [of r] w w_check(1-3) q(1) by (cases "rd r") auto
    moreover have "shared_ok tv qv pc' st'" using shared w_check(1-3) by (auto simp: shared_ok_def)
    ultimately show ?thesis by blast
  next
    case (w_free old)
    from publish_free_ok [OF shared [unfolded w_free(1)]] w_free(3)
    have b: "shared_ok tv qv W_done st'" "g_active_rules st' = g_active_rules st" "g_rules_qsbr st' = g_rules_qsbr st"
      by auto
    have "reader_ok qv (the (g_rules_qsbr st')) r pc' (g_active_rules st') (rd r)" for r
      using readers [of r] b w_free(1,2) by (cases "rd r") auto
    then show ?thesis using b(1) w_free(2) by simp
  next
    case w_exit
    then have "shared_ok tv qv pc' st'" using shared by (auto simp: shared_ok_def publish_exit_def)
    moreover have "\<forall>r. reader_ok qv (the (g_rules_qsbr st')) r pc' (g_active_rules st') (rd r)"
      by (rule same) (simp_all add: w_exit publish_exit_def)
    ultimately show ?thesis ..
  qed
qed

end

section \<open>The system\<close>

definition rcu_ready :: "'q qsbr_view \<Rightarrow> ('h, 'l) table_view \<Rightarrow> ('h, 'l, 'q) dp_state \<Rightarrow> bool" where
  "rcu_ready qv tv st \<longleftrightarrow> rules_inv tv st \<and> g_initialized st \<and> g_rules_configured st \<and> head_count st = (0, 0) \<and>
     readers qv st = Some {}"

lemma rcu_start_inv:
  assumes "rcu_ready qv tv st"
  shows "rcu_inv tv qv (rcu_start st)"
proof -
  obtain x q where x: "g_active_rules st = Some x" "g_rules_qsbr st = Some q" "qs_inv qv q" "qs_online qv q = {}"
    using assms by (auto simp: rcu_ready_def rules_inv_def readers_def split: option.splits if_splits)
  have idle: "(\<lambda>_ :: nat. W_idle) = (\<lambda>_. W_idle)(0 := W_idle)" by (rule fun_upd_idem [symmetric]) simp
  have "shared_ok tv qv W_idle st"
    using assms x by (auto simp: shared_ok_def rcu_ready_def rules_inv_def rule_objs_def good_snapshot_def)
  then show ?thesis
    unfolding rcu_inv_def rcu_start_def using x idle
    by (intro exI [of _ 0] exI [of _ W_idle] conjI) simp_all
qed

lemma other_readers:
  assumes "\<And>r'. reader_ok qv (the (g_rules_qsbr st)) r' pc (g_active_rules st) (rd r')"
    and "worker_moved qv r st st'" "reader_ok qv (the (g_rules_qsbr st')) r pc (g_active_rules st') rp"
  shows "reader_ok qv (the (g_rules_qsbr st')) r' pc (g_active_rules st') ((rd(r := rp)) r')"
  using assms worker_moved_reader [OF assms(2) _ assms(1), of r'] by (cases "r' = r") auto

context worker_env
begin

lemma rcu_step_inv:
  assumes inv: "rcu_inv tv qv s" and step: "rcu_step qs ops n l s s'"
  shows "rcu_inv tv qv s'"
proof -
  obtain w pc where w: "rc_writer s = (\<lambda>_. W_idle)(w := pc)" and shared: "shared_ok tv qv pc (rc_state s)"
    and rd: "\<And>r. reader_ok qv (the (g_rules_qsbr (rc_state s))) r pc (g_active_rules (rc_state s)) (rc_reader s r)"
    using inv by (auto simp: rcu_inv_def)
  from step show ?thesis
  proof cases
    case (rcu_reader r rp st)
    note m = reader_step_moves [OF shared rd rcu_reader(4)]
    have "shared_ok tv qv pc st" using worker_moved_shared [OF shared] m by blast
    then show ?thesis
      unfolding rcu_inv_def rcu_reader(2) using w other_readers [OF rd, of r st] m
      by (intro exI [of _ w] exI [of _ pc]) simp
  next
    case (rcu_writer w' pc' st)
    show ?thesis
    proof (cases "w' = w")
      case True
      then have "writer_step qs ops pc (rc_state s) pc' st" using rcu_writer(3) w by simp
      from writer_step_ok [OF shared rd this] show ?thesis
        unfolding rcu_inv_def rcu_writer(2) using w True by (intro exI [of _ w] exI [of _ pc']) simp
    next
      case False
      then have e: "writer_step qs ops W_idle (rc_state s) pc' st" using rcu_writer(3) w by simp
      then have "\<not> g_writer_lock (rc_state s)" by cases
      then have idle: "pc = W_idle" using shared by (simp add: shared_ok_def)
      have "rc_writer s = (\<lambda>_. W_idle)" using w idle by (simp add: fun_upd_idem)
      with writer_step_ok [OF shared rd e [folded idle]] show ?thesis
        unfolding rcu_inv_def rcu_writer(2) by (intro exI [of _ w'] exI [of _ pc']) simp
    qed
  next
    case rcu_stop
    then show ?thesis
      unfolding rcu_inv_def using w shared rd
      by (intro exI [of _ w] exI [of _ pc]) (simp add: shared_ok_def dp_dataplane_request_stop_def)
  qed
qed

lemma rcu_run_inv: "rcu_run qs ops n s ls s' \<Longrightarrow> rcu_inv tv qv s \<Longrightarrow> rcu_inv tv qv s'"
  by (induction rule: rcu_run.induct) (auto dest: rcu_step_inv)

text \<open>What a holding worker may rely on.\<close>

lemma rcu_holding:
  assumes inv: "rcu_inv tv qv s" and hold: "rc_reader s r = R_holding x"
  shows "\<exists>y flows routes. x = Some y \<and> snapshot_repr tv flows routes y \<and> snapshot_objs y \<subseteq># g_live (rc_state s)"
proof -
  obtain w pc where shared: "shared_ok tv qv pc (rc_state s)"
    and rd: "reader_ok qv (the (g_rules_qsbr (rc_state s))) r pc (g_active_rules (rc_state s)) (rc_reader s r)"
    using inv by (auto simp: rcu_inv_def)
  consider "x = g_active_rules (rc_state s)" | "x = retired pc" "may_hold qv (the (g_rules_qsbr (rc_state s))) r pc"
    using rd hold by auto
  then have "good_snapshot tv x \<and> objs_of x \<subseteq># g_live (rc_state s)"
  proof cases
    case 1
    then show ?thesis using shared by (simp add: shared_ok_def)
  next
    case 2
    then show ?thesis using shared by (cases pc) (auto simp: shared_ok_def)
  qed
  then show ?thesis unfolding good_snapshot_def using objs_of_simps(2) by metis
qed

section \<open>No step faults\<close>

text \<open>The operation a thread is at does not fault, and where it does not have to wait, it has a step.\<close>

lemma publish_build_total:
  assumes "array_arg flows nf" "array_arg routes nr"
  shows "publish_build ops t flows nf routes nr st \<noteq> None"
  using publish_build_cases [OF errno_law assms, of t st] by auto

lemma writer_enabled:
  assumes shared: "shared_ok tv qv pc st" and busy: "pc \<noteq> W_idle" "\<And>old token. pc \<noteq> W_waiting old token"
  shows "\<exists>pc' st'. writer_step qs ops pc st pc' st'"
proof (cases pc)
  case W_locked
  have arr: "array_arg (None :: dp_flow_rule list option) 0" "array_arg (None :: dp_route_rule list option) 0"
    by (simp_all add: array_arg_def)
  then obtain ret s st' where "publish_build ops 0 (None :: dp_flow_rule list option) 0 (None :: dp_route_rule list option) 0 st =
      Some (ret, s, st')" using publish_build_total [OF arr, of 0 st] by auto
  then show ?thesis using w_refused [OF _ arr] w_build [OF _ arr] W_locked by (cases "ret < 0") blast+
next
  case (W_built s g)
  show ?thesis unfolding W_built by (rule exI, rule exI, rule w_exchange [OF publish_exchange_def])
next
  case (W_exchanged old g)
  show ?thesis unfolding W_exchanged by (rule exI, rule exI, rule w_account)
next
  case (W_accounted old)
  then obtain q where "g_rules_qsbr st = Some q" using shared by (auto simp: shared_ok_def)
  then obtain tok st' where "publish_start qs st = Some (tok, st')"
    by (cases "qsbr_start qs q") (simp add: publish_start_def)
  from w_start [OF this] show ?thesis unfolding W_accounted by blast
next
  case (W_grace old)
  then obtain st' where "dp_snapshot_free old True True st = Some st'"
    using publish_free_ok [OF shared [unfolded W_grace]] by blast
  from w_free [OF this] show ?thesis unfolding W_grace by blast
next
  case W_done
  show ?thesis unfolding W_done by (rule exI, rule exI, rule w_exit)
qed (use busy in auto)

lemma reader_enabled:
  assumes shared: "shared_ok tv qv pc st"
  shows "\<exists>rp' st'. reader_step qs ops r rp st rp' st'"
proof -
  obtain q where q: "g_rules_qsbr st = Some q" using shared by (auto simp: shared_ok_def)
  show ?thesis
  proof (cases rp)
    case R_out
    show ?thesis unfolding R_out by (rule exI, rule exI, rule r_enter)
  next
    case R_entered
    show ?thesis unfolding R_entered by (rule exI, rule exI, rule r_injected [OF worker_fail_def])
  next
    case R_polling
    obtain st' where "dp_rules_reader_unregister qs r st = Some st'"
      using q by (cases "qsbr_thread_unregister qs (qsbr_thread_offline qs q r) r")
        (simp add: dp_rules_reader_unregister_def)
    from r_leave [OF _ this] r_load [of st] show ?thesis unfolding R_polling by (cases "g_stop st") blast+
  next
    case (R_holding x)
    have "dp_rules_reader_quiescent qs r st = Some (st\<lparr>g_rules_qsbr := Some (qsbr_quiescent qs q r)\<rparr>)"
      using q by (simp add: dp_rules_reader_quiescent_def)
    from r_report [OF this] show ?thesis unfolding R_holding by blast
  qed
qed

lemma reader_can_step:
  assumes "rcu_inv tv qv s" "r < n"
  shows "\<exists>s'. rcu_step qs ops n (By_reader r) s s'"
proof -
  obtain pc where "shared_ok tv qv pc (rc_state s)" using assms(1) by (auto simp: rcu_inv_def)
  from reader_enabled [OF this, of r "rc_reader s r"] rcu_reader [OF assms(2)] show ?thesis by blast
qed

section \<open>The grace period\<close>

text \<open>
  How many steps worker \<open>r\<close> still has to take before the QSBR variable no longer waits for it.
\<close>

definition steps_owed :: "('h, 'l, 'q) rcu \<Rightarrow> nat \<Rightarrow> nat" where
  "steps_owed s r = (if r \<notin> qs_waits qv (the (g_rules_qsbr (rc_state s))) then 0
     else case rc_reader s r of R_holding x \<Rightarrow> 1 | _ \<Rightarrow> 2)"

lemma waits_subset:
  assumes "shared_ok tv qv pc st"
  shows "qs_waits qv (the (g_rules_qsbr st)) \<subseteq> qs_online qv (the (g_rules_qsbr st))"
proof -
  obtain q where "g_rules_qsbr st = Some q" "qs_inv qv q" using assms by (auto simp: shared_ok_def)
  then show ?thesis using waits_online by simp
qed

lemma reader_step_owed:
  assumes shared: "shared_ok tv qv pc st" and ok: "reader_ok qv (the (g_rules_qsbr st)) r pc (g_active_rules st) (rc_reader s r)"
    and step: "reader_step qs ops r (rc_reader s r) st rp' st'" and s: "rc_state s = st"
  shows "steps_owed (s\<lparr>rc_state := st', rc_reader := (rc_reader s)(r := rp')\<rparr>) r \<le> steps_owed s r - 1"
proof -
  obtain q where q: "g_rules_qsbr st = Some q" "qs_inv qv q" using shared by (auto simp: shared_ok_def)
  note m = reader_step_moves [OF shared ok step]
  have sub: "qs_waits qv (the (g_rules_qsbr st')) \<subseteq> qs_online qv (the (g_rules_qsbr st'))"
    using worker_moved_shared [OF shared] m waits_subset by blast
  from step show ?thesis
  proof cases
    case r_register
    then have "r \<notin> qs_waits qv q" using ok q waits_subset [OF shared] by auto
    then show ?thesis using reader_register_moved [OF q r_register(3)] by (auto simp: steps_owed_def)
  next
    case r_load
    then show ?thesis by (auto simp: steps_owed_def s)
  next
    case (r_report x)
    then have "r \<in> qs_online qv q" using ok q by simp
    from reader_quiescent_moved [OF q this r_report(3)] show ?thesis by (simp add: steps_owed_def)
  qed (use m sub in \<open>auto simp: steps_owed_def\<close>)
qed

lemma waiting_step:
  assumes inv: "rcu_inv tv qv s" and w: "rc_writer s w = W_waiting old token"
    and step: "rcu_step qs ops n l s s'" and l: "l \<noteq> By_writer w"
  shows "rc_writer s' w = W_waiting old token \<and>
    steps_owed s' r \<le> steps_owed s r - (if l = By_reader r then 1 else 0)"
proof -
  obtain w' pc where wr: "rc_writer s = (\<lambda>_. W_idle)(w' := pc)" and shared: "shared_ok tv qv pc (rc_state s)"
    and rd: "\<And>r. reader_ok qv (the (g_rules_qsbr (rc_state s))) r pc (g_active_rules (rc_state s)) (rc_reader s r)"
    using inv by (auto simp: rcu_inv_def)
  have pc: "w' = w" "pc = W_waiting old token" using w wr by (auto split: if_splits)
  from step show ?thesis
  proof cases
    case (rcu_reader r' rp st)
    note m = reader_step_moves [OF shared rd rcu_reader(4)]
    show ?thesis
    proof (cases "r' = r")
      case True
      then show ?thesis using reader_step_owed [OF shared rd rcu_reader(4) refl] w rcu_reader(1,2) by simp
    next
      case False
      obtain q q' where "g_rules_qsbr (rc_state s) = Some q" "g_rules_qsbr st = Some q'" "moved qv r' q q'"
        using m by (auto simp: worker_moved_def)
      then have "steps_owed s' r = steps_owed s r"
        using moved_other [of qv r' q q' r] False rcu_reader(2) by (simp add: steps_owed_def)
      then show ?thesis using False w rcu_reader(1,2) by simp
    qed
  next
    case (rcu_writer w2 pc' st)
    then have "writer_step qs ops W_idle (rc_state s) pc' st" using l wr pc(1) by auto
    then have "\<not> g_writer_lock (rc_state s)" by cases
    then show ?thesis using shared pc(2) by (simp add: shared_ok_def)
  next
    case rcu_stop
    then show ?thesis using w by (simp add: steps_owed_def dp_dataplane_request_stop_def)
  qed
qed

lemma waiting_run:
  assumes "rcu_run qs ops n s ls s'" "rcu_inv tv qv s" "rc_writer s w = W_waiting old token" "By_writer w \<notin> set ls"
  shows "rc_writer s' w = W_waiting old token \<and> steps_owed s' r \<le> steps_owed s r - count_list ls (By_reader r)"
  using assms
proof (induction rule: rcu_run.induct)
  case (rcu_cons l s s1 ls s')
  note step = waiting_step [OF rcu_cons.prems(1,2) rcu_cons.hyps(1), of r]
  have "rcu_inv tv qv s1" by (rule rcu_step_inv [OF rcu_cons.prems(1) rcu_cons.hyps(1)])
  with rcu_cons.IH rcu_cons.prems(3) step show ?case by (auto split: if_splits)
qed simp

text \<open>A publisher whose readers have all reported finishes in three steps of its own.\<close>

lemma publisher_finishes:
  assumes inv: "rcu_inv tv qv s" and w: "rc_writer s w = W_waiting old token"
    and done': "qs_waits qv (the (g_rules_qsbr (rc_state s))) = {}"
  shows "\<exists>s'. rcu_run qs ops n s [By_writer w, By_writer w, By_writer w] s' \<and> rc_writer s' = (\<lambda>_. W_idle) \<and>
    g_active_rules (rc_state s') = g_active_rules (rc_state s) \<and> g_live (rc_state s') = objs_of (g_active_rules (rc_state s)) + {#Obj_Qsbr#}"
proof -
  let ?st = "rc_state s"
  obtain w' pc where wr: "rc_writer s = (\<lambda>_. W_idle)(w' := pc)" and shared: "shared_ok tv qv pc ?st"
    using inv by (auto simp: rcu_inv_def)
  have pc: "w' = w" "pc = W_waiting old token" using w wr by (auto split: if_splits)
  obtain q where q: "g_rules_qsbr ?st = Some q" "qs_inv qv q" "token = qs_token qv q"
    using shared pc(2) by (auto simp: shared_ok_def)
  have "publish_check qs token ?st = Some True" using check_law [OF q(2)] done' q by (simp add: publish_check_def)
  then have s1: "rcu_step qs ops n (By_writer w) s (s\<lparr>rc_state := ?st, rc_writer := (rc_writer s)(w := W_grace old)\<rparr>)"
    using w by (intro rcu_step.rcu_writer) (simp add: w_check)
  let ?s1 = "s\<lparr>rc_state := ?st, rc_writer := (rc_writer s)(w := W_grace old)\<rparr>"
  have "shared_ok tv qv (W_grace old) ?st" using shared pc(2) by (auto simp: shared_ok_def)
  from publish_free_ok [OF this] obtain st2 where f: "dp_snapshot_free old True True ?st = Some st2"
    "shared_ok tv qv W_done st2" "g_active_rules st2 = g_active_rules ?st" by blast
  let ?s2 = "?s1\<lparr>rc_state := st2, rc_writer := (rc_writer ?s1)(w := W_done)\<rparr>"
  let ?s3 = "?s2\<lparr>rc_state := publish_exit st2, rc_writer := (rc_writer ?s2)(w := W_idle)\<rparr>"
  have s2: "rcu_step qs ops n (By_writer w) ?s1 ?s2" using f(1) by (intro rcu_step.rcu_writer) (simp add: w_free)
  have s3: "rcu_step qs ops n (By_writer w) ?s2 ?s3" by (intro rcu_step.rcu_writer) (simp add: w_exit)
  have "rcu_run qs ops n s [By_writer w, By_writer w, By_writer w] ?s3" by (rule rcu_cons [OF s1 rcu_cons [OF s2 rcu_cons [OF s3 rcu_nil]]])
  moreover have "rc_writer ?s3 = (\<lambda>_. W_idle)" using wr pc(1) by (simp add: fun_upd_idem)
  ultimately show ?thesis using f(2,3) by (intro exI [of _ ?s3]) (simp add: publish_exit_def shared_ok_def)
qed

end

section \<open>The two counts\<close>

definition enters :: "('h, 'l) reader_pc \<Rightarrow> bool" where
  "enters rp \<longleftrightarrow> rp \<noteq> R_out"

fun reads :: "('h, 'l) reader_pc \<Rightarrow> bool" where
  "reads R_polling = True"
| "reads (R_holding x) = True"
| "reads _ = False"

definition heads_of :: "('h, 'l, 'q) rcu \<Rightarrow> u32 \<times> u32" where
  "heads_of s = (word_of_nat (card {r. enters (rc_reader s r)}), word_of_nat (card {r. reads (rc_reader s r)}))"

definition counts_inv :: "nat \<Rightarrow> ('h, 'l, 'q) rcu \<Rightarrow> bool" where
  "counts_inv n s \<longleftrightarrow> (\<forall>r \<ge> n. rc_reader s r = R_out) \<and> head_count (rc_state s) = heads_of s"

lemma card_update:
  fixes f :: "nat \<Rightarrow> 'a"
  assumes "finite {r. P (f r)}"
  shows "(word_of_nat (card {i. P ((f(r := x)) i)}) :: u32) =
    word_of_nat (card {i. P (f i)}) + of_bool (P x) - of_bool (P (f r))"
proof -
  define B where "B = {i. P (f i)} - {r}"
  have B: "finite B" "r \<notin> B" "{i. P ((f(r := x)) i)} = (if P x then insert r B else B)"
    "{i. P (f i)} = (if P (f r) then insert r B else B)"
    using assms by (auto simp: B_def)
  show ?thesis unfolding B(3,4) using B(1,2) by simp
qed

context worker_env
begin

lemma reader_step_heads:
  assumes "reader_step qs ops r rp st rp' st'"
  shows "head_count st' = (g_active_workers st + of_bool (enters rp') - of_bool (enters rp),
    g_registered_readers st + of_bool (reads rp') - of_bool (reads rp))"
  using assms
proof cases
  case (r_register t ret)
  have "errno_or (rte_errno ops t) EIO < 0" by (rule errno_or_neg [OF errno_law]) (simp add: errno_simps)
  with r_register show ?thesis
    by (auto simp: dp_rules_reader_register_def head_count_def enters_def errno_simps Let_def
        split: option.splits if_splits prod.splits)
next
  case (r_refused t ret st1 w h res w' h')
  then show ?thesis
    by (auto simp: dp_rules_reader_register_def worker_fail_def head_count_def enters_def Let_def
        split: option.splits if_splits prod.splits)
qed (auto simp: worker_fail_def head_count_def enters_def dp_rules_active_load_def dp_rules_reader_quiescent_def
    dp_rules_reader_unregister_def split: Option.bind_splits prod.splits)

lemma writer_step_heads:
  assumes shared: "shared_ok tv qv pc st" and step: "writer_step qs ops pc st pc' st'"
  shows "head_count st' = head_count st"
  using step
proof cases
  case (w_refused t flows nf routes nr ret s)
  from publish_build_cases [OF errno_law w_refused(4,5), of t st] w_refused(3) show ?thesis
    by (elim disjE exE conjE) (auto simp: head_count_def on_stats_def)
next
  case (w_build t flows nf routes nr ret s)
  from publish_build_cases [OF errno_law w_build(4,5), of t st] w_build(3) show ?thesis
    by (elim disjE exE conjE) (auto simp: head_count_def on_stats_def)
next
  case (w_free old)
  obtain x where x: "old = Some x" using shared w_free(1) by (auto simp: shared_ok_def good_snapshot_def)
  have "g_live st = (objs_of (g_active_rules st) + {#Obj_Qsbr#}) + snapshot_objs x"
    using shared w_free(1) by (simp add: shared_ok_def x)
  from dp_snapshot_free_frees [OF this, of True True] w_free(3) show ?thesis by (auto simp: x head_count_def)
qed (auto simp: head_count_def publish_enter_def publish_exchange_def publish_account_def on_stats_def
    publish_start_def publish_exit_def split: Option.bind_splits prod.splits)

lemma rcu_step_counts:
  assumes inv: "rcu_inv tv qv s" and counts: "counts_inv n s" and step: "rcu_step qs ops n l s s'"
  shows "counts_inv n s'"
proof -
  obtain w pc where wr: "rc_writer s = (\<lambda>_. W_idle)(w := pc)" and shared: "shared_ok tv qv pc (rc_state s)"
    using inv by (auto simp: rcu_inv_def)
  have out: "rc_reader s r = R_out" if "n \<le> r" for r using counts that by (simp add: counts_inv_def)
  have fin: "finite {r. enters (rc_reader s r)}" "finite {r. reads (rc_reader s r)}"
    by (rule finite_subset [of _ "{..<n}"]; use out in \<open>force simp: enters_def not_less [symmetric]\<close>)+
  from step show ?thesis
  proof cases
    case (rcu_reader r rp st)
    have "head_count st = heads_of s'"
      unfolding reader_step_heads [OF rcu_reader(4)] rcu_reader(2) using counts
      by (simp add: heads_of_def counts_inv_def head_count_def card_update [where P = enters, OF fin(1)] card_update [where P = reads, OF fin(2)]
          del: fun_upd_apply)
    then show ?thesis using out rcu_reader(2,3) by (simp add: counts_inv_def)
  next
    case (rcu_writer w' pc' st)
    have "head_count st = head_count (rc_state s)"
    proof (cases "w' = w")
      case True
      then show ?thesis using writer_step_heads [OF shared] rcu_writer(3) wr by simp
    next
      case False
      then have "writer_step qs ops W_idle (rc_state s) pc' st" using rcu_writer(3) wr by simp
      then show ?thesis by cases (simp add: publish_enter_def head_count_def)
    qed
    then show ?thesis using counts rcu_writer(2) by (simp add: counts_inv_def heads_of_def)
  next
    case rcu_stop
    then show ?thesis using counts by (simp add: counts_inv_def heads_of_def head_count_def dp_dataplane_request_stop_def)
  qed
qed

lemma rcu_run_counts: "rcu_run qs ops n s ls s' \<Longrightarrow> rcu_inv tv qv s \<Longrightarrow> counts_inv n s \<Longrightarrow> counts_inv n s'"
  by (induction rule: rcu_run.induct) (auto dest: rcu_step_inv rcu_step_counts)

end

lemma counts_start: "head_count st = (0, 0) \<Longrightarrow> counts_inv n (rcu_start st)"
  by (simp add: counts_inv_def rcu_start_def heads_of_def enters_def)

lemma count_zero_iff:
  fixes n :: nat
  assumes "A \<subseteq> {..<n}" "n < 2 ^ 32"
  shows "(word_of_nat (card A) :: u32) = 0 \<longleftrightarrow> A = {}"
proof -
  have "finite A" "card A \<le> n" using assms(1) finite_subset card_mono [of "{..<n}" A] by auto
  moreover have "(word_of_nat (card A) :: u32) = 0 \<longleftrightarrow> card A = 0"
    using assms(2) calculation(2) by (auto simp: word_of_nat_eq_0_iff dest: dvd_imp_le)
  ultimately show ?thesis by simp
qed

section \<open>The abstract policy\<close>

text \<open>
  What the system promises, without snapshots, grace periods and counters: one current set of
  rules that a publication replaces at once, and for each worker that handles a burst the set
  that was current when it took it up.
\<close>

type_synonym rule_set = "dp_flow_rule list \<times> dp_route_rule list"

record policy_spec =
  pl_current :: rule_set
  pl_using :: "nat \<Rightarrow> rule_set option"

inductive policy_step :: "policy_spec \<Rightarrow> policy_spec \<Rightarrow> bool" where
  pl_publish: "rules_valid (fst p) (snd p) \<Longrightarrow> policy_step a (a\<lparr>pl_current := p\<rparr>)"
| pl_begin: "policy_step a (a\<lparr>pl_using := (pl_using a)(r := Some (pl_current a))\<rparr>)"
| pl_end: "policy_step a (a\<lparr>pl_using := (pl_using a)(r := None)\<rparr>)"

definition implements :: "('h, 'l) table_view \<Rightarrow> ('h, 'l) dp_rule_snapshot option \<Rightarrow> rule_set \<Rightarrow> bool" where
  "implements tv s p \<longleftrightarrow> (\<exists>x. s = Some x \<and> snapshot_repr tv (fst p) (snd p) x)"

fun uses :: "('h, 'l) table_view \<Rightarrow> ('h, 'l) reader_pc \<Rightarrow> rule_set option \<Rightarrow> bool" where
  "uses tv (R_holding x) u = (\<exists>p. u = Some p \<and> implements tv x p)"
| "uses tv _ u = (u = None)"

definition simulates :: "('h, 'l) table_view \<Rightarrow> ('h, 'l, 'q) rcu \<Rightarrow> policy_spec \<Rightarrow> bool" where
  "simulates tv s a \<longleftrightarrow> implements tv (g_active_rules (rc_state s)) (pl_current a) \<and>
     (\<forall>r. uses tv (rc_reader s r) (pl_using a r))"

lemma good_implements:
  assumes "good_snapshot tv s"
  shows "\<exists>p. implements tv s p \<and> rules_valid (fst p) (snd p)"
proof -
  obtain x flows routes where x: "s = Some x" "snapshot_repr tv flows routes x" using assms by (auto simp: good_snapshot_def)
  then have "rules_valid flows routes" by (simp add: snapshot_repr_def)
  with x show ?thesis by (intro exI [of _ "(flows, routes)"]) (simp add: implements_def)
qed

context worker_env
begin

lemma writer_step_active:
  assumes shared: "shared_ok tv qv pc st" and step: "writer_step qs ops pc st pc' st'"
  shows "g_active_rules st' = g_active_rules st \<or> good_snapshot tv (g_active_rules st')"
  using step
proof cases
  case (w_refused t flows nf routes nr ret s)
  then show ?thesis using publish_build_ok [OF shared [unfolded w_refused(1)] w_refused(4,5,3)] by simp
next
  case (w_build t flows nf routes nr ret s)
  then show ?thesis using publish_build_ok [OF shared [unfolded w_build(1)] w_build(4,5,3)] by simp
next
  case (w_exchange s old g)
  then show ?thesis using shared by (auto simp: shared_ok_def publish_exchange_def)
next
  case (w_start token old)
  then show ?thesis using publish_start_ok [OF shared [unfolded w_start(1)] w_start(3)] by simp
next
  case (w_free old)
  then show ?thesis using publish_free_ok [OF shared [unfolded w_free(1)]] by auto
qed (simp_all add: publish_enter_def publish_account_def publish_exit_def)

lemma reader_step_simulated:
  assumes sim: "simulates tv s a" and step: "reader_step qs ops r (rc_reader s r) (rc_state s) rp st"
    and active: "g_active_rules st = g_active_rules (rc_state s)"
  shows "\<exists>a'. policy_step\<^sup>=\<^sup>= a a' \<and> simulates tv (s\<lparr>rc_state := st, rc_reader := (rc_reader s)(r := rp)\<rparr>) a'"
proof -
  have u: "uses tv (rc_reader s r') (pl_using a r')" for r' using sim by (simp add: simulates_def)
  have same: ?thesis if "uses tv rp (pl_using a r)"
    using sim that active by (intro exI [of _ a]) (simp add: simulates_def)
  from step show ?thesis
  proof cases
    case r_load
    have "simulates tv (s\<lparr>rc_state := st, rc_reader := (rc_reader s)(r := rp)\<rparr>)
        (a\<lparr>pl_using := (pl_using a)(r := Some (pl_current a))\<rparr>)"
      using sim active r_load(2) by (auto simp: simulates_def dp_rules_active_load_def)
    then show ?thesis using pl_begin by blast
  next
    case (r_report x)
    have "simulates tv (s\<lparr>rc_state := st, rc_reader := (rc_reader s)(r := rp)\<rparr>)
        (a\<lparr>pl_using := (pl_using a)(r := None)\<rparr>)"
      using sim active r_report(2) by (auto simp: simulates_def)
    then show ?thesis using pl_end by blast
  qed (use u [of r] same in auto)
qed

lemma rcu_step_simulated:
  assumes inv: "rcu_inv tv qv s" and sim: "simulates tv s a" and step: "rcu_step qs ops n l s s'"
  shows "\<exists>a'. policy_step\<^sup>=\<^sup>= a a' \<and> simulates tv s' a'"
proof -
  obtain w pc where wr: "rc_writer s = (\<lambda>_. W_idle)(w := pc)" and shared: "shared_ok tv qv pc (rc_state s)"
    and rd: "\<And>r. reader_ok qv (the (g_rules_qsbr (rc_state s))) r pc (g_active_rules (rc_state s)) (rc_reader s r)"
    using inv by (auto simp: rcu_inv_def)
  from step show ?thesis
  proof cases
    case (rcu_reader r rp st)
    then have "g_active_rules st = g_active_rules (rc_state s)"
      using reader_step_moves [OF shared rd rcu_reader(4)] by (simp add: worker_moved_def rule_fields_def)
    from reader_step_simulated [OF sim rcu_reader(4) this] rcu_reader(2) show ?thesis by simp
  next
    case (rcu_writer w' pc' st)
    have "g_active_rules st = g_active_rules (rc_state s) \<or> good_snapshot tv (g_active_rules st)"
    proof (cases "w' = w")
      case True
      then show ?thesis using writer_step_active [OF shared] rcu_writer(3) wr by simp
    next
      case False
      then have "writer_step qs ops W_idle (rc_state s) pc' st" using rcu_writer(3) wr by simp
      then show ?thesis by cases (simp add: publish_enter_def)
    qed
    then show ?thesis
    proof
      assume "g_active_rules st = g_active_rules (rc_state s)"
      then show ?thesis using sim rcu_writer(2) by (intro exI [of _ a]) (simp add: simulates_def)
    next
      assume "good_snapshot tv (g_active_rules st)"
      then obtain p where p: "implements tv (g_active_rules st) p" "rules_valid (fst p) (snd p)"
        using good_implements by blast
      then have "simulates tv s' (a\<lparr>pl_current := p\<rparr>)" using sim rcu_writer(2) by (simp add: simulates_def)
      then show ?thesis using pl_publish [OF p(2)] by blast
    qed
  next
    case rcu_stop
    then show ?thesis
      using sim by (intro exI [of _ a]) (simp add: simulates_def dp_dataplane_request_stop_def)
  qed
qed

lemma rcu_run_simulated:
  "rcu_run qs ops n s ls s' \<Longrightarrow> rcu_inv tv qv s \<Longrightarrow> simulates tv s a \<Longrightarrow>
     \<exists>a'. policy_step\<^sup>*\<^sup>* a a' \<and> simulates tv s' a'"
proof (induction arbitrary: a rule: rcu_run.induct)
  case (rcu_cons l s s1 ls s')
  obtain a1 where a1: "policy_step\<^sup>=\<^sup>= a a1" "simulates tv s1 a1"
    using rcu_step_simulated [OF rcu_cons.prems rcu_cons.hyps(1)] by blast
  from rcu_cons.IH [OF rcu_step_inv [OF rcu_cons.prems(1) rcu_cons.hyps(1)] a1(2)]
  obtain a' where "policy_step\<^sup>*\<^sup>* a1 a'" "simulates tv s' a'" by blast
  moreover have "policy_step\<^sup>*\<^sup>* a a1" using a1(1) by auto
  ultimately show ?case by (meson rtranclp_trans)
qed auto

end

section \<open>The steps make up the operation\<close>

text \<open>
  One publisher alone: its own steps, and quiescent reports that arrive while it waits.
\<close>

inductive publisher_path ::
  "'q qsbr_ops \<Rightarrow> ('h, 'l) rte_table_ops \<Rightarrow> ('h, 'l) writer_pc \<Rightarrow> ('h, 'l, 'q) dp_state \<Rightarrow>
   ('h, 'l) writer_pc \<Rightarrow> ('h, 'l, 'q) dp_state \<Rightarrow> bool"
  for qs ops where
  pp_end: "publisher_path qs ops pc st pc st"
| pp_step: "writer_step qs ops pc st pc1 st1 \<Longrightarrow> publisher_path qs ops pc1 st1 pc' st' \<Longrightarrow> publisher_path qs ops pc st pc' st'"
| pp_report: "dp_rules_reader_quiescent qs r st = Some st1 \<Longrightarrow>
    publisher_path qs ops (W_waiting old token) st1 pc' st' \<Longrightarrow> publisher_path qs ops (W_waiting old token) st pc' st'"

lemma await_grace_path:
  assumes "await_grace qs token reports q = Some q'" "g_rules_qsbr st = Some q"
    and "publisher_path qs ops (W_grace old) (st\<lparr>g_rules_qsbr := Some q'\<rparr>) pc' st'"
  shows "publisher_path qs ops (W_waiting old token) st pc' st'"
  using assms
proof (induction reports arbitrary: q st)
  case Nil
  then have "qsbr_check qs q token" "q' = q" by (auto split: if_splits)
  then have "publish_check qs token st = Some True" "st\<lparr>g_rules_qsbr := Some q'\<rparr> = st"
    using Nil(2) by (simp_all add: publish_check_def)
  with Nil(3) show ?case using pp_step [OF w_check] by simp
next
  case (Cons r rs)
  show ?case
  proof (cases "qsbr_check qs q token")
    case True
    then have "publish_check qs token st = Some True" "st\<lparr>g_rules_qsbr := Some q'\<rparr> = st"
      using Cons.prems(1,2) by (simp_all add: publish_check_def)
    with Cons.prems(3) show ?thesis using pp_step [OF w_check] by simp
  next
    case False
    have "dp_rules_reader_quiescent qs r st = Some (st\<lparr>g_rules_qsbr := Some (qsbr_quiescent qs q r)\<rparr>)"
      using Cons.prems(2) by (simp add: dp_rules_reader_quiescent_def)
    moreover have "publisher_path qs ops (W_waiting old token) (st\<lparr>g_rules_qsbr := Some (qsbr_quiescent qs q r)\<rparr>) pc' st'"
      using Cons.prems(1,3) False by (intro Cons.IH [of "qsbr_quiescent qs q r"]) simp_all
    ultimately show ?thesis by (rule pp_report)
  qed
qed

section \<open>A run with a worker and a publisher\<close>

lemma rcu_append: "rcu_run qs ops n s ls s1 \<Longrightarrow> rcu_run qs ops n s1 ls' s2 \<Longrightarrow> rcu_run qs ops n s (ls @ ls') s2"
  by (induction rule: rcu_run.induct) (auto intro: rcu_cons)

text \<open>Five steps take a publisher whose build succeeds from the lock to the wait.\<close>

lemma publisher_waits:
  assumes idle: "rc_writer s = (\<lambda>_. W_idle)" "\<not> g_writer_lock (rc_state s)"
    and arr: "array_arg flows nf" "array_arg routes nr" and qsbr: "g_rules_qsbr (rc_state s) \<noteq> None"
    and build: "publish_build ops t flows nf routes nr (publish_enter (rc_state s)) = Some (0, x, st1)" "g_rules_qsbr st1 \<noteq> None"
  shows "\<exists>s' old token. rcu_run qs ops n s (replicate 5 (By_writer w)) s' \<and> rc_writer s' w = W_waiting old token \<and>
    rc_reader s' = rc_reader s \<and> g_stop (rc_state s') = g_stop st1"
proof -
  define g where "g = st_rules_generation (g_stats (rc_state s)) + 1"
  obtain old st2 where x: "publish_exchange x st1 = (old, st2)" by fastforce
  define st3 where "st3 = publish_account g st2"
  have q3: "g_rules_qsbr st3 \<noteq> None" "g_stop st3 = g_stop st1"
    using x build(2) by (auto simp: st3_def publish_exchange_def publish_account_def on_stats_def)
  then obtain token st4 where s4: "publish_start qs st3 = Some (token, st4)" "g_stop st4 = g_stop st1"
    by (cases "qsbr_start qs (the (g_rules_qsbr st3))") (auto simp: publish_start_def)
  define at where "at st pc = s\<lparr>rc_state := st, rc_writer := (\<lambda>_. W_idle)(w := pc)\<rparr>" for st pc
  have step: "rcu_step qs ops n (By_writer w) (at st pc) (at st' pc')" if "writer_step qs ops pc st pc' st'" for st pc st' pc'
    using rcu_writer [of qs ops "at st pc" w pc' st' n] that by (simp add: at_def)
  have start: "s = at (rc_state s) W_idle" using idle(1) by (simp add: at_def fun_upd_idem)
  have five: "replicate 5 (By_writer w) = [By_writer w, By_writer w, By_writer w, By_writer w, By_writer w]"
    by (simp add: numeral_eq_Suc)
  have s1: "rcu_step qs ops n (By_writer w) (at (rc_state s) W_idle) (at (publish_enter (rc_state s)) W_locked)"
    by (rule step [OF w_enter [OF idle(2)]])
  have s2: "rcu_step qs ops n (By_writer w) (at (publish_enter (rc_state s)) W_locked) (at st1 (W_built x g))"
    using step [OF w_build [OF build(1) arr]] by (simp add: g_def)
  have s3: "rcu_step qs ops n (By_writer w) (at st1 (W_built x g)) (at st2 (W_exchanged old g))"
    by (rule step [OF w_exchange [OF x]])
  have s4': "rcu_step qs ops n (By_writer w) (at st2 (W_exchanged old g)) (at st3 (W_accounted old))"
    unfolding st3_def by (rule step [OF w_account])
  have s5: "rcu_step qs ops n (By_writer w) (at st3 (W_accounted old)) (at st4 (W_waiting old token))"
    by (rule step [OF w_start [OF s4(1)]])
  have "rcu_run qs ops n (at (rc_state s) W_idle) (replicate 5 (By_writer w)) (at st4 (W_waiting old token))"
    unfolding five by (rule rcu_cons [OF s1 rcu_cons [OF s2 rcu_cons [OF s3 rcu_cons [OF s4' rcu_cons [OF s5 rcu_nil]]]]])
  then show ?thesis using start s4(2) by (intro exI [of _ "at st4 (W_waiting old token)"]) (auto simp: at_def)
qed

lemma demo_build:
  assumes "g_initialized st" "g_rules_configured st" "g_rules_qsbr st \<noteq> None" "g_active_rules st \<noteq> None"
  shows "\<exists>x st'. publish_build (ref_tables []) 0 (Some [demo_flow]) 1 (None :: dp_route_rule list option) 0 st = Some (0, x, st') \<and>
    g_rules_qsbr st' = g_rules_qsbr st \<and> g_stop st' = g_stop st"
proof -
  have e: "0 \<le> rte_errno (ref_tables []) k" for k by (simp add: ref_tables_def errno_simps)
  let ?g = "st_rules_generation (g_stats st) + 1"
  have "rules_code [demo_flow] [] = 0" using demo_flow_valid by (simp add: rules_code_valid)
  moreover have "card (deep_blocks (route_key ` set ([] :: dp_route_rule list))) \<le> 256"
    by (simp add: deep_blocks_def)
  ultimately have "\<exists>s st'. dp_snapshot_build (ref_tables []) 0 (Some [demo_flow]) 1 None 0 ?g st = Some (0, Some s, st') \<and>
      g_rules_qsbr st' = g_rules_qsbr st \<and> g_stop st' = g_stop st"
    using reft_room.dp_snapshot_build_exact [OF demo_args(3,1,2), of 0 ?g st]
      dp_snapshot_build_cases [OF e demo_args(1,2), of 0 ?g st]
    by (auto simp: demo_args)
  then show ?thesis using assms by (auto simp: publish_build_def)
qed

text \<open>Worker 0 has taken up a burst; then a publisher replaces the rules and waits for it.\<close>

abbreviation demo_runs where
  "demo_runs \<equiv> rcu_run (ref_qsbr_ops 128) (ref_tables []) 1"

lemma demo_ready: "rcu_ready (ref_qsbr_view 128) ref_view demo_up"
  using demo_up_inv
  by (simp add: rcu_ready_def readers_def head_count_def all_idle_def)
    (simp add: demo_defs ref_qsbr_view_def rq_inv_def rq_online_def)

lemma demo_burst_taken:
  "\<exists>s x. demo_runs (rcu_start demo_up) [By_reader 0, By_reader 0, By_reader 0] s \<and> rc_reader s 0 = R_holding x \<and>
    rc_writer s = (\<lambda>_. W_idle) \<and> g_stop (rc_state s) = False \<and> \<not> g_writer_lock (rc_state s) \<and>
    g_initialized (rc_state s) \<and> g_rules_configured (rc_state s) \<and> g_rules_qsbr (rc_state s) \<noteq> None \<and>
    g_active_rules (rc_state s) \<noteq> None \<and> (\<forall>r. r \<noteq> 0 \<longrightarrow> rc_reader s r = R_out)"
proof -
  define at where "at st rp = (rcu_start demo_up)\<lparr>rc_state := st, rc_reader := (\<lambda>_. R_out)(0 := rp)\<rparr>" for st rp
  have step: "rcu_step (ref_qsbr_ops 128) (ref_tables []) 1 (By_reader 0) (at st rp) (at st' rp')"
    if "reader_step (ref_qsbr_ops 128) (ref_tables []) 0 rp st rp' st'" for st rp st' rp'
    using rcu_reader [of 0 1 "ref_qsbr_ops 128" "ref_tables []" "at st rp" rp' st'] that by (simp add: at_def)
  have start: "rcu_start demo_up = at demo_up R_out" by (simp add: at_def rcu_start_def fun_upd_idem)
  let ?st1 = "demo_up\<lparr>g_active_workers := g_active_workers demo_up + 1\<rparr>"
  obtain st2 where reg: "dp_rules_reader_register (ref_qsbr_ops 128) (ref_tables []) 0 0 ?st1 = (0, st2)"
    "\<not> g_stop st2 \<and> \<not> g_writer_lock st2 \<and> g_initialized st2 \<and> g_rules_configured st2 \<and> g_rules_qsbr st2 \<noteq> None \<and>
      g_active_rules st2 \<noteq> None"
    by (simp add: dp_rules_reader_register_def demo_defs ref_qsbr_ops_def)
  have "demo_runs (rcu_start demo_up) [By_reader 0, By_reader 0, By_reader 0] (at st2 (R_holding (g_active_rules st2)))"
    unfolding start using reg(2) r_load [of st2] r_register [OF reg(1)]
    by (intro rcu_cons [OF step [OF r_enter] rcu_cons [OF step rcu_cons [OF step rcu_nil]]])
      (simp_all add: dp_rules_active_load_def)
  then show ?thesis
    using reg(2) by (intro exI [of _ "at st2 (R_holding (g_active_rules st2))"]) (auto simp: at_def rcu_start_def)
qed

text \<open>The same up to the publisher's wait, and two more steps of the worker.\<close>

lemma demo_waiting:
  "\<exists>s old token ls. demo_runs (rcu_start demo_up) ls s \<and> rc_writer s 0 = W_waiting old token \<and>
    (\<exists>x. rc_reader s 0 = R_holding x) \<and> (\<forall>r. r \<noteq> 0 \<longrightarrow> rc_reader s r = R_out) \<and> \<not> g_stop (rc_state s)"
proof -
  obtain s x where s: "demo_runs (rcu_start demo_up) [By_reader 0, By_reader 0, By_reader 0] s" "rc_reader s 0 = R_holding x"
    "rc_writer s = (\<lambda>_. W_idle)" "\<not> g_stop (rc_state s)" "\<not> g_writer_lock (rc_state s)"
    "g_initialized (rc_state s)" "g_rules_configured (rc_state s)" "g_rules_qsbr (rc_state s) \<noteq> None"
    "g_active_rules (rc_state s) \<noteq> None" "\<forall>r. r \<noteq> 0 \<longrightarrow> rc_reader s r = R_out"
    using demo_burst_taken by auto
  have e: "g_stop (publish_enter (rc_state s)) = g_stop (rc_state s)" by (simp add: publish_enter_def)
  obtain y st1 where b: "publish_build (ref_tables []) 0 (Some [demo_flow]) 1 (None :: dp_route_rule list option) 0
      (publish_enter (rc_state s)) = Some (0, y, st1)" "g_rules_qsbr st1 = g_rules_qsbr (rc_state s)" "g_stop st1 = g_stop (rc_state s)"
    using demo_build [of "publish_enter (rc_state s)"] s(6-9) e by auto
  obtain s' old token where w: "demo_runs s (replicate 5 (By_writer 0)) s'" "rc_writer s' 0 = W_waiting old token"
    "rc_reader s' = rc_reader s" "g_stop (rc_state s') = g_stop st1"
    using publisher_waits [OF s(3,5) demo_args(1,2) s(8) b(1), where qs = "ref_qsbr_ops 128" and n = 1 and w = 0] b(2) s(8) by auto
  from rcu_append [OF s(1) w(1)] w(2-4) s(2,4,10) b(3) show ?thesis by auto
qed

section \<open>Properties\<close>

text \<open>
  C1. Rules can be replaced while workers run, without a lock on their path. In every state that
  any interleaving of \<open>n\<close> workers, any number of publishers and stop requests reaches: at most one
  publisher is between lock and unlock; a worker that handles a burst holds a snapshot all of
  whose DPDK objects are still allocated and which represents one valid set of rules, even if it
  was replaced meanwhile; and the burst it handles with it does not fault, whatever packets it holds.
\<close>

theorem rcu_safe:
  assumes "rte_table_laws ops tv" and "qsbr_laws qs qv" and "rcu_ready qv tv st"
    and "rcu_run qs ops n (rcu_start st) ls s"
  shows "(\<forall>w w'. rc_writer s w \<noteq> W_idle \<and> rc_writer s w' \<noteq> W_idle \<longrightarrow> w = w') \<and>
    (\<forall>r x. rc_reader s r = R_holding x \<longrightarrow>
      (\<exists>y flows routes. x = Some y \<and> represents tv flows routes x \<and> snapshot_objs y \<subseteq># g_live (rc_state s)) \<and>
      (\<forall>ck rx driver h stats. distinct (map fst rx) \<and> (\<forall>(p, m) \<in> set rx. mbuf_wf m \<and> mh_live h p = None) \<and>
         length rx \<le> DP_BURST_SIZE \<and> (\<forall>k. driver k \<le> k) \<longrightarrow>
         handle_burst (\<lambda>p. dp_process_packet ck ops p x) rx driver h stats \<noteq> None))"
proof -
  have env: "worker_env ops tv qs qv" by (rule worker_env.intro [OF assms(1,2)])
  have inv: "rcu_inv tv qv s" by (rule worker_env.rcu_run_inv [OF env assms(4) rcu_start_inv [OF assms(3)]])
  have "w = w'" if "rc_writer s w \<noteq> W_idle" "rc_writer s w' \<noteq> W_idle" for w w'
    using inv that by (auto simp: rcu_inv_def split: if_splits)
  moreover have "\<exists>y flows routes. x = Some y \<and> represents tv flows routes x \<and> snapshot_objs y \<subseteq># g_live (rc_state s)"
    if hold: "rc_reader s r = R_holding x" for r x
  proof -
    obtain y flows routes where "x = Some y" "snapshot_repr tv flows routes y" "snapshot_objs y \<subseteq># g_live (rc_state s)"
      using worker_env.rcu_holding [OF env inv hold] by blast
    then show ?thesis by (intro exI [of _ y] exI [of _ flows] exI [of _ routes]) (simp add: represents_def)
  qed
  moreover have "handle_burst (\<lambda>p. dp_process_packet ck ops p x) rx driver h stats \<noteq> None"
    if hold: "rc_reader s r = R_holding x" and rx: "distinct (map fst rx)" "\<forall>(p, m) \<in> set rx. mbuf_wf m \<and> mh_live h p = None"
      and len: "length rx \<le> DP_BURST_SIZE" and driver: "\<forall>k. driver k \<le> k" for r x ck rx driver h stats
  proof -
    obtain flows routes where repr: "represents tv flows routes x" using calculation(2) [OF hold] by blast
    note stage = counting_stage.axioms(1) [OF rte_table_laws.process_packet_counting [OF assms(1) repr, of ck]]
    have l: "length rx < 65536" using len by (simp add: DP_BURST_SIZE_def)
    have wf: "mbuf_wf m \<and> mh_live h p = None" if "(p, m) \<in> set rx" for p m using rx(2) that by blast
    have d: "driver k \<le> k" for k using driver by blast
    show ?thesis using packet_stage.handle_burst_runs [OF stage rx(1) wf l d, where stats = stats] by simp
  qed
  ultimately show ?thesis by blast
qed

theorem rcu_safe_witness:
  "\<exists>(s :: (ref_hash, ref_lpm, ref_qsbr) rcu) old token x y. rc_writer s 0 = W_waiting old token \<and> rc_reader s 0 = R_holding x \<and> x = Some y \<and>
    (\<exists>flows routes. represents ref_view flows routes x) \<and> snapshot_objs y \<subseteq># g_live (rc_state s)"
proof -
  obtain s old token ls x where s: "demo_runs (rcu_start demo_up) ls s" "rc_writer s 0 = W_waiting old token"
    "rc_reader s 0 = R_holding x" using demo_waiting by blast
  from rcu_safe [OF reft.rte_table_laws_axioms refq.qsbr_laws_axioms demo_ready s(1)] s(2,3) show ?thesis by blast
qed



text \<open>
  C11. A grace period ends. While a publisher waits, let the other threads take any steps in which
  every worker that was active takes at least two (the rest of its pass, and its report or its
  leave). Then the check answers true, and in three steps of its own the publisher has freed the
  old snapshot and returned: no publisher is busy, and exactly the objects of the active snapshot
  and the QSBR variable are allocated.
\<close>

theorem grace_period_ends:
  assumes "rte_table_laws ops tv" and "qsbr_laws qs qv" and "rcu_ready qv tv st"
    and "rcu_run qs ops n (rcu_start st) ls s" and "rc_writer s w = W_waiting old token"
    and "rcu_run qs ops n s ls' s'" and "By_writer w \<notin> set ls'"
    and "\<And>r. rc_reader s r \<noteq> R_out \<Longrightarrow> 2 \<le> count_list ls' (By_reader r)"
  shows "\<exists>s''. rcu_run qs ops n s' [By_writer w, By_writer w, By_writer w] s'' \<and> rc_writer s'' = (\<lambda>_. W_idle) \<and>
    g_live (rc_state s'') = objs_of (g_active_rules (rc_state s'')) + {#Obj_Qsbr#} \<and>
    g_active_rules (rc_state s'') = g_active_rules (rc_state s')"
proof -
  have env: "worker_env ops tv qs qv" by (rule worker_env.intro [OF assms(1,2)])
  have inv: "rcu_inv tv qv s" by (rule worker_env.rcu_run_inv [OF env assms(4) rcu_start_inv [OF assms(3)]])
  note more = worker_env.waiting_run [OF env assms(6) inv assms(5,7)]
  have "r \<notin> qs_waits qv (the (g_rules_qsbr (rc_state s')))" for r
  proof -
    have "worker_env.steps_owed qv s r \<le> count_list ls' (By_reader r)"
    proof (cases "rc_reader s r = R_out")
      case True
      obtain pc where sh: "shared_ok tv qv pc (rc_state s)" and
        ok: "reader_ok qv (the (g_rules_qsbr (rc_state s))) r pc (g_active_rules (rc_state s)) (rc_reader s r)"
        using inv by (auto simp: rcu_inv_def)
      have "r \<notin> qs_waits qv (the (g_rules_qsbr (rc_state s)))"
        using ok True worker_env.waits_subset [OF env sh] by auto
      then show ?thesis by (simp add: worker_env.steps_owed_def [OF env])
    next
      case False
      have "worker_env.steps_owed qv s r \<le> 2"
        by (simp add: worker_env.steps_owed_def [OF env] split: reader_pc.split)
      then show ?thesis using assms(8) [OF False] by linarith
    qed
    then have "worker_env.steps_owed qv s' r = 0" using more [of r] by linarith
    then show ?thesis by (simp add: worker_env.steps_owed_def [OF env] split: if_splits reader_pc.splits)
  qed
  then have "qs_waits qv (the (g_rules_qsbr (rc_state s'))) = {}" by blast
  from worker_env.publisher_finishes [OF env worker_env.rcu_run_inv [OF env assms(6) inv] _ this] more
  show ?thesis by fastforce
qed

theorem grace_period_ends_witness:
  "\<exists>s old token s' s''. rc_writer s 0 = W_waiting old token \<and> demo_runs s [By_reader 0, By_reader 0] s' \<and>
    demo_runs s' [By_writer 0, By_writer 0, By_writer 0] s'' \<and> rc_writer s'' = (\<lambda>_. W_idle)"
proof -
  obtain s old token ls x where s: "demo_runs (rcu_start demo_up) ls s" "rc_writer s 0 = W_waiting old token"
    "\<forall>r. r \<noteq> 0 \<longrightarrow> rc_reader s r = R_out" using demo_waiting by blast
  have step: "\<exists>s2. rcu_step (ref_qsbr_ops 128) (ref_tables []) 1 (By_reader 0) s1 s2"
    if "demo_runs (rcu_start demo_up) ls1 s1" for ls1 s1
    by (rule refw.reader_can_step [OF refw.rcu_run_inv [OF that rcu_start_inv [OF demo_ready]]]) simp
  obtain s1 where s1: "rcu_step (ref_qsbr_ops 128) (ref_tables []) 1 (By_reader 0) s s1" using step [OF s(1)] by blast
  have "demo_runs (rcu_start demo_up) (ls @ [By_reader 0]) s1" by (rule rcu_append [OF s(1) rcu_cons [OF s1 rcu_nil]])
  from step [OF this] obtain s2 where s2: "rcu_step (ref_qsbr_ops 128) (ref_tables []) 1 (By_reader 0) s1 s2" by blast
  have run: "demo_runs s [By_reader 0, By_reader 0] s2" by (rule rcu_cons [OF s1 rcu_cons [OF s2 rcu_nil]])
  have "2 \<le> count_list [By_reader 0, By_reader 0] (By_reader r)" if "rc_reader s r \<noteq> R_out" for r
    using that s(3) by (cases "r = 0") auto
  from grace_period_ends [OF reft.rte_table_laws_axioms refq.qsbr_laws_axioms demo_ready s(1,2) run _ this] run s(2)
  show ?thesis by auto
qed







end
