(* ===== verification/Dp_Binding.thy ===== *)
theory Dp_Binding
  imports Dp_Api
begin

text \<open>
  The cgo boundary: the C array helpers of \<open>dp_binding.c\<close> and the three functions of
  \<open>binding_linux.go\<close> that drive them (\<open>newRuleArrays\<close>, \<open>release\<close> and the argv assembly of
  \<open>Init\<close>). A C array is a list, an index outside it is a fault (\<open>None\<close>). \<open>calloc\<close> may fail, so
  its success is an argument of every allocation. The arrays still allocated are kept in a list
  beside the result, and freeing an array that is not in it is a fault.
\<close>

section \<open>Rule arrays\<close>

definition dp_flow_rules_alloc :: "bool \<Rightarrow> nat \<Rightarrow> dp_flow_rule list option" where
  "dp_flow_rules_alloc calloc_ok n =
     (if calloc_ok then Some (replicate n zero_flow_rule) else None)"

definition dp_route_rules_alloc :: "bool \<Rightarrow> nat \<Rightarrow> dp_route_rule list option" where
  "dp_route_rules_alloc calloc_ok n =
     (if calloc_ok then Some (replicate n zero_route_rule) else None)"

definition dp_rule_action_set ::
  "dp_rule_action \<Rightarrow> u8 \<Rightarrow> u8 \<Rightarrow> u32 \<Rightarrow> u32 \<Rightarrow> u16 \<Rightarrow> u16 \<Rightarrow> dp_rule_action" where
  "dp_rule_action_set action type rewrite_mask src_ipv4 dst_ipv4 src_port dst_port =
     (let action = zero_action in
      action\<lparr>ra_type := type, ra_rewrite_mask := rewrite_mask, ra_src_ipv4 := src_ipv4,
        ra_dst_ipv4 := dst_ipv4, ra_src_port := src_port, ra_dst_port := dst_port\<rparr>)"

definition dp_flow_rule_set ::
  "dp_flow_rule list \<Rightarrow> nat \<Rightarrow> u32 \<Rightarrow> u32 \<Rightarrow> u16 \<Rightarrow> u16 \<Rightarrow> u8 \<Rightarrow> u8 \<Rightarrow> u8 \<Rightarrow> u32 \<Rightarrow> u32 \<Rightarrow> u16 \<Rightarrow> u16 \<Rightarrow>
   dp_flow_rule list option" where
  "dp_flow_rule_set rules index src_ipv4 dst_ipv4 src_port dst_port l4_proto action_type
     rewrite_mask rewrite_src_ipv4 rewrite_dst_ipv4 rewrite_src_port rewrite_dst_port =
     (if index < length rules then
        let rule = zero_flow_rule;
            rule = rule\<lparr>fr_src_ipv4 := src_ipv4, fr_dst_ipv4 := dst_ipv4, fr_src_port := src_port,
              fr_dst_port := dst_port, fr_l4_proto := l4_proto\<rparr>;
            rule = rule\<lparr>fr_action := dp_rule_action_set (fr_action rule) action_type rewrite_mask
              rewrite_src_ipv4 rewrite_dst_ipv4 rewrite_src_port rewrite_dst_port\<rparr>
        in Some (rules[index := rule])
      else None)"

definition dp_route_rule_set ::
  "dp_route_rule list \<Rightarrow> nat \<Rightarrow> u32 \<Rightarrow> u8 \<Rightarrow> u8 \<Rightarrow> u8 \<Rightarrow> u32 \<Rightarrow> u32 \<Rightarrow> u16 \<Rightarrow> u16 \<Rightarrow>
   dp_route_rule list option" where
  "dp_route_rule_set rules index prefix depth action_type rewrite_mask rewrite_src_ipv4
     rewrite_dst_ipv4 rewrite_src_port rewrite_dst_port =
     (if index < length rules then
        let rule = zero_route_rule;
            rule = rule\<lparr>rr_prefix := prefix, rr_depth := depth\<rparr>;
            rule = rule\<lparr>rr_action := dp_rule_action_set (rr_action rule) action_type rewrite_mask
              rewrite_src_ipv4 rewrite_dst_ipv4 rewrite_src_port rewrite_dst_port\<rparr>
        in Some (rules[index := rule])
      else None)"

datatype c_array = Flow_Array "dp_flow_rule list" | Route_Array "dp_route_rule list"

text \<open>\<open>free(NULL)\<close> does nothing; a pointer that is not live must not be freed.\<close>

definition dp_rule_array_free :: "c_array option \<Rightarrow> c_array list \<Rightarrow> c_array list option" where
  "dp_rule_array_free rules live = (case rules of
     None \<Rightarrow> Some live
   | Some p \<Rightarrow> if p \<in> set live then Some (remove1 p live) else None)"

section \<open>Command line arrays\<close>

definition dp_argv_alloc :: "bool \<Rightarrow> nat \<Rightarrow> string option list option" where
  "dp_argv_alloc calloc_ok n = (if calloc_ok then Some (replicate n None) else None)"

definition dp_argv_set ::
  "string option list \<Rightarrow> nat \<Rightarrow> string option \<Rightarrow> string option list option" where
  "dp_argv_set argv index v = (if index < length argv then Some (argv[index := v]) else None)"

section \<open>The Go side\<close>

record go_action =
  ga_type :: u8
  ga_mask :: u8
  ga_src :: u32
  ga_dst :: u32
  ga_sport :: u16
  ga_dport :: u16

record go_flow =
  gf_src :: u32
  gf_dst :: u32
  gf_sport :: u16
  gf_dport :: u16
  gf_proto :: u8
  gf_action :: go_action

record go_route =
  gr_prefix :: u32
  gr_depth :: u8
  gr_action :: go_action

record rule_arrays =
  ar_flows :: "dp_flow_rule list option"
  ar_routes :: "dp_route_rule list option"

datatype binding_error = Over_Capacity | Flow_Alloc_Failed | Route_Alloc_Failed | Argv_Alloc_Failed

text \<open>The two \<open>for i, rule := range\<close> loops, from index \<open>i\<close> on.\<close>

fun set_flows :: "nat \<Rightarrow> go_flow list \<Rightarrow> dp_flow_rule list \<Rightarrow> dp_flow_rule list option" where
  "set_flows i [] arr = Some arr"
| "set_flows i (r # rs) arr = do {
     let a = gf_action r;
     arr \<leftarrow> dp_flow_rule_set arr i (gf_src r) (gf_dst r) (gf_sport r) (gf_dport r) (gf_proto r)
       (ga_type a) (ga_mask a) (ga_src a) (ga_dst a) (ga_sport a) (ga_dport a);
     set_flows (i + 1) rs arr }"

fun set_routes :: "nat \<Rightarrow> go_route list \<Rightarrow> dp_route_rule list \<Rightarrow> dp_route_rule list option" where
  "set_routes i [] arr = Some arr"
| "set_routes i (r # rs) arr = do {
     let a = gr_action r;
     arr \<leftarrow> dp_route_rule_set arr i (gr_prefix r) (gr_depth r)
       (ga_type a) (ga_mask a) (ga_src a) (ga_dst a) (ga_sport a) (ga_dport a);
     set_routes (i + 1) rs arr }"

text \<open>
  \<open>newRuleArrays\<close>, with the outcomes of its two \<open>calloc\<close> calls. The result carries the C arrays
  that are allocated when it returns.
\<close>

definition new_rule_arrays :: "bool \<Rightarrow> bool \<Rightarrow> go_flow list \<Rightarrow> go_route list \<Rightarrow>
    ((binding_error + rule_arrays) \<times> c_array list) option" where
  "new_rule_arrays flows_ok routes_ok flows routes =
     (if length flows > DP_MAX_FLOW_RULES \<or> length routes > DP_MAX_ROUTE_RULES
      then Some (Inl Over_Capacity, [])
      else
        let fl = (if flows = [] then None else dp_flow_rules_alloc flows_ok (length flows)) in
        if flows \<noteq> [] \<and> fl = None then Some (Inl Flow_Alloc_Failed, [])
        else do {
          fl \<leftarrow> (case fl of None \<Rightarrow> Some None
                  | Some arr \<Rightarrow> do { arr \<leftarrow> set_flows 0 flows arr; Some (Some arr) });
          let live = (case fl of None \<Rightarrow> [] | Some arr \<Rightarrow> [Flow_Array arr]);
          let rt = (if routes = [] then None else dp_route_rules_alloc routes_ok (length routes));
          if routes \<noteq> [] \<and> rt = None then do {
            live \<leftarrow> dp_rule_array_free (map_option Flow_Array fl) live;
            Some (Inl Route_Alloc_Failed, live)
          }
          else do {
            rt \<leftarrow> (case rt of None \<Rightarrow> Some None
                    | Some arr \<Rightarrow> do { arr \<leftarrow> set_routes 0 routes arr; Some (Some arr) });
            let live = live @ (case rt of None \<Rightarrow> [] | Some arr \<Rightarrow> [Route_Array arr]);
            Some (Inr \<lparr>ar_flows = fl, ar_routes = rt\<rparr>, live)
          }
        })"

definition release_arrays :: "rule_arrays \<Rightarrow> c_array list \<Rightarrow> c_array list option" where
  "release_arrays arrays live = do {
     live \<leftarrow> dp_rule_array_free (map_option Flow_Array (ar_flows arrays)) live;
     dp_rule_array_free (map_option Route_Array (ar_routes arrays)) live }"

fun set_argv :: "nat \<Rightarrow> string list \<Rightarrow> string option list \<Rightarrow> string option list option" where
  "set_argv i [] argv = Some argv"
| "set_argv i (s # ss) argv = do { argv \<leftarrow> dp_argv_set argv i (Some s); set_argv (i + 1) ss argv }"

text \<open>What \<open>Init\<close> passes to \<open>dp_runtime_init\<close>: \<open>argc\<close> and the array.\<close>

definition init_argv ::
  "bool \<Rightarrow> string list \<Rightarrow> (binding_error + nat \<times> string option list) option" where
  "init_argv calloc_ok args =
     (let strings = ''flow-router'' # args in
      case dp_argv_alloc calloc_ok (length args + 2) of
        None \<Rightarrow> Some (Inl Argv_Alloc_Failed)
      | Some argv \<Rightarrow> do {
          argv \<leftarrow> set_argv 0 strings argv;
          Some (Inr (length args + 1, argv)) })"

section \<open>Lemmas\<close>

text \<open>The C rule a Go rule denotes.\<close>

definition action_of :: "go_action \<Rightarrow> dp_rule_action" where
  "action_of a = \<lparr>ra_type = ga_type a, ra_rewrite_mask = ga_mask a, ra_reserved = 0,
     ra_src_ipv4 = ga_src a, ra_dst_ipv4 = ga_dst a, ra_src_port = ga_sport a,
     ra_dst_port = ga_dport a\<rparr>"

definition flow_of :: "go_flow \<Rightarrow> dp_flow_rule" where
  "flow_of r = \<lparr>fr_src_ipv4 = gf_src r, fr_dst_ipv4 = gf_dst r, fr_src_port = gf_sport r,
     fr_dst_port = gf_dport r, fr_l4_proto = gf_proto r, fr_reserved = (0, 0, 0),
     fr_action = action_of (gf_action r)\<rparr>"

definition route_of :: "go_route \<Rightarrow> dp_route_rule" where
  "route_of r = \<lparr>rr_prefix = gr_prefix r, rr_depth = gr_depth r, rr_reserved = (0, 0, 0),
     rr_action = action_of (gr_action r)\<rparr>"

lemma set_flows_step:
  "i < length arr \<Longrightarrow> set_flows i (r # rs) arr = set_flows (i + 1) rs (arr[i := flow_of r])"
  by (simp add: dp_flow_rule_set_def dp_rule_action_set_def zero_flow_rule_def zero_action_def
      flow_of_def action_of_def Let_def)

lemma set_routes_step:
  "i < length arr \<Longrightarrow> set_routes i (r # rs) arr = set_routes (i + 1) rs (arr[i := route_of r])"
  by (simp add: dp_route_rule_set_def dp_rule_action_set_def zero_route_rule_def zero_action_def
      route_of_def action_of_def Let_def)

text \<open>A loop that writes one element per round fills the whole array.\<close>

lemma fill_array:
  assumes "\<And>i arr. step i [] arr = Some arr"
    and "\<And>i x xs arr. i < length arr \<Longrightarrow> step i (x # xs) arr = step (i + 1) xs (arr[i := f x])"
  shows "length pre + length xs \<le> length arr \<Longrightarrow> take (length pre) arr = pre \<Longrightarrow>
    step (length pre) xs arr = Some (pre @ map f xs @ drop (length pre + length xs) arr)"
proof (induction xs arbitrary: pre arr)
  case Nil
  then show ?case using append_take_drop_id [of "length pre" arr] by (simp add: assms(1))
next
  case (Cons x xs)
  let ?arr = "arr[length pre := f x]"
  have "take (length (pre @ [f x])) ?arr = pre @ [f x]"
    using Cons.prems by (simp add: take_Suc_conv_app_nth)
  with Cons.IH [of "pre @ [f x]" ?arr] Cons.prems show ?case
    by (simp add: assms(2))
qed

lemma set_flows_fills:
  "length arr = length rs \<Longrightarrow> set_flows 0 rs arr = Some (map flow_of rs)"
  using fill_array [where step = set_flows and f = flow_of and pre = "[]" and xs = rs and arr = arr]
  by (simp add: set_flows_step del: set_flows.simps(2))

lemma set_routes_fills:
  "length arr = length rs \<Longrightarrow> set_routes 0 rs arr = Some (map route_of rs)"
  using fill_array [where step = set_routes and f = route_of and pre = "[]" and xs = rs and arr = arr]
  by (simp add: set_routes_step del: set_routes.simps(2))

lemma set_argv_fills:
  "length ss \<le> length argv \<Longrightarrow>
    set_argv 0 ss argv = Some (map Some ss @ drop (length ss) argv)"
  using fill_array [where step = set_argv and f = Some and pre = "[]" and xs = ss and arr = argv]
  by (simp add: dp_argv_set_def)

lemma new_rule_arrays_ok:
  assumes "length flows \<le> DP_MAX_FLOW_RULES" "length routes \<le> DP_MAX_ROUTE_RULES"
    and "flows = [] \<or> flows_ok" "routes = [] \<or> routes_ok"
  shows "\<exists>live. new_rule_arrays flows_ok routes_ok flows routes =
    Some (Inr \<lparr>ar_flows = (if flows = [] then None else Some (map flow_of flows)),
               ar_routes = (if routes = [] then None else Some (map route_of routes))\<rparr>, live) \<and>
    live = (if flows = [] then [] else [Flow_Array (map flow_of flows)]) @
           (if routes = [] then [] else [Route_Array (map route_of routes)])"
  using assms
  by (auto simp: new_rule_arrays_def dp_flow_rules_alloc_def dp_route_rules_alloc_def
      set_flows_fills set_routes_fills)

lemma new_rule_arrays_cases:
  "\<exists>res live. new_rule_arrays flows_ok routes_ok flows routes = Some (res, live) \<and>
     (case res of
        Inl e \<Rightarrow> live = [] \<and>
          (length flows > DP_MAX_FLOW_RULES \<or> length routes > DP_MAX_ROUTE_RULES \<or>
           flows \<noteq> [] \<and> \<not> flows_ok \<or> routes \<noteq> [] \<and> \<not> routes_ok)
      | Inr arrays \<Rightarrow>
          length flows \<le> DP_MAX_FLOW_RULES \<and> length routes \<le> DP_MAX_ROUTE_RULES \<and>
          ar_flows arrays = (if flows = [] then None else Some (map flow_of flows)) \<and>
          ar_routes arrays = (if routes = [] then None else Some (map route_of routes)) \<and>
          release_arrays arrays live = Some [])"
proof (cases "length flows \<le> DP_MAX_FLOW_RULES \<and> length routes \<le> DP_MAX_ROUTE_RULES \<and>
    (flows = [] \<or> flows_ok) \<and> (routes = [] \<or> routes_ok)")
  case True
  then show ?thesis
    using new_rule_arrays_ok [of flows routes flows_ok routes_ok]
    by (auto simp: release_arrays_def dp_rule_array_free_def)
next
  case False
  then show ?thesis
    by (auto simp: new_rule_arrays_def dp_flow_rules_alloc_def dp_route_rules_alloc_def
        set_flows_fills set_routes_fills dp_rule_array_free_def)
qed

section \<open>Properties\<close>


text \<open>
  The argument vector given to the EAL has one slot per argument plus the program name,
  in order, and one more that is NULL, as a C argv must; assembling it never writes outside it.
\<close>

theorem init_argv_null_terminated:
  "init_argv calloc_ok args = Some (if calloc_ok
     then Inr (length args + 1, Some ''flow-router'' # map Some args @ [None])
     else Inl Argv_Alloc_Failed)"
proof -
  have "replicate (length args + 2) (None :: string option) = replicate (length args + 1) None @ [None]"
    by (simp add: replicate_append_same)
  then show ?thesis
    by (simp add: init_argv_def dp_argv_alloc_def set_argv_fills del: set_argv.simps replicate_Suc)
qed

end
