(* ===== verification/Dp_Control.thy ===== *)
theory Dp_Control
  imports Dp_Lifecycle Dp_Binding
begin

text \<open>
  The rule management of the Go control plane (\<open>control/dataplane/rules.go\<close>) and the two calls of the
  binding that hand rules to the native side (\<open>ConfigureRules\<close>, \<open>PublishRules\<close> of \<open>binding_linux.go\<close>).
  A Go \<open>error\<close> is an option, \<open>None\<close> for nil; an operation with a result and an error returns a sum. Slices are
  lists, the maps of seen keys are sets. The text of addresses is read by Go's package \<open>net\<close>: what its
  functions answer is the parameter \<open>net_ops\<close>. The JSON decoder is not modelled: \<open>normalizeRules\<close> starts
  from the decoded document.
\<close>

section \<open>Data\<close>

record rule_action =
  ct_type :: u8
  ct_mask :: u8
  ct_src :: u32
  ct_dst :: u32
  ct_sport :: u16
  ct_dport :: u16

record flow_rule =
  cf_src :: u32
  cf_dst :: u32
  cf_sport :: u16
  cf_dport :: u16
  cf_proto :: u8
  cf_action :: rule_action

record control_flow_key =
  ck_src :: u32
  ck_dst :: u32
  ck_sport :: u16
  ck_dport :: u16
  ck_proto :: u8

record route_rule =
  cr_prefix :: u32
  cr_depth :: u8
  cr_action :: rule_action

record control_route_key =
  rk_prefix :: u32
  rk_depth :: u8

record rule_snapshot =
  rs_flows :: "flow_rule list"
  rs_routes :: "route_rule list"

record action_document =
  ad_type :: string
  ad_src :: "string option"
  ad_dst :: "string option"
  ad_sport :: "u16 option"
  ad_dport :: "u16 option"

record flow_document =
  fd_src :: string
  fd_dst :: string
  fd_sport :: u16
  fd_dport :: u16
  fd_protocol :: string
  fd_action :: action_document

record route_document =
  rd_prefix :: string
  rd_action :: action_document

record rules_document =
  doc_flows :: "flow_document list"
  doc_routes :: "route_document list"

datatype action_error =
    Mask_Without_Rewrite
  | Unknown_Action_Type u8
  | Invalid_Rewrite_Mask u8
  | Unsupported_Action string
  | Unexpected_Rewrite_Fields string
  | Bad_Rewrite_Src string
  | Bad_Rewrite_Dst string
  | Empty_Rewrite

datatype rules_error =
    Exceeds_Capacity
  | Flow_Capacity nat
  | Route_Capacity nat
  | Bad_Flow_Src nat string
  | Bad_Flow_Dst nat string
  | Bad_Protocol nat u8
  | Unsupported_Protocol nat string
  | Bad_Flow_Action nat action_error
  | Duplicate_Flow nat
  | Bad_Prefix nat string
  | Bad_Depth nat u8
  | Prefix_Not_Normalized nat
  | Bad_Route_Action nat action_error
  | Duplicate_Route nat

section \<open>From the document to rules\<close>

text \<open>
  What the source reads off \<open>net.ParseIP(text).To4()\<close> and \<open>net.ParseCIDR(text)\<close>: the address as a number,
  if there is one; whether the CIDR's address is IPv4, its mask's ones and bits, and the network's number.
\<close>

record cidr =
  ci_is_ipv4 :: bool
  ci_depth :: nat
  ci_bits :: nat
  ci_network :: u32

record net_ops =
  net_parse_ip4 :: "string \<Rightarrow> u32 option"
  net_parse_cidr :: "string \<Rightarrow> cidr option"

definition rewrite_ipv4 ::
  "net_ops \<Rightarrow> string option \<Rightarrow> (string \<Rightarrow> action_error) \<Rightarrow> u8 \<Rightarrow> u32 \<times> u8 \<Rightarrow> action_error + u32 \<times> u8" where
  "rewrite_ipv4 net field err flag = (\<lambda>(v, m). case field of
     None \<Rightarrow> Inr (v, m)
   | Some text \<Rightarrow> (case net_parse_ip4 net text of
       None \<Rightarrow> Inl (err text)
     | Some n \<Rightarrow> Inr (n, m OR flag)))"

definition parse_action :: "net_ops \<Rightarrow> action_document \<Rightarrow> action_error + rule_action" where
  "parse_action net document =
     (let action = \<lparr>ct_type = 0, ct_mask = 0, ct_src = 0, ct_dst = 0, ct_sport = 0, ct_dport = 0\<rparr>;
          type = (if ad_type document = ''drop'' then Some DP_ACTION_DROP
            else if ad_type document = ''forward'' then Some DP_ACTION_FORWARD
            else if ad_type document = ''rewrite'' then Some DP_ACTION_REWRITE else None) in
      case type of
        None \<Rightarrow> Inl (Unsupported_Action (ad_type document))
      | Some t \<Rightarrow>
          let action = action\<lparr>ct_type := t\<rparr> in
          if t \<noteq> DP_ACTION_REWRITE
          then if ad_src document \<noteq> None \<or> ad_dst document \<noteq> None \<or> ad_sport document \<noteq> None \<or> ad_dport document \<noteq> None
            then Inl (Unexpected_Rewrite_Fields (ad_type document))
            else Inr action
          else case rewrite_ipv4 net (ad_src document) Bad_Rewrite_Src DP_REWRITE_SRC_IPV4 (ct_src action, ct_mask action) of
            Inl e \<Rightarrow> Inl e
          | Inr (src, m) \<Rightarrow>
              (let action = action\<lparr>ct_src := src, ct_mask := m\<rparr> in
               case rewrite_ipv4 net (ad_dst document) Bad_Rewrite_Dst DP_REWRITE_DST_IPV4 (ct_dst action, ct_mask action) of
                 Inl e \<Rightarrow> Inl e
               | Inr (dst, m) \<Rightarrow>
                   (let action = action\<lparr>ct_dst := dst, ct_mask := m\<rparr>;
                        action = (case ad_sport document of None \<Rightarrow> action
                          | Some p \<Rightarrow> action\<lparr>ct_sport := p, ct_mask := ct_mask action OR DP_REWRITE_SRC_PORT\<rparr>);
                        action = (case ad_dport document of None \<Rightarrow> action
                          | Some p \<Rightarrow> action\<lparr>ct_dport := p, ct_mask := ct_mask action OR DP_REWRITE_DST_PORT\<rparr>) in
                    if ct_mask action = 0 then Inl Empty_Rewrite else Inr action)))"

definition parse_protocol :: "string \<Rightarrow> u8 option" where
  "parse_protocol protocol =
     (if protocol = ''tcp'' then Some 6 else if protocol = ''udp'' then Some 17 else None)"

text \<open>The two loops of \<open>normalizeRules\<close>, from index \<open>i\<close> on; \<open>acc\<close> is the slice built so far.\<close>

fun normalize_flows ::
  "net_ops \<Rightarrow> nat \<Rightarrow> control_flow_key set \<Rightarrow> flow_rule list \<Rightarrow> flow_document list \<Rightarrow> rules_error + flow_rule list" where
  "normalize_flows net i keys acc [] = Inr acc"
| "normalize_flows net i keys acc (item # items) =
     (case net_parse_ip4 net (fd_src item) of
        None \<Rightarrow> Inl (Bad_Flow_Src i (fd_src item))
      | Some src \<Rightarrow>
     (case net_parse_ip4 net (fd_dst item) of
        None \<Rightarrow> Inl (Bad_Flow_Dst i (fd_dst item))
      | Some dst \<Rightarrow>
     (case parse_protocol (fd_protocol item) of
        None \<Rightarrow> Inl (Unsupported_Protocol i (fd_protocol item))
      | Some protocol \<Rightarrow>
     (case parse_action net (fd_action item) of
        Inl e \<Rightarrow> Inl (Bad_Flow_Action i e)
      | Inr action \<Rightarrow>
     (let key = \<lparr>ck_src = src, ck_dst = dst, ck_sport = fd_sport item, ck_dport = fd_dport item, ck_proto = protocol\<rparr> in
      if key \<in> keys then Inl (Duplicate_Flow i)
      else normalize_flows net (i + 1) (insert key keys)
        (acc @ [\<lparr>cf_src = src, cf_dst = dst, cf_sport = fd_sport item, cf_dport = fd_dport item,
           cf_proto = protocol, cf_action = action\<rparr>]) items)))))"

fun normalize_routes ::
  "net_ops \<Rightarrow> nat \<Rightarrow> (u32 \<times> nat) set \<Rightarrow> route_rule list \<Rightarrow> route_document list \<Rightarrow> rules_error + route_rule list" where
  "normalize_routes net i keys acc [] = Inr acc"
| "normalize_routes net i keys acc (item # items) =
     (case net_parse_cidr net (rd_prefix item) of
        None \<Rightarrow> Inl (Bad_Prefix i (rd_prefix item))
      | Some c \<Rightarrow>
     (if \<not> ci_is_ipv4 c then Inl (Bad_Prefix i (rd_prefix item))
      else if ci_bits c \<noteq> 32 \<or> ci_depth c = 0 then Inl (Bad_Prefix i (rd_prefix item))
      else
     (case parse_action net (rd_action item) of
        Inl e \<Rightarrow> Inl (Bad_Route_Action i e)
      | Inr action \<Rightarrow>
     (let key = (ci_network c, ci_depth c) in
      if key \<in> keys then Inl (Duplicate_Route i)
      else normalize_routes net (i + 1) (insert key keys)
        (acc @ [\<lparr>cr_prefix = ci_network c, cr_depth = word_of_nat (ci_depth c), cr_action = action\<rparr>]) items))))"

definition normalize_rules :: "net_ops \<Rightarrow> rules_document \<Rightarrow> rules_error + rule_snapshot" where
  "normalize_rules net document =
     (if length (doc_flows document) > DP_MAX_FLOW_RULES then Inl (Flow_Capacity (length (doc_flows document)))
      else if length (doc_routes document) > DP_MAX_ROUTE_RULES then Inl (Route_Capacity (length (doc_routes document)))
      else case normalize_flows net 0 {} [] (doc_flows document) of
        Inl e \<Rightarrow> Inl e
      | Inr flows \<Rightarrow> (case normalize_routes net 0 {} [] (doc_routes document) of
          Inl e \<Rightarrow> Inl e
        | Inr routes \<Rightarrow> Inr \<lparr>rs_flows = flows, rs_routes = routes\<rparr>))"

section \<open>Validation\<close>

definition validate_rule_action :: "rule_action \<Rightarrow> action_error option" where
  "validate_rule_action action =
     (let valid_mask = DP_REWRITE_SRC_IPV4 OR DP_REWRITE_DST_IPV4 OR DP_REWRITE_SRC_PORT OR DP_REWRITE_DST_PORT in
      if ct_type action = DP_ACTION_DROP \<or> ct_type action = DP_ACTION_FORWARD
      then (if ct_mask action \<noteq> 0 then Some Mask_Without_Rewrite else None)
      else if ct_type action \<noteq> DP_ACTION_REWRITE then Some (Unknown_Action_Type (ct_type action))
      else if ct_mask action = 0 \<or> ct_mask action AND NOT valid_mask \<noteq> 0
      then Some (Invalid_Rewrite_Mask (ct_mask action))
      else None)"

definition control_flow_key_of :: "flow_rule \<Rightarrow> control_flow_key" where
  "control_flow_key_of rule = \<lparr>ck_src = cf_src rule, ck_dst = cf_dst rule, ck_sport = cf_sport rule,
     ck_dport = cf_dport rule, ck_proto = cf_proto rule\<rparr>"

definition control_route_key_of :: "route_rule \<Rightarrow> control_route_key" where
  "control_route_key_of rule = \<lparr>rk_prefix = cr_prefix rule, rk_depth = cr_depth rule\<rparr>"

text \<open>The two loops of \<open>validateRules\<close>, from index \<open>i\<close> on, with the keys seen so far.\<close>

fun validate_flows :: "nat \<Rightarrow> control_flow_key set \<Rightarrow> flow_rule list \<Rightarrow> rules_error option" where
  "validate_flows i keys [] = None"
| "validate_flows i keys (rule # rules) =
     (if cf_proto rule \<noteq> 6 \<and> cf_proto rule \<noteq> 17 then Some (Bad_Protocol i (cf_proto rule))
      else case validate_rule_action (cf_action rule) of
        Some e \<Rightarrow> Some (Bad_Flow_Action i e)
      | None \<Rightarrow>
          (let key = control_flow_key_of rule in
           if key \<in> keys then Some (Duplicate_Flow i)
           else validate_flows (i + 1) (insert key keys) rules))"

fun validate_routes :: "nat \<Rightarrow> control_route_key set \<Rightarrow> route_rule list \<Rightarrow> rules_error option" where
  "validate_routes i keys [] = None"
| "validate_routes i keys (rule # rules) =
     (if cr_depth rule = 0 \<or> cr_depth rule > 32 then Some (Bad_Depth i (cr_depth rule))
      else
        let mask = (if cr_depth rule \<noteq> 0 then push_bit (unat (32 - cr_depth rule)) (NOT 0) else 0 :: u32) in
        if cr_prefix rule AND mask \<noteq> cr_prefix rule then Some (Prefix_Not_Normalized i)
        else case validate_rule_action (cr_action rule) of
          Some e \<Rightarrow> Some (Bad_Route_Action i e)
        | None \<Rightarrow>
            (let key = control_route_key_of rule in
             if key \<in> keys then Some (Duplicate_Route i)
             else validate_routes (i + 1) (insert key keys) rules))"

definition validate_rules :: "rule_snapshot \<Rightarrow> rules_error option" where
  "validate_rules snapshot =
     (if length (rs_flows snapshot) > DP_MAX_FLOW_RULES \<or> length (rs_routes snapshot) > DP_MAX_ROUTE_RULES
      then Some Exceeds_Capacity
      else case validate_flows 0 {} (rs_flows snapshot) of
        Some e \<Rightarrow> Some e
      | None \<Rightarrow> validate_routes 0 {} (rs_routes snapshot))"

section \<open>To the native boundary\<close>

record native_snapshot =
  ns_flows :: "go_flow list"
  ns_routes :: "go_route list"

definition native_action :: "rule_action \<Rightarrow> go_action" where
  "native_action a = \<lparr>ga_type = ct_type a, ga_mask = ct_mask a, ga_src = ct_src a, ga_dst = ct_dst a,
     ga_sport = ct_sport a, ga_dport = ct_dport a\<rparr>"

definition to_native_rules :: "rule_snapshot \<Rightarrow> native_snapshot" where
  "to_native_rules snapshot = \<lparr>
     ns_flows = map (\<lambda>rule. \<lparr>gf_src = cf_src rule, gf_dst = cf_dst rule, gf_sport = cf_sport rule,
       gf_dport = cf_dport rule, gf_proto = cf_proto rule, gf_action = native_action (cf_action rule)\<rparr>)
       (rs_flows snapshot),
     ns_routes = map (\<lambda>rule. \<lparr>gr_prefix = cr_prefix rule, gr_depth = cr_depth rule,
       gr_action = native_action (cr_action rule)\<rparr>) (rs_routes snapshot)\<rparr>"

definition clone_rules :: "rule_snapshot \<Rightarrow> rule_snapshot" where
  "clone_rules snapshot = \<lparr>rs_flows = [] @ rs_flows snapshot, rs_routes = [] @ rs_routes snapshot\<rparr>"

datatype native_error = Not_Marshalled binding_error | Native_Status int

definition native_status :: "int \<Rightarrow> native_error option" where
  "native_status rc = (if rc = 0 then None else Some (Native_Status rc))"

text \<open>What a call meets: the moment, the reports of readers while it waits, the outcomes of \<open>calloc\<close>.\<close>

record call_env =
  ce_time :: nat
  ce_reports :: "nat list"
  ce_flows_ok :: bool
  ce_routes_ok :: bool

definition native_configure_rules ::
  "'q qsbr_ops \<Rightarrow> ('h, 'l) rte_table_ops \<Rightarrow> call_env \<Rightarrow> native_snapshot \<Rightarrow> ('h, 'l, 'q) dp_state \<Rightarrow>
   (native_error option \<times> ('h, 'l, 'q) dp_state) option" where
  "native_configure_rules qs ops ce snapshot st = do {
     (arrays, live) \<leftarrow> new_rule_arrays (ce_flows_ok ce) (ce_routes_ok ce) (ns_flows snapshot) (ns_routes snapshot);
     case arrays of
       Inl e \<Rightarrow> Some (Some (Not_Marshalled e), st)
     | Inr arrays \<Rightarrow> do {
         (rc, st) \<leftarrow> dp_configure_rules qs ops (ce_time ce) (ar_flows arrays) (word_of_nat (length (ns_flows snapshot)))
           (ar_routes arrays) (word_of_nat (length (ns_routes snapshot))) st;
         live \<leftarrow> release_arrays arrays live;
         Some (native_status rc, st) } }"

definition native_publish_rules ::
  "'q qsbr_ops \<Rightarrow> ('h, 'l) rte_table_ops \<Rightarrow> call_env \<Rightarrow> native_snapshot \<Rightarrow> ('h, 'l, 'q) dp_state \<Rightarrow>
   (u64 \<times> native_error option, ('h, 'l, 'q) dp_state) publish_outcome option" where
  "native_publish_rules qs ops ce snapshot st = do {
     (arrays, live) \<leftarrow> new_rule_arrays (ce_flows_ok ce) (ce_routes_ok ce) (ns_flows snapshot) (ns_routes snapshot);
     case arrays of
       Inl e \<Rightarrow> Some (Returned (0, Some (Not_Marshalled e)) st)
     | Inr arrays \<Rightarrow> do {
         out \<leftarrow> dp_publish_rules qs ops (ce_time ce) (ce_reports ce) (ar_flows arrays)
           (word_of_nat (length (ns_flows snapshot))) (ar_routes arrays)
           (word_of_nat (length (ns_routes snapshot))) (Some 0) st;
         (case out of
            Still_Waiting st \<Rightarrow> Some (Still_Waiting st)
          | Returned (rc, generation) st \<Rightarrow> do {
              live \<leftarrow> release_arrays arrays live;
              generation \<leftarrow> generation;
              Some (Returned (generation, native_status rc) st) }) } }"

section \<open>The rule operations of the runtime\<close>

text \<open>
  The fields of \<open>Runtime\<close> that \<open>rulesMu\<close> protects, and the native state behind \<open>publishRules\<close>. Every
  operation holds \<open>rulesMu\<close> from its first read to its end.
\<close>

record ('h, 'l, 'q) runtime =
  rt_rules :: rule_snapshot
  rt_generation :: u64
  rt_open :: bool
  rt_native :: "('h, 'l, 'q) dp_state"

datatype control_error =
    Invalid_Rules rules_error
  | Duplicate_Key
  | No_Such_Key
  | Publication_Unavailable
  | Native_Failed native_error

definition publish_snapshot_locked ::
  "'q qsbr_ops \<Rightarrow> ('h, 'l) rte_table_ops \<Rightarrow> call_env \<Rightarrow> rule_snapshot \<Rightarrow> ('h, 'l, 'q) runtime \<Rightarrow>
   (control_error option, ('h, 'l, 'q) runtime) publish_outcome option" where
  "publish_snapshot_locked qs ops ce snapshot r =
     (if \<not> rt_open r then Some (Returned (Some Publication_Unavailable) r)
      else do {
        out \<leftarrow> native_publish_rules qs ops ce (to_native_rules snapshot) (rt_native r);
        (case out of
           Still_Waiting st \<Rightarrow> Some (Still_Waiting (r\<lparr>rt_native := st\<rparr>))
         | Returned (generation, err) st \<Rightarrow>
             let r = r\<lparr>rt_native := st\<rparr> in
             (case err of
                Some e \<Rightarrow> Some (Returned (Some (Native_Failed e)) r)
              | None \<Rightarrow> Some (Returned None (r\<lparr>rt_rules := clone_rules snapshot, rt_generation := generation\<rparr>)))) })"

definition replace_rules ::
  "'q qsbr_ops \<Rightarrow> ('h, 'l) rte_table_ops \<Rightarrow> call_env \<Rightarrow> rule_snapshot \<Rightarrow> ('h, 'l, 'q) runtime \<Rightarrow>
   (control_error option, ('h, 'l, 'q) runtime) publish_outcome option" where
  "replace_rules qs ops ce snapshot r =
     (let candidate = clone_rules snapshot in
      case validate_rules candidate of
        Some e \<Rightarrow> Some (Returned (Some (Invalid_Rules e)) r)
      | None \<Rightarrow> publish_snapshot_locked qs ops ce candidate r)"

definition add_flow ::
  "'q qsbr_ops \<Rightarrow> ('h, 'l) rte_table_ops \<Rightarrow> call_env \<Rightarrow> flow_rule \<Rightarrow> ('h, 'l, 'q) runtime \<Rightarrow>
   (control_error option, ('h, 'l, 'q) runtime) publish_outcome option" where
  "add_flow qs ops ce rule r =
     (let candidate = clone_rules (rt_rules r);
          wanted = control_flow_key_of rule in
      if \<exists>existing \<in> set (rs_flows candidate). control_flow_key_of existing = wanted
      then Some (Returned (Some Duplicate_Key) r)
      else
        let candidate = candidate\<lparr>rs_flows := rs_flows candidate @ [rule]\<rparr> in
        case validate_rules candidate of
          Some e \<Rightarrow> Some (Returned (Some (Invalid_Rules e)) r)
        | None \<Rightarrow> publish_snapshot_locked qs ops ce candidate r)"

text \<open>The search for the first rule with the key, from index \<open>i\<close> on.\<close>

fun index_where :: "nat \<Rightarrow> ('a \<Rightarrow> bool) \<Rightarrow> 'a list \<Rightarrow> nat option" where
  "index_where i p [] = None"
| "index_where i p (x # xs) = (if p x then Some i else index_where (i + 1) p xs)"

definition delete_flow ::
  "'q qsbr_ops \<Rightarrow> ('h, 'l) rte_table_ops \<Rightarrow> call_env \<Rightarrow> control_flow_key \<Rightarrow> ('h, 'l, 'q) runtime \<Rightarrow>
   (control_error option, ('h, 'l, 'q) runtime) publish_outcome option" where
  "delete_flow qs ops ce key r =
     (let candidate = clone_rules (rt_rules r) in
      case index_where 0 (\<lambda>existing. control_flow_key_of existing = key) (rs_flows candidate) of
        None \<Rightarrow> Some (Returned (Some No_Such_Key) r)
      | Some index \<Rightarrow>
          publish_snapshot_locked qs ops ce (candidate\<lparr>rs_flows := take index (rs_flows candidate) @
            drop (index + 1) (rs_flows candidate)\<rparr>) r)"

definition add_route ::
  "'q qsbr_ops \<Rightarrow> ('h, 'l) rte_table_ops \<Rightarrow> call_env \<Rightarrow> route_rule \<Rightarrow> ('h, 'l, 'q) runtime \<Rightarrow>
   (control_error option, ('h, 'l, 'q) runtime) publish_outcome option" where
  "add_route qs ops ce rule r =
     (let candidate = clone_rules (rt_rules r);
          wanted = control_route_key_of rule in
      if \<exists>existing \<in> set (rs_routes candidate). control_route_key_of existing = wanted
      then Some (Returned (Some Duplicate_Key) r)
      else
        let candidate = candidate\<lparr>rs_routes := rs_routes candidate @ [rule]\<rparr> in
        case validate_rules candidate of
          Some e \<Rightarrow> Some (Returned (Some (Invalid_Rules e)) r)
        | None \<Rightarrow> publish_snapshot_locked qs ops ce candidate r)"

definition delete_route ::
  "'q qsbr_ops \<Rightarrow> ('h, 'l) rte_table_ops \<Rightarrow> call_env \<Rightarrow> control_route_key \<Rightarrow> ('h, 'l, 'q) runtime \<Rightarrow>
   (control_error option, ('h, 'l, 'q) runtime) publish_outcome option" where
  "delete_route qs ops ce key r =
     (let candidate = clone_rules (rt_rules r) in
      case index_where 0 (\<lambda>existing. control_route_key_of existing = key) (rs_routes candidate) of
        None \<Rightarrow> Some (Returned (Some No_Such_Key) r)
      | Some index \<Rightarrow>
          publish_snapshot_locked qs ops ce (candidate\<lparr>rs_routes := take index (rs_routes candidate) @
            drop (index + 1) (rs_routes candidate)\<rparr>) r)"

end
