(* ===== verification/Dp_Manage.thy ===== *)
theory Dp_Manage
  imports Dp_Control
begin

text \<open>
  What the rule management of the control plane achieves: its validator and the native one agree, what is
  parsed is valid, the rules it holds and the native rules stay in step, and each call changes the
  decisions on packets as it should. A call is a \<open>control_call\<close>, the rule set it asks for is \<open>intended\<close>.
\<close>

section \<open>The two validators\<close>

text \<open>The native rules a control-plane snapshot stands for.\<close>

definition flows_of :: "rule_snapshot \<Rightarrow> dp_flow_rule list" where
  "flows_of s = map flow_of (ns_flows (to_native_rules s))"

definition routes_of :: "rule_snapshot \<Rightarrow> dp_route_rule list" where
  "routes_of s = map route_of (ns_routes (to_native_rules s))"

definition native_flow :: "flow_rule \<Rightarrow> dp_flow_rule" where
  "native_flow r = \<lparr>fr_src_ipv4 = cf_src r, fr_dst_ipv4 = cf_dst r, fr_src_port = cf_sport r,
     fr_dst_port = cf_dport r, fr_l4_proto = cf_proto r, fr_reserved = (0, 0, 0),
     fr_action = action_of (native_action (cf_action r))\<rparr>"

definition native_route :: "route_rule \<Rightarrow> dp_route_rule" where
  "native_route r = \<lparr>rr_prefix = cr_prefix r, rr_depth = cr_depth r, rr_reserved = (0, 0, 0),
     rr_action = action_of (native_action (cr_action r))\<rparr>"

definition native_key :: "control_flow_key \<Rightarrow> dp_flow_key" where
  "native_key k = zero_flow_key\<lparr>fk_src_ipv4 := ck_src k, fk_dst_ipv4 := ck_dst k,
     fk_src_port := ck_sport k, fk_dst_port := ck_dport k, fk_l4_proto := ck_proto k\<rparr>"

definition native_route_key :: "control_route_key \<Rightarrow> u32 \<times> u8" where
  "native_route_key k = (rk_prefix k, rk_depth k)"

lemma flows_of_map: "flows_of s = map native_flow (rs_flows s)" "routes_of s = map native_route (rs_routes s)"
  by (simp_all add: flows_of_def routes_of_def to_native_rules_def native_flow_def native_route_def flow_of_def route_of_def)

lemma native_key_inj: "inj native_key" "inj native_route_key"
  by (auto intro!: injI simp: native_key_def zero_flow_key_def native_route_key_def)

lemma native_flow_key: "flow_rule_key (native_flow r) = native_key (control_flow_key_of r)"
  by (simp add: flow_rule_key_def native_flow_def native_key_def control_flow_key_of_def)

lemma native_route_key_of: "route_key (native_route r) = native_route_key (control_route_key_of r)"
  by (simp add: route_key_def native_route_def native_route_key_def control_route_key_of_def)

lemma clone_rules_id [simp]: "clone_rules s = s"
  by (simp add: clone_rules_def)

lemma validate_action_ok: "validate_rule_action a = None \<longleftrightarrow> action_ok (action_of (native_action a))"
  by (auto simp: validate_rule_action_def action_ok_def action_of_def native_action_def Let_def rewrite_consts
      mask_below_16 [symmetric] action_consts)

lemma flow_ok_go: "flow_rule_ok (native_flow r) \<longleftrightarrow> (cf_proto r = 6 \<or> cf_proto r = 17) \<and> validate_rule_action (cf_action r) = None"
  by (auto simp: flow_rule_ok_def native_flow_def validate_action_ok IPPROTO_TCP_def IPPROTO_UDP_def)

lemma go_mask: "0 < d \<Longrightarrow> d \<le> 32 \<Longrightarrow> push_bit (unat (32 - d)) (NOT 0) = depth_mask d"
  by (simp add: depth_mask_def unat_sub)

lemma route_ok_go: "route_rule_ok (native_route r) \<longleftrightarrow> \<not> (cr_depth r = 0 \<or> cr_depth r > 32) \<and>
    cr_prefix r AND depth_mask (cr_depth r) = cr_prefix r \<and> validate_rule_action (cr_action r) = None"
  using route_depth_ok [of "native_route r"]
  by (auto simp: route_rule_ok_def native_route_def validate_action_ok)

lemma validate_flows_None:
  "validate_flows i keys rules = None \<longleftrightarrow> list_all (\<lambda>r. flow_rule_ok (native_flow r)) rules \<and>
    distinct (map control_flow_key_of rules) \<and> control_flow_key_of ` set rules \<inter> keys = {}"
proof (induction rules arbitrary: i keys)
  case (Cons r rules)
  then show ?case by (auto simp: flow_ok_go Let_def split: option.splits)
qed simp

lemma validate_routes_None:
  "validate_routes i keys rules = None \<longleftrightarrow> list_all (\<lambda>r. route_rule_ok (native_route r)) rules \<and>
    distinct (map control_route_key_of rules) \<and> control_route_key_of ` set rules \<inter> keys = {}"
proof (induction rules arbitrary: i keys)
  case (Cons r rules)
  show ?case
  proof (cases "cr_depth r = 0 \<or> cr_depth r > 32")
    case True
    then show ?thesis by (auto simp: route_ok_go)
  next
    case False
    then have "push_bit (unat (32 - cr_depth r)) (NOT 0) = depth_mask (cr_depth r)"
      by (intro go_mask) (auto simp: word_gt_0)
    with False Cons show ?thesis by (auto simp: route_ok_go Let_def split: option.splits)
  qed
qed simp

lemma keys_distinct:
  "distinct (map (flow_rule_key \<circ> native_flow) rs) = distinct (map control_flow_key_of rs)"
  "distinct (map (route_key \<circ> native_route) rt) = distinct (map control_route_key_of rt)"
  using distinct_map [of native_key "map control_flow_key_of rs"] distinct_map [of native_route_key "map control_route_key_of rt"]
    inj_on_subset [OF native_key_inj(1)] inj_on_subset [OF native_key_inj(2)]
  by (simp_all add: comp_def native_flow_key native_route_key_of)

lemma validate_rules_valid:
  "validate_rules s = None \<longleftrightarrow> length (flows_of s) \<le> DP_MAX_FLOW_RULES \<and> length (routes_of s) \<le> DP_MAX_ROUTE_RULES \<and>
    rules_valid (flows_of s) (routes_of s)"
  using validate_flows_None [of 0 "{}" "rs_flows s"] validate_routes_None [of 0 "{}" "rs_routes s"]
  by (cases "validate_flows 0 {} (rs_flows s)")
    (auto simp: validate_rules_def rules_valid_def flows_of_map keys_distinct list_all_iff)

section \<open>What is parsed is valid\<close>

text \<open>What \<open>net.ParseCIDR\<close> documents: the network is the address masked to the depth.\<close>

definition cidr_law :: "net_ops \<Rightarrow> bool" where
  "cidr_law net \<longleftrightarrow> (\<forall>text c. net_parse_cidr net text = Some c \<and> ci_bits c = 32 \<longrightarrow>
     ci_depth c \<le> 32 \<and> ci_network c AND depth_mask (word_of_nat (ci_depth c)) = ci_network c)"

definition mask_ok :: "u8 \<Rightarrow> bool" where
  "mask_ok m \<longleftrightarrow> m AND NOT 15 = 0"

lemma mask_ok_or: "f \<in> {1, 2, 4, 8} \<Longrightarrow> mask_ok m \<Longrightarrow> mask_ok (m OR f)"
  by (auto simp: mask_ok_def bit.conj_disj_distrib2)

lemma rewrite_ipv4_mask: "rewrite_ipv4 net field err f (v, m) = Inr (v', m') \<Longrightarrow> f \<in> {1, 2, 4, 8} \<Longrightarrow> mask_ok m \<Longrightarrow> mask_ok m'"
  by (auto simp: rewrite_ipv4_def mask_ok_or split: option.splits)

lemma validate_rewrite:
  "ct_type a = DP_ACTION_REWRITE \<Longrightarrow> ct_mask a \<noteq> 0 \<Longrightarrow> mask_ok (ct_mask a) \<Longrightarrow> validate_rule_action a = None"
  by (simp add: validate_rule_action_def mask_ok_def action_consts rewrite_consts)

lemma parse_action_valid:
  assumes "parse_action net doc = Inr a"
  shows "validate_rule_action a = None"
proof (cases "ad_type doc = ''rewrite''")
  case False
  then show ?thesis
    using assms by (auto simp: parse_action_def validate_rule_action_def action_consts Let_def split: if_splits)
next
  case True
  let ?a = "\<lparr>ct_type = DP_ACTION_REWRITE, ct_mask = 0, ct_src = 0, ct_dst = 0, ct_sport = 0, ct_dport = 0\<rparr>"
  from assms True obtain src m dst m' where r:
    "rewrite_ipv4 net (ad_src doc) Bad_Rewrite_Src DP_REWRITE_SRC_IPV4 (0, 0) = Inr (src, m)"
    "rewrite_ipv4 net (ad_dst doc) Bad_Rewrite_Dst DP_REWRITE_DST_IPV4 (0, m) = Inr (dst, m')"
    by (auto simp: parse_action_def action_consts Let_def split: sum.splits)
  have "mask_ok m'"
    using rewrite_ipv4_mask [OF r(2)] rewrite_ipv4_mask [OF r(1)] by (simp add: rewrite_consts mask_ok_def)
  then have "ct_type a = DP_ACTION_REWRITE \<and> ct_mask a \<noteq> 0 \<and> mask_ok (ct_mask a)"
    using assms True r
    by (cases "ad_sport doc"; cases "ad_dport doc")
      (clarsimp simp: parse_action_def action_consts rewrite_consts mask_ok_or Let_def split: if_splits)+
  then show ?thesis by (simp add: validate_rewrite)
qed

lemma parse_protocol_ok: "parse_protocol p = Some n \<Longrightarrow> n = 6 \<or> n = 17"
  by (auto simp: parse_protocol_def split: if_splits)

text \<open>The loops keep the slice valid and its keys those seen.\<close>

lemma normalize_flows_valid:
  assumes "normalize_flows net i (control_flow_key_of ` set acc) acc items = Inr flows"
    and "list_all (\<lambda>r. flow_rule_ok (native_flow r)) acc" and "distinct (map control_flow_key_of acc)"
  shows "list_all (\<lambda>r. flow_rule_ok (native_flow r)) flows \<and> distinct (map control_flow_key_of flows) \<and>
    length flows = length acc + length items"
  using assms
proof (induction items arbitrary: i acc)
  case (Cons item items)
  then obtain src dst protocol action where p: "net_parse_ip4 net (fd_src item) = Some src"
    "net_parse_ip4 net (fd_dst item) = Some dst" "parse_protocol (fd_protocol item) = Some protocol"
    "parse_action net (fd_action item) = Inr action"
    by (auto split: option.splits sum.splits)
  define r where "r = \<lparr>cf_src = src, cf_dst = dst, cf_sport = fd_sport item, cf_dport = fd_dport item,
           cf_proto = protocol, cf_action = action\<rparr>"
  have key: "\<lparr>ck_src = src, ck_dst = dst, ck_sport = fd_sport item, ck_dport = fd_dport item, ck_proto = protocol\<rparr> =
      control_flow_key_of r" by (simp add: r_def control_flow_key_of_def)
  have new: "control_flow_key_of r \<notin> control_flow_key_of ` set acc"
    "normalize_flows net (i + 1) (control_flow_key_of ` set (acc @ [r])) (acc @ [r]) items = Inr flows"
    using Cons.prems(1) p by (auto simp: Let_def key r_def [symmetric] split: if_splits)
  have "flow_rule_ok (native_flow r)"
    using parse_protocol_ok [OF p(3)] parse_action_valid [OF p(4)] by (simp add: flow_ok_go r_def)
  with Cons.IH [OF new(2)] Cons.prems(2,3) new(1) show ?case by auto
qed simp

lemma normalize_routes_valid:
  assumes "cidr_law net"
    and "normalize_routes net i ((\<lambda>r. (cr_prefix r, unat (cr_depth r))) ` set acc) acc items = Inr routes"
    and "list_all (\<lambda>r. route_rule_ok (native_route r)) acc" and "distinct (map control_route_key_of acc)"
  shows "list_all (\<lambda>r. route_rule_ok (native_route r)) routes \<and> distinct (map control_route_key_of routes) \<and>
    length routes = length acc + length items"
  using assms(2-)
proof (induction items arbitrary: i acc)
  case (Cons item items)
  then obtain c action where p: "net_parse_cidr net (rd_prefix item) = Some c" "ci_bits c = 32" "ci_depth c \<noteq> 0"
    "parse_action net (rd_action item) = Inr action"
    by (auto split: option.splits sum.splits if_splits)
  define r where "r = \<lparr>cr_prefix = ci_network c, cr_depth = word_of_nat (ci_depth c), cr_action = action\<rparr>"
  have c: "ci_depth c \<le> 32" "ci_network c AND depth_mask (word_of_nat (ci_depth c)) = ci_network c"
    using assms(1) p(1,2) by (auto simp: cidr_law_def)
  then have d: "unat (word_of_nat (ci_depth c) :: u8) = ci_depth c" by (simp add: unat_of_nat)
  have new: "(ci_network c, ci_depth c) \<notin> (\<lambda>r. (cr_prefix r, unat (cr_depth r))) ` set acc"
    "normalize_routes net (i + 1) ((\<lambda>r. (cr_prefix r, unat (cr_depth r))) ` set (acc @ [r])) (acc @ [r]) items = Inr routes"
    using Cons.prems(1) p d by (auto simp: Let_def r_def split: if_splits)
  have fresh: "control_route_key_of r \<notin> control_route_key_of ` set acc"
    using new(1) d by (auto simp: control_route_key_of_def r_def)
  have "route_rule_ok (native_route r)"
    unfolding route_ok_go using parse_action_valid [OF p(4)] c p(3) d
    by (simp add: r_def word_less_nat_alt word_unat_eq_iff)
  with Cons.IH [OF new(2)] Cons.prems(2,3) fresh show ?case by auto
qed simp

lemma normalize_rules_valid:
  assumes "cidr_law net" "normalize_rules net doc = Inr s"
  shows "validate_rules s = None \<and> length (rs_flows s) = length (doc_flows doc) \<and>
    length (rs_routes s) = length (doc_routes doc)"
proof -
  obtain flows routes where r: "normalize_flows net 0 (control_flow_key_of ` set []) [] (doc_flows doc) = Inr flows"
    "normalize_routes net 0 ((\<lambda>r. (cr_prefix r, unat (cr_depth r))) ` set ([] :: route_rule list)) [] (doc_routes doc) = Inr routes"
    "s = \<lparr>rs_flows = flows, rs_routes = routes\<rparr>" "length (doc_flows doc) \<le> DP_MAX_FLOW_RULES"
    "length (doc_routes doc) \<le> DP_MAX_ROUTE_RULES"
    using assms(2) by (auto simp: normalize_rules_def split: if_splits sum.splits)
  from normalize_flows_valid [OF r(1)] normalize_routes_valid [OF assms(1) r(2)] r(3-5) show ?thesis
    by (auto simp: validate_rules_valid rules_valid_def flows_of_map keys_distinct list_all_iff)
qed


section \<open>Publication from the control plane\<close>

text \<open>The argument pair the binding makes of a slice.\<close>

definition arg_of :: "'a list \<Rightarrow> 'a list option" where
  "arg_of xs = (if xs = [] then None else Some xs)"

lemma arg_pair:
  assumes "length xs \<le> 1024"
  shows "array_arg (arg_of xs) (word_of_nat (length xs))" "rules_of (arg_of xs) (word_of_nat (length xs)) = xs"
    "unat (word_of_nat (length xs) :: u32) = length xs" "(word_of_nat (length xs) :: u32) = 0 \<longleftrightarrow> arg_of xs = None"
proof -
  show n: "unat (word_of_nat (length xs) :: u32) = length xs" using assms by (simp add: unat_of_nat)
  show "array_arg (arg_of xs) (word_of_nat (length xs))" using n by (auto simp: array_arg_def arg_of_def)
  show "rules_of (arg_of xs) (word_of_nat (length xs)) = xs" using n by (simp add: rules_of_def arg_of_def)
  show "(word_of_nat (length xs) :: u32) = 0 \<longleftrightarrow> arg_of xs = None" using n by (auto simp: word_unat_eq_iff arg_of_def)
qed

definition fits :: "rule_snapshot \<Rightarrow> bool" where
  "fits s \<longleftrightarrow> length (rs_flows s) \<le> DP_MAX_FLOW_RULES \<and> length (rs_routes s) \<le> DP_MAX_ROUTE_RULES"

lemma lengths_of [simp]: "length (flows_of s) = length (rs_flows s)" "length (routes_of s) = length (rs_routes s)"
  "length (ns_flows (to_native_rules s)) = length (rs_flows s)" "length (ns_routes (to_native_rules s)) = length (rs_routes s)"
  by (simp_all add: flows_of_map to_native_rules_def)

lemma arrays_cases:
  "(\<exists>e live. new_rule_arrays a b (ns_flows (to_native_rules s)) (ns_routes (to_native_rules s)) = Some (Inl e, live) \<and>
      (\<not> fits s \<or> \<not> a \<or> \<not> b)) \<or>
   (\<exists>live. new_rule_arrays a b (ns_flows (to_native_rules s)) (ns_routes (to_native_rules s)) =
      Some (Inr \<lparr>ar_flows = arg_of (flows_of s), ar_routes = arg_of (routes_of s)\<rparr>, live) \<and> fits s \<and>
      release_arrays \<lparr>ar_flows = arg_of (flows_of s), ar_routes = arg_of (routes_of s)\<rparr> live = Some [])"
proof -
  let ?fl = "ns_flows (to_native_rules s)" and ?rt = "ns_routes (to_native_rules s)"
  obtain res live where r: "new_rule_arrays a b ?fl ?rt = Some (res, live)"
    and c: "case res of
        Inl e \<Rightarrow> live = [] \<and> (length ?fl > DP_MAX_FLOW_RULES \<or> length ?rt > DP_MAX_ROUTE_RULES \<or>
           ?fl \<noteq> [] \<and> \<not> a \<or> ?rt \<noteq> [] \<and> \<not> b)
      | Inr arrays \<Rightarrow> length ?fl \<le> DP_MAX_FLOW_RULES \<and> length ?rt \<le> DP_MAX_ROUTE_RULES \<and>
          ar_flows arrays = (if ?fl = [] then None else Some (map flow_of ?fl)) \<and>
          ar_routes arrays = (if ?rt = [] then None else Some (map route_of ?rt)) \<and> release_arrays arrays live = Some []"
    using new_rule_arrays_cases [of a b ?fl ?rt] by blast
  show ?thesis
  proof (cases res)
    case (Inl e)
    with r c show ?thesis by (intro disjI1) (auto simp: fits_def)
  next
    case (Inr arrays)
    with c have "arrays = \<lparr>ar_flows = arg_of (flows_of s), ar_routes = arg_of (routes_of s)\<rparr>"
      by (simp add: flows_of_def routes_of_def arg_of_def)
    with r c Inr show ?thesis by (intro disjI2) (auto simp: fits_def)
  qed
qed

text \<open>What a publication may do to the native state.\<close>

definition publish_result ::
  "('h, 'l) table_view \<Rightarrow> rule_snapshot \<Rightarrow> ('h, 'l, 'q) dp_state \<Rightarrow>
   (u64 \<times> native_error option, ('h, 'l, 'q) dp_state) publish_outcome \<Rightarrow> bool" where
  "publish_result tv s st out \<longleftrightarrow> (case out of
     Returned (g, e) st' \<Rightarrow> rules_inv tv st' \<and>
       (if e = None then validate_rules s = None \<and> g = st_rules_generation (g_stats st) + 1 \<and>
          st_rules_generation (g_stats st') = st_rules_generation (g_stats st) + 1 \<and>
          (\<exists>x. g_active_rules st' = Some x \<and> snapshot_repr tv (flows_of s) (routes_of s) x)
        else g = 0 \<and> st_rules_generation (g_stats st') = st_rules_generation (g_stats st) \<and>
          g_active_rules st' = g_active_rules st)
   | Still_Waiting st' \<Rightarrow> g_writer_lock st' \<and>
       (\<exists>x. g_active_rules st' = Some x \<and> snapshot_repr tv (flows_of s) (routes_of s) x))"

context rte_table_laws
begin

lemma native_publish_result:
  assumes inv: "rules_inv tv st"
  shows "\<exists>out. native_publish_rules qs ops ce (to_native_rules s) st = Some out \<and> publish_result tv s st out"
proof (cases rule: disjE [OF arrays_cases [of "ce_flows_ok ce" "ce_routes_ok ce" s]])
  case 1
  then show ?thesis using inv by (auto simp: native_publish_rules_def publish_result_def)
next
  case 2
  then obtain live where l: "new_rule_arrays (ce_flows_ok ce) (ce_routes_ok ce) (ns_flows (to_native_rules s)) (ns_routes (to_native_rules s)) =
      Some (Inr \<lparr>ar_flows = arg_of (flows_of s), ar_routes = arg_of (routes_of s)\<rparr>, live)" "fits s"
      "release_arrays \<lparr>ar_flows = arg_of (flows_of s), ar_routes = arg_of (routes_of s)\<rparr> live = Some []" by blast
  have len: "length (flows_of s) \<le> 1024" "length (routes_of s) \<le> 1024"
    using l(2) by (simp_all add: fits_def DP_MAX_FLOW_RULES_def DP_MAX_ROUTE_RULES_def)
  note fl = arg_pair [OF len(1)] and rt = arg_pair [OF len(2)]
  obtain out where out: "dp_publish_rules qs ops (ce_time ce) (ce_reports ce) (arg_of (flows_of s)) (word_of_nat (length (flows_of s)))
      (arg_of (routes_of s)) (word_of_nat (length (routes_of s))) (Some 0) st = Some out"
    and c: "case out of
       Returned (ret, g) st' \<Rightarrow> rules_inv tv st' \<and>
         (if ret = 0 then
            g = Some (st_rules_generation (g_stats st) + 1) \<and>
            st_rules_generation (g_stats st') = st_rules_generation (g_stats st) + 1 \<and>
            st_rules_publish_success (g_stats st') = st_rules_publish_success (g_stats st) + 1 \<and>
            st_rules_publish_failed (g_stats st') = st_rules_publish_failed (g_stats st) \<and>
            st_rules_reclaimed (g_stats st') = st_rules_reclaimed (g_stats st) + 1 \<and>
            args_ok (arg_of (flows_of s)) (word_of_nat (length (flows_of s))) (arg_of (routes_of s)) (word_of_nat (length (routes_of s))) \<and>
            (\<exists>x. g_active_rules st' = Some x \<and> snapshot_repr tv (flows_of s) (routes_of s) x)
          else ret < 0 \<and> g = Some 0 \<and> (\<exists>f. st' = on_stats f st \<and> (f = (\<lambda>x. x) \<and> ret = - ENODEV \<or> f = count_failed)))
     | Still_Waiting st' \<Rightarrow> g_writer_lock st' \<and>
         (\<exists>old x. g_active_rules st = Some old \<and> g_active_rules st' = Some x \<and>
            snapshot_repr tv (flows_of s) (routes_of s) x \<and> snapshot_objs old \<subseteq># g_live st')"
    using publish_outcome [OF inv fl(1) rt(1), of "Some 0" qs "ce_time ce" "ce_reports ce", unfolded fl(2) rt(2)] by blast
  have valid: "validate_rules s = None" if "snapshot_repr tv (flows_of s) (routes_of s) x" for x
    using that l(2) by (simp add: validate_rules_valid fits_def snapshot_repr_def)
  show ?thesis
  proof (cases out)
    case (Still_Waiting st')
    then show ?thesis using l out c by (auto simp: native_publish_rules_def publish_result_def)
  next
    case (Returned rg st')
    obtain ret g where rg: "rg = (ret, g)" by fastforce
    show ?thesis
      using l out c Returned rg
      by (cases "ret = 0") (auto intro: valid simp: native_publish_rules_def publish_result_def native_status_def count_failed_def)
  qed
qed

end

section \<open>The Go rules and the native rules stay in step\<close>

text \<open>
  While publication is open the native side uses exactly the rules the runtime holds, under the
  generation the runtime holds.
\<close>

definition in_step :: "('h, 'l) table_view \<Rightarrow> ('h, 'l, 'q) runtime \<Rightarrow> bool" where
  "in_step tv r \<longleftrightarrow> rules_inv tv (rt_native r) \<and> (rt_open r \<longrightarrow>
     validate_rules (rt_rules r) = None \<and> rt_generation r = st_rules_generation (g_stats (rt_native r)) \<and>
     (\<exists>x. g_active_rules (rt_native r) = Some x \<and>
        snapshot_repr tv (flows_of (rt_rules r)) (routes_of (rt_rules r)) x))"

datatype control_call =
    Replace_Rules rule_snapshot
  | Add_Flow flow_rule
  | Delete_Flow control_flow_key
  | Add_Route route_rule
  | Delete_Route control_route_key

fun perform ::
  "'q qsbr_ops \<Rightarrow> ('h, 'l) rte_table_ops \<Rightarrow> call_env \<Rightarrow> control_call \<Rightarrow> ('h, 'l, 'q) runtime \<Rightarrow>
   (control_error option, ('h, 'l, 'q) runtime) publish_outcome option" where
  "perform qs ops ce (Replace_Rules s) r = replace_rules qs ops ce s r"
| "perform qs ops ce (Add_Flow f) r = add_flow qs ops ce f r"
| "perform qs ops ce (Delete_Flow k) r = delete_flow qs ops ce k r"
| "perform qs ops ce (Add_Route f) r = add_route qs ops ce f r"
| "perform qs ops ce (Delete_Route k) r = delete_route qs ops ce k r"

text \<open>The rule set each call asks for; \<open>None\<close> where it must be refused.\<close>

definition if_valid :: "rule_snapshot \<Rightarrow> rule_snapshot option" where
  "if_valid s = (if validate_rules s = None then Some s else None)"

fun intended :: "control_call \<Rightarrow> rule_snapshot \<Rightarrow> rule_snapshot option" where
  "intended (Replace_Rules new) s = if_valid new"
| "intended (Add_Flow f) s = if_valid (s\<lparr>rs_flows := rs_flows s @ [f]\<rparr>)"
| "intended (Delete_Flow k) s = (if k \<in> control_flow_key_of ` set (rs_flows s)
     then Some (s\<lparr>rs_flows := filter (\<lambda>f. control_flow_key_of f \<noteq> k) (rs_flows s)\<rparr>) else None)"
| "intended (Add_Route f) s = if_valid (s\<lparr>rs_routes := rs_routes s @ [f]\<rparr>)"
| "intended (Delete_Route k) s = (if k \<in> control_route_key_of ` set (rs_routes s)
     then Some (s\<lparr>rs_routes := filter (\<lambda>f. control_route_key_of f \<noteq> k) (rs_routes s)\<rparr>) else None)"

definition control_result ::
  "('h, 'l) table_view \<Rightarrow> rule_snapshot option \<Rightarrow> ('h, 'l, 'q) runtime \<Rightarrow>
   (control_error option, ('h, 'l, 'q) runtime) publish_outcome \<Rightarrow> bool" where
  "control_result tv s r out \<longleftrightarrow> (case out of
     Returned err r' \<Rightarrow> in_step tv r' \<and> rt_open r' = rt_open r \<and>
       (if err = None then s = Some (rt_rules r') \<and> rt_generation r' = rt_generation r + 1
        else rt_rules r' = rt_rules r \<and> rt_generation r' = rt_generation r \<and>
          g_active_rules (rt_native r') = g_active_rules (rt_native r))
   | Still_Waiting r' \<Rightarrow> rt_open r \<and> rt_rules r' = rt_rules r \<and> rt_generation r' = rt_generation r \<and>
       (\<exists>s' x. s = Some s' \<and> g_active_rules (rt_native r') = Some x \<and>
          snapshot_repr tv (flows_of s') (routes_of s') x))"

lemma refused [simp]: "in_step tv r \<Longrightarrow> control_result tv s r (Returned (Some e) r)"
  by (simp add: control_result_def)

lemma index_where_found:
  "index_where i p xs = (if \<exists>x \<in> set xs. p x then Some (i + length (takeWhile (\<lambda>x. \<not> p x) xs)) else None)"
  by (induction xs arbitrary: i) auto

lemma remove_at_filter:
  assumes "distinct (map f xs)" "k \<in> f ` set xs"
  shows "take (length (takeWhile (\<lambda>x. f x \<noteq> k) xs)) xs @ drop (Suc (length (takeWhile (\<lambda>x. f x \<noteq> k) xs))) xs =
    filter (\<lambda>x. f x \<noteq> k) xs"
  using assms
proof (induction xs)
  case (Cons x xs)
  show ?case
  proof (cases "f x = k")
    case True
    then have "filter (\<lambda>x. f x \<noteq> k) xs = xs" using Cons.prems(1) by (intro filter_True) (force simp: image_iff)
    with True show ?thesis by simp
  next
    case False
    with Cons show ?thesis by auto
  qed
qed simp

context rte_table_laws
begin

lemma publish_locked_result:
  assumes "in_step tv r"
  shows "\<exists>out. publish_snapshot_locked qs ops ce s r = Some out \<and> control_result tv (Some s) r out"
proof (cases "rt_open r")
  case False
  then show ?thesis using assms by (simp add: publish_snapshot_locked_def)
next
  case True
  have inv: "rules_inv tv (rt_native r)" "validate_rules (rt_rules r) = None \<and>
      rt_generation r = st_rules_generation (g_stats (rt_native r))"
    "\<exists>x. g_active_rules (rt_native r) = Some x \<and> snapshot_repr tv (flows_of (rt_rules r)) (routes_of (rt_rules r)) x"
    using assms True by (simp_all add: in_step_def)
  obtain out where out: "native_publish_rules qs ops ce (to_native_rules s) (rt_native r) = Some out"
    "publish_result tv s (rt_native r) out" using native_publish_result [OF inv(1)] by blast
  show ?thesis
  proof (cases out)
    case (Still_Waiting st')
    with True out show ?thesis
      by (auto simp: publish_snapshot_locked_def publish_result_def control_result_def)
  next
    case (Returned ge st')
    obtain g e where ge: "ge = (g, e)" by fastforce
    from True out Returned ge inv(2,3) show ?thesis
      by (cases e) (auto simp: publish_snapshot_locked_def publish_result_def control_result_def in_step_def)
  qed
qed

lemma perform_result:
  assumes "in_step tv r"
  shows "\<exists>out. perform qs ops ce call r = Some out \<and> control_result tv (intended call (rt_rules r)) r out"
proof -
  have checked: "\<exists>out. (case validate_rules s of Some e \<Rightarrow> Some (Returned (Some (Invalid_Rules e)) r)
      | None \<Rightarrow> publish_snapshot_locked qs ops ce s r) = Some out \<and> control_result tv (if_valid s) r out" for s
    using publish_locked_result [OF assms, of qs ce s] assms by (simp add: if_valid_def split: option.split)
  have keys: "distinct (map control_flow_key_of (rs_flows (rt_rules r)))" "distinct (map control_route_key_of (rs_routes (rt_rules r)))"
    if "rt_open r"
    using assms that by (auto simp: in_step_def snapshot_repr_def rules_valid_def flows_of_map keys_distinct)
  show ?thesis
  proof (cases call)
    case (Replace_Rules s)
    then show ?thesis using checked [of s] by (simp add: replace_rules_def)
  next
    case (Add_Flow f)
    let ?s = "rt_rules r\<lparr>rs_flows := rs_flows (rt_rules r) @ [f]\<rparr>"
    show ?thesis using checked [of ?s] assms Add_Flow by (auto simp: add_flow_def Let_def)
  next
    case (Add_Route f)
    let ?s = "rt_rules r\<lparr>rs_routes := rs_routes (rt_rules r) @ [f]\<rparr>"
    show ?thesis using checked [of ?s] assms Add_Route by (auto simp: add_route_def Let_def)
  next
    case (Delete_Flow k)
    show ?thesis
    proof (cases "rt_open r \<and> k \<in> control_flow_key_of ` set (rs_flows (rt_rules r))")
      case True
      then show ?thesis
        using publish_locked_result [OF assms, of qs ce "rt_rules r\<lparr>rs_flows := filter (\<lambda>f. control_flow_key_of f \<noteq> k) (rs_flows (rt_rules r))\<rparr>"]
          remove_at_filter [OF keys(1)] Delete_Flow
        by (auto simp: delete_flow_def index_where_found Let_def)
    next
      case False
      then show ?thesis using assms Delete_Flow
        by (auto simp: delete_flow_def Let_def index_where_found publish_snapshot_locked_def)
    qed
  next
    case (Delete_Route k)
    show ?thesis
    proof (cases "rt_open r \<and> k \<in> control_route_key_of ` set (rs_routes (rt_rules r))")
      case True
      then show ?thesis
        using publish_locked_result [OF assms, of qs ce "rt_rules r\<lparr>rs_routes := filter (\<lambda>f. control_route_key_of f \<noteq> k) (rs_routes (rt_rules r))\<rparr>"]
          remove_at_filter [OF keys(2)] Delete_Route
        by (auto simp: delete_route_def index_where_found Let_def)
    next
      case False
      then show ?thesis using assms Delete_Route
        by (auto simp: delete_route_def Let_def index_where_found publish_snapshot_locked_def)
    qed
  qed
qed

end

section \<open>Sequences of calls\<close>

text \<open>
  Calls one after the other, as \<open>rulesMu\<close> orders them. Between them the workers and the other native
  operations may move, as long as they leave the rules alone.
\<close>

definition rules_kept :: "('h, 'l, 'q) dp_state \<Rightarrow> ('h, 'l, 'q) dp_state \<Rightarrow> bool" where
  "rules_kept st st' \<longleftrightarrow> g_writer_lock st' = g_writer_lock st \<and> g_writer_active st' = g_writer_active st \<and>
     g_active_rules st' = g_active_rules st \<and> g_live st' = g_live st \<and> g_rules_configured st' = g_rules_configured st \<and>
     (g_rules_qsbr st' = None \<longleftrightarrow> g_rules_qsbr st = None) \<and>
     st_rules_generation (g_stats st') = st_rules_generation (g_stats st)"

inductive control_run ::
  "'q qsbr_ops \<Rightarrow> ('h, 'l) rte_table_ops \<Rightarrow> ('h, 'l, 'q) runtime \<Rightarrow> (control_call \<times> control_error option) list \<Rightarrow>
   ('h, 'l, 'q) runtime \<Rightarrow> bool"
  for qs ops where
  control_nil: "control_run qs ops r [] r"
| control_call: "perform qs ops ce call r = Some (Returned err r1) \<Longrightarrow> control_run qs ops r1 hist r' \<Longrightarrow>
    control_run qs ops r ((call, err) # hist) r'"
| control_others: "rules_kept (rt_native r) st \<Longrightarrow> control_run qs ops (r\<lparr>rt_native := st\<rparr>) hist r' \<Longrightarrow>
    control_run qs ops r hist r'"

fun after_calls :: "(control_call \<times> control_error option) list \<Rightarrow> rule_snapshot \<Rightarrow> rule_snapshot" where
  "after_calls [] s = s"
| "after_calls ((call, err) # hist) s =
     after_calls hist (if err = None then (case intended call s of Some s' \<Rightarrow> s' | None \<Rightarrow> s) else s)"

lemma in_step_kept:
  assumes "in_step tv r" "rules_kept (rt_native r) st"
  shows "in_step tv (r\<lparr>rt_native := st\<rparr>)"
proof -
  have "rule_objs st = rule_objs (rt_native r)"
    using assms(2) by (auto simp: rule_objs_def rules_kept_def split: option.splits)
  then show ?thesis using assms by (simp add: in_step_def rules_inv_def rules_kept_def)
qed

text \<open>What the native side decides on a packet.\<close>

definition native_decision ::
  "('h, 'l) rte_table_ops \<Rightarrow> ('h, 'l, 'q) dp_state \<Rightarrow> dp_packet_meta \<Rightarrow> dp_lookup_result \<times> dp_rule_action option" where
  "native_decision ops st meta = (case dp_rules_active_load st of
     None \<Rightarrow> (DP_LOOKUP_MISS, None)
   | Some s \<Rightarrow> (case dp_lookup_packet ops meta (Some s) of (r, p) \<Rightarrow> (r, pointed_action s p)))"

context rte_table_laws
begin

lemma decision_is_policy:
  assumes "in_step tv r" "rt_open r"
  shows "native_decision ops (rt_native r) meta = policy (flows_of (rt_rules r)) (routes_of (rt_rules r)) meta"
proof -
  obtain x where "g_active_rules (rt_native r) = Some x" "snapshot_repr tv (flows_of (rt_rules r)) (routes_of (rt_rules r)) x"
    using assms by (auto simp: in_step_def)
  then show ?thesis using lookup_is_policy by (simp add: native_decision_def dp_rules_active_load_def)
qed

lemma control_run_result:
  "control_run qs ops r hist r' \<Longrightarrow> in_step tv r \<Longrightarrow>
     in_step tv r' \<and> rt_open r' = rt_open r \<and> rt_rules r' = after_calls hist (rt_rules r) \<and>
     rt_generation r' = rt_generation r + word_of_nat (length (filter (\<lambda>c. snd c = None) hist))"
proof (induction rule: control_run.induct)
  case (control_call ce call r err r1 hist r')
  have "control_result tv (intended call (rt_rules r)) r (Returned err r1)"
    using perform_result [OF control_call.prems, of qs ce call] control_call.hyps(1) by simp
  then have c: "in_step tv r1" "rt_open r1 = rt_open r"
    "if err = None then intended call (rt_rules r) = Some (rt_rules r1) \<and> rt_generation r1 = rt_generation r + 1
     else rt_rules r1 = rt_rules r \<and> rt_generation r1 = rt_generation r"
    by (simp_all add: control_result_def split: if_splits)
  from control_call.IH [OF c(1)] c(2,3) show ?case by (cases err) simp_all
next
  case (control_others r st hist r')
  then show ?case using in_step_kept by fastforce
qed simp

end

section \<open>The effect of each call on the decisions\<close>

lemma find_append: "find p (xs @ ys) = (case find p xs of None \<Rightarrow> find p ys | Some x \<Rightarrow> Some x)"
  by (induction xs) simp_all

lemma find_filter: "find p (filter q xs) = find (\<lambda>x. q x \<and> p x) xs"
  by (induction xs) simp_all

definition route_actions :: "rule_snapshot \<Rightarrow> u32 \<times> u8 \<Rightarrow> dp_rule_action option" where
  "route_actions s = map_of (map (\<lambda>r. (route_key r, rr_action r)) (routes_of s))"

definition route_decision :: "rule_snapshot \<Rightarrow> u32 \<Rightarrow> dp_lookup_result \<times> dp_rule_action option" where
  "route_decision s ip = (case longest_match (route_actions s) ip of
     Some a \<Rightarrow> (DP_LOOKUP_ROUTE_HIT, Some a) | None \<Rightarrow> (DP_LOOKUP_MISS, None))"

definition flow_action :: "rule_snapshot \<Rightarrow> dp_flow_key \<Rightarrow> dp_rule_action option" where
  "flow_action s k = map_option fr_action (find (\<lambda>r. flow_rule_key r = k) (flows_of s))"

lemma policy_parts:
  "policy (flows_of s) (routes_of s) meta = (case flow_action s (dp_flow_key_from_meta meta) of
     Some a \<Rightarrow> (DP_LOOKUP_FLOW_HIT, Some a) | None \<Rightarrow> route_decision s (pm_dst_ipv4 meta))"
  by (simp add: policy_def flow_action_def route_decision_def route_actions_def split: option.splits)

lemma flow_action_append:
  assumes "control_flow_key_of f \<notin> control_flow_key_of ` set (rs_flows s)"
  shows "flow_action (s\<lparr>rs_flows := rs_flows s @ [f]\<rparr>) =
    (flow_action s)(native_key (control_flow_key_of f) \<mapsto> action_of (native_action (cf_action f)))"
proof
  fix k
  have "find (\<lambda>r. flow_rule_key r = native_key (control_flow_key_of f)) (flows_of s) = None"
    using assms inj_eq [OF native_key_inj(1)] by (auto simp: find_None_iff flows_of_map native_flow_key image_iff)
  then show "flow_action (s\<lparr>rs_flows := rs_flows s @ [f]\<rparr>) k =
    ((flow_action s)(native_key (control_flow_key_of f) \<mapsto> action_of (native_action (cf_action f)))) k"
    by (auto simp: flow_action_def flows_of_map find_append native_flow_key split: option.splits)
      (simp_all add: native_flow_def)
qed

lemma flow_action_filter:
  "flow_action (s\<lparr>rs_flows := filter (\<lambda>f. control_flow_key_of f \<noteq> k) (rs_flows s)\<rparr>) = (flow_action s)(native_key k := None)"
proof
  fix k'
  have "find (\<lambda>r. flow_rule_key r = k') (map native_flow (filter (\<lambda>f. control_flow_key_of f \<noteq> k) xs)) =
    (if k' = native_key k then None else find (\<lambda>r. flow_rule_key r = k') (map native_flow xs))" for xs
    using inj_eq [OF native_key_inj(1)] by (induction xs) (auto simp: native_flow_key)
  then show "flow_action (s\<lparr>rs_flows := filter (\<lambda>f. control_flow_key_of f \<noteq> k) (rs_flows s)\<rparr>) k' =
    ((flow_action s)(native_key k := None)) k'"
    by (simp add: flow_action_def flows_of_map)
qed

lemma route_actions_append:
  assumes "control_route_key_of f \<notin> control_route_key_of ` set (rs_routes s)"
  shows "route_actions (s\<lparr>rs_routes := rs_routes s @ [f]\<rparr>) =
    (route_actions s)(native_route_key (control_route_key_of f) \<mapsto> action_of (native_action (cr_action f)))"
proof
  fix k
  have "route_actions s (native_route_key (control_route_key_of f)) = None"
    using assms inj_eq [OF native_key_inj(2)]
    by (auto simp: route_actions_def map_of_eq_None_iff flows_of_map native_route_key_of)
  then show "route_actions (s\<lparr>rs_routes := rs_routes s @ [f]\<rparr>) k =
    ((route_actions s)(native_route_key (control_route_key_of f) \<mapsto> action_of (native_action (cr_action f)))) k"
    by (auto simp: route_actions_def flows_of_map map_add_def native_route_key_of split: option.splits)
      (simp_all add: native_route_def)
qed

lemma route_actions_filter:
  "route_actions (s\<lparr>rs_routes := filter (\<lambda>f. control_route_key_of f \<noteq> k) (rs_routes s)\<rparr>) =
    (route_actions s)(native_route_key k := None)"
proof
  fix k'
  have "map_of (map (\<lambda>r. (route_key r, rr_action r)) (map native_route (filter (\<lambda>f. control_route_key_of f \<noteq> k) xs))) k' =
    (if k' = native_route_key k then None else map_of (map (\<lambda>r. (route_key r, rr_action r)) (map native_route xs)) k')" for xs
    using inj_eq [OF native_key_inj(2)] by (induction xs) (auto simp: native_route_key_of)
  then show "route_actions (s\<lparr>rs_routes := filter (\<lambda>f. control_route_key_of f \<noteq> k) (rs_routes s)\<rparr>) k' =
    ((route_actions s)(native_route_key k := None)) k'"
    by (simp add: route_actions_def flows_of_map comp_def)
qed

lemma other_part_unchanged [simp]:
  "flow_action (s\<lparr>rs_routes := x\<rparr>) = flow_action s" "route_actions (s\<lparr>rs_flows := y\<rparr>) = route_actions s"
  "route_decision (s\<lparr>rs_flows := y\<rparr>) = route_decision s"
  by (simp_all add: flow_action_def route_actions_def route_decision_def flows_of_map fun_eq_iff)

lemma match_from_update:
  "n < 256 \<Longrightarrow> match_from n (rules((p, d) := x)) ip =
     (if 1 \<le> unat d \<and> unat d \<le> n \<and> prefix_matches p d ip \<and>
         (\<forall>d'. unat d < unat d' \<and> unat d' \<le> n \<longrightarrow> rules (ip AND depth_mask d', d') = None)
      then (case x of Some a \<Rightarrow> Some a | None \<Rightarrow> match_from (unat d - 1) rules ip) else match_from n rules ip)"
proof (induction n)
  case (Suc n)
  define w where "w = (word_of_nat (Suc n) :: u8)"
  have w: "unat w = Suc n" using Suc.prems by (simp add: w_def unat_of_nat del: of_nat_Suc)
  have upto: "unat d' \<le> Suc n \<longleftrightarrow> unat d' \<le> n \<or> d' = w" for d' :: u8
    using w by (auto simp: word_unat_eq_iff)
  have step: "match_from (Suc n) f ip = (case f (ip AND depth_mask w, w) of Some v \<Rightarrow> Some v | None \<Rightarrow> match_from n f ip)" for f :: "u32 \<times> u8 \<Rightarrow> 'a option"
    by (simp add: w_def del: of_nat_Suc)
  define g where "g = rules((p, d) := x)"
  have g: "g (ip AND depth_mask w, w) = (if d = w \<and> prefix_matches p d ip then x else rules (ip AND depth_mask w, w))"
    by (auto simp: g_def prefix_matches_def)
  note IH = Suc.IH [folded g_def]
  show ?case
  proof (cases "d = w")
    case True
    then have "match_from n g ip = match_from n rules ip" using IH Suc.prems w by simp
    then show ?thesis
      unfolding g_def [symmetric] step g using True w by (auto split: option.splits)
  next
    case False
    then have "unat d \<noteq> Suc n" using w by (auto simp: word_unat_eq_iff)
    moreover have "(\<forall>d'. unat d < unat d' \<and> unat d' \<le> Suc n \<longrightarrow> rules (ip AND depth_mask d', d') = None) \<longleftrightarrow>
        (\<forall>d'. unat d < unat d' \<and> unat d' \<le> n \<longrightarrow> rules (ip AND depth_mask d', d') = None) \<and>
        (unat d < Suc n \<longrightarrow> rules (ip AND depth_mask w, w) = None)"
      using w by (auto simp: upto)
    ultimately show ?thesis
      unfolding g_def [symmetric] step g using IH Suc.prems False by (auto split: option.splits)
  qed
qed auto

lemma longest_match_update:
  "longest_match (rules((p, d) := x)) ip =
     (if 1 \<le> unat d \<and> unat d \<le> 32 \<and> prefix_matches p d ip \<and>
         (\<forall>d'. unat d < unat d' \<and> unat d' \<le> 32 \<longrightarrow> rules (ip AND depth_mask d', d') = None)
      then (case x of Some a \<Rightarrow> Some a | None \<Rightarrow> match_from (unat d - 1) rules ip) else longest_match rules ip)"
  unfolding longest_match_def by (rule match_from_update) simp

text \<open>A route of the rules that covers an address more closely than depth \<open>d\<close>.\<close>

definition covered_deeper :: "rule_snapshot \<Rightarrow> u8 \<Rightarrow> u32 \<Rightarrow> bool" where
  "covered_deeper s d ip \<longleftrightarrow> (\<exists>r \<in> set (rs_routes s). prefix_matches (cr_prefix r) (cr_depth r) ip \<and> d < cr_depth r)"

lemma covered_deeper_actions:
  assumes "list_all (\<lambda>r. route_rule_ok (native_route r)) (rs_routes s)"
  shows "covered_deeper s d ip \<longleftrightarrow>
    \<not> (\<forall>d'. unat d < unat d' \<and> unat d' \<le> 32 \<longrightarrow> route_actions s (ip AND depth_mask d', d') = None)"
proof -
  have ok: "unat (cr_depth r) \<le> 32" if "r \<in> set (rs_routes s)" for r
    using assms that by (auto simp: list_all_iff route_rule_ok_def native_route_def)
  have "route_actions s k = None \<longleftrightarrow> k \<notin> (\<lambda>r. (cr_prefix r, cr_depth r)) ` set (rs_routes s)" for k
    by (auto simp: route_actions_def map_of_eq_None_iff flows_of_map native_route_key_of image_image
        native_route_key_def control_route_key_of_def)
  then show ?thesis
    using ok by (fastforce simp: covered_deeper_def prefix_matches_def word_less_nat_alt)
qed

lemma open_routes_ok:
  "in_step tv r \<Longrightarrow> rt_open r \<Longrightarrow> list_all (\<lambda>r. route_rule_ok (native_route r)) (rs_routes (rt_rules r))"
  by (auto simp: in_step_def snapshot_repr_def rules_valid_def flows_of_map list_all_iff)

text \<open>What a call that returned nil has done to the decision on a packet with key \<open>k\<close> and destination \<open>ip\<close>.\<close>

fun decision_after ::
  "rule_snapshot \<Rightarrow> control_call \<Rightarrow> dp_flow_key \<Rightarrow> u32 \<Rightarrow> dp_lookup_result \<times> dp_rule_action option \<Rightarrow>
   dp_lookup_result \<times> dp_rule_action option \<Rightarrow> bool" where
  "decision_after s (Replace_Rules new) k ip before now \<longleftrightarrow> True"
| "decision_after s (Add_Flow f) k ip before now \<longleftrightarrow>
     now = (if native_key (control_flow_key_of f) = k
       then (DP_LOOKUP_FLOW_HIT, Some (action_of (native_action (cf_action f)))) else before)"
| "decision_after s (Delete_Flow fk) k ip before now \<longleftrightarrow>
     now = (if native_key fk = k then route_decision s ip else before)"
| "decision_after s (Add_Route f) k ip before now \<longleftrightarrow>
     now = (if fst before \<noteq> DP_LOOKUP_FLOW_HIT \<and> prefix_matches (cr_prefix f) (cr_depth f) ip \<and>
         \<not> covered_deeper s (cr_depth f) ip
       then (DP_LOOKUP_ROUTE_HIT, Some (action_of (native_action (cr_action f)))) else before)"
| "decision_after s (Delete_Route rk) k ip before now \<longleftrightarrow>
     (fst before = DP_LOOKUP_FLOW_HIT \<or> \<not> prefix_matches (rk_prefix rk) (rk_depth rk) ip \<or>
        covered_deeper s (rk_depth rk) ip \<longrightarrow> now = before)"

lemma if_validD:
  assumes "if_valid s = Some s'"
  shows "s' = s \<and> validate_rules s = None \<and> distinct (map control_flow_key_of (rs_flows s)) \<and>
    distinct (map control_route_key_of (rs_routes s)) \<and> list_all (\<lambda>r. route_rule_ok (native_route r)) (rs_routes s)"
  using assms
  by (auto simp: if_valid_def validate_rules_valid rules_valid_def flows_of_map keys_distinct list_all_iff split: if_splits)

lemma intended_decision:
  assumes new: "intended call s = Some s'"
    and routes: "list_all (\<lambda>r. route_rule_ok (native_route r)) (rs_routes s)"
  shows "decision_after s call (dp_flow_key_from_meta meta) (pm_dst_ipv4 meta)
    (policy (flows_of s) (routes_of s) meta) (policy (flows_of s') (routes_of s') meta)"
proof (cases call)
  case (Replace_Rules x)
  then show ?thesis by simp
next
  case (Add_Flow f)
  then have s': "s' = s\<lparr>rs_flows := rs_flows s @ [f]\<rparr>" "control_flow_key_of f \<notin> control_flow_key_of ` set (rs_flows s)"
    using new by (auto dest!: if_validD)
  show ?thesis
    using Add_Flow flow_action_append [OF s'(2)] by (auto simp: s'(1) policy_parts split: option.splits)
next
  case (Delete_Flow k)
  then have s': "s' = s\<lparr>rs_flows := filter (\<lambda>f. control_flow_key_of f \<noteq> k) (rs_flows s)\<rparr>"
    using new by (auto split: if_splits)
  show ?thesis using Delete_Flow flow_action_filter [of k s] by (auto simp: s' policy_parts split: option.splits)
next
  case (Add_Route f)
  then have s': "s' = s\<lparr>rs_routes := rs_routes s @ [f]\<rparr>" "control_route_key_of f \<notin> control_route_key_of ` set (rs_routes s)"
    and ok: "route_rule_ok (native_route f)"
    using new by (auto dest!: if_validD)
  have d: "1 \<le> unat (cr_depth f)" "unat (cr_depth f) \<le> 32" using ok by (simp_all add: route_rule_ok_def native_route_def)
  have up: "route_actions s' = (route_actions s)((cr_prefix f, cr_depth f) \<mapsto> action_of (native_action (cr_action f)))"
    using route_actions_append [OF s'(2)] by (simp add: s'(1) native_route_key_def control_route_key_of_def)
  show ?thesis
    using Add_Route d covered_deeper_actions [OF routes, of "cr_depth f" "pm_dst_ipv4 meta"]
    by (auto simp: policy_parts s'(1) [symmetric] route_decision_def up longest_match_update split: option.splits)
      (simp_all add: s'(1))
next
  case (Delete_Route k)
  then have s': "s' = s\<lparr>rs_routes := filter (\<lambda>f. control_route_key_of f \<noteq> k) (rs_routes s)\<rparr>"
    using new by (auto split: if_splits)
  have up: "route_actions s' = (route_actions s)((rk_prefix k, rk_depth k) := None)"
    using route_actions_filter [of k s] by (simp add: s' native_route_key_def)
  have fl: "flow_action s' = flow_action s" by (simp add: s')
  show ?thesis
    using Delete_Route covered_deeper_actions [OF routes, of "rk_depth k" "pm_dst_ipv4 meta"]
    by (auto simp: policy_parts fl route_decision_def up longest_match_update split: option.splits)
qed

end
