(* ===== verification/Dp_Serve.thy ===== *)
theory Dp_Serve
  imports Dp_Manage
begin

text \<open>
  The rule management in service: when a call is accepted, and the properties of the control plane's rules:
  what is parsed is accepted, the validators agree, and every call does to the decisions on packets what it
  should.
\<close>

section \<open>When a call is accepted\<close>

text \<open>The arguments under which the native side sees a rule set.\<close>

lemma fits_args:
  assumes "fits s"
  shows "array_arg (arg_of (flows_of s)) (word_of_nat (length (rs_flows s)))" "array_arg (arg_of (routes_of s)) (word_of_nat (length (rs_routes s)))"
    "rules_of (arg_of (flows_of s)) (word_of_nat (length (rs_flows s))) = flows_of s"
    "rules_of (arg_of (routes_of s)) (word_of_nat (length (rs_routes s))) = routes_of s"
    "args_ok (arg_of (flows_of s)) (word_of_nat (length (rs_flows s))) (arg_of (routes_of s)) (word_of_nat (length (rs_routes s)))"
proof -
  have len: "length (flows_of s) \<le> 1024" "length (routes_of s) \<le> 1024"
    using assms by (simp_all add: fits_def DP_MAX_FLOW_RULES_def DP_MAX_ROUTE_RULES_def)
  note a = arg_pair [OF len(1), simplified] and b = arg_pair [OF len(2), simplified]
  show "array_arg (arg_of (flows_of s)) (word_of_nat (length (rs_flows s)))" by (rule a)
  show "array_arg (arg_of (routes_of s)) (word_of_nat (length (rs_routes s)))" by (rule b)
  show "rules_of (arg_of (flows_of s)) (word_of_nat (length (rs_flows s))) = flows_of s" by (rule a)
  show "rules_of (arg_of (routes_of s)) (word_of_nat (length (rs_routes s))) = routes_of s" by (rule b)
  show "args_ok (arg_of (flows_of s)) (word_of_nat (length (rs_flows s))) (arg_of (routes_of s)) (word_of_nat (length (rs_routes s)))"
    using assms a(3,4) b(3,4) by (auto simp: args_ok_def fits_def)
qed

lemma valid_fits: "validate_rules s = None \<Longrightarrow> fits s"
  by (simp add: validate_rules_valid fits_def)

lemma valid_code: "fits s \<Longrightarrow> validate_rules s = None \<longleftrightarrow> rules_code (flows_of s) (routes_of s) = 0"
  by (simp add: validate_rules_valid rules_code_valid fits_def)

text \<open>
  The code \<open>dp_publish_rules\<close> returns is that of the build, on a configured state.
\<close>

lemma publish_code:
  assumes "\<And>t. 0 \<le> rte_errno ops t" "array_arg flows nf" "array_arg routes nr" "generation \<noteq> None"
    and "dp_publish_rules qs ops t reports flows nf routes nr generation st = Some (Returned (ret, g) st')"
    and "g_initialized st" "g_rules_configured st" "g_rules_qsbr st \<noteq> None" "g_active_rules st \<noteq> None"
  shows "\<exists>res st1. dp_snapshot_build ops t flows nf routes nr (st_rules_generation (g_stats st) + 1) (publish_enter st) =
    Some (ret, res, st1)"
  using dp_snapshot_build_cases [OF assms(1-3), of t "st_rules_generation (g_stats st) + 1" "publish_enter st"]
proof (elim disjE exE conjE)
  fix s
  assume b: "dp_snapshot_build ops t flows nf routes nr (st_rules_generation (g_stats st) + 1) (publish_enter st) =
      Some (0, Some s, (publish_enter st)\<lparr>g_live := g_live (publish_enter st) + snapshot_objs s\<rparr>)"
  then have "ret = 0"
    using assms(4-) by (auto simp: dp_publish_rules_def publish_build_def Let_def split: Option.bind_splits option.splits prod.splits)
  with b show ?thesis by blast
next
  fix e
  assume b: "dp_snapshot_build ops t flows nf routes nr (st_rules_generation (g_stats st) + 1) (publish_enter st) =
      Some (e, None, publish_enter st)" "e < 0"
  then have "ret = e"
    using assms(4-) by (auto simp: dp_publish_rules_def publish_build_def Let_def)
  with b show ?thesis by blast
qed

text \<open>What a call needs of the machine to be decided by the rules alone.\<close>

definition call_ready :: "'q qsbr_view \<Rightarrow> call_env \<Rightarrow> ('h, 'l, 'q) dp_state \<Rightarrow> bool" where
  "call_ready qv ce st \<longleftrightarrow> ce_flows_ok ce \<and> ce_routes_ok ce \<and> g_initialized st \<and>
     (\<exists>q. g_rules_qsbr st = Some q \<and> qs_inv qv q \<and> set (ce_reports ce) = qs_online qv q)"

definition few_deep :: "rule_snapshot \<Rightarrow> bool" where
  "few_deep s \<longleftrightarrow> card (deep_blocks (route_key ` set (routes_of s))) \<le> 256"

lemma publish_keeps_ready:
  assumes laws: "rte_table_laws ops tv" "qsbr_laws qs qv" and arr: "array_arg flows nf" "array_arg routes nr"
    and inv: "rules_inv tv st" and gen: "generation \<noteq> None" and ready: "call_ready qv ce st"
    and run: "dp_publish_rules qs ops t (ce_reports ce) flows nf routes nr generation st = Some (Returned r st')"
  shows "call_ready qv ce st'"
proof -
  obtain q where q: "g_rules_qsbr st = Some q" "qs_inv qv q" "set (ce_reports ce) = qs_online qv q"
    using ready by (auto simp: call_ready_def)
  from dp_publish_rules_cases [OF rte_table_laws.errno_law [OF laws(1)] arr inv gen, of qs t "ce_reports ce"] show ?thesis
  proof (elim disjE exE conjE)
    fix s old q0 token q1
    assume s: "g_rules_qsbr st = Some q0" "qsbr_start qs q0 = (token, q1)"
      and p: "dp_publish_rules qs ops t (ce_reports ce) flows nf routes nr generation st =
         Some (case await_grace qs token (ce_reports ce) q1 of
           None \<Rightarrow> Still_Waiting ((publish_enter st)\<lparr>g_active_rules := Some s, g_rules_qsbr := Some q1,
             g_live := g_live st + snapshot_objs s, g_stats := count_published (g_stats st)\<rparr>)
         | Some q2 \<Rightarrow> Returned (0, Some (st_rules_generation (g_stats st) + 1)) (published old q2 s st))"
    have 1: "qs_inv qv q1" "qs_online qv q1 = qs_online qv q" "qs_waits qv q1 = qs_online qv q" "qs_token qv q1 = token"
      using qsbr_laws.start_law [OF laws(2) q(2)] s q(1) by simp_all
    then obtain q2 where "await_grace qs token (ce_reports ce) q1 = Some q2" "qs_inv qv q2" "qs_online qv q2 = qs_online qv q1"
      using qsbr_laws.await_grace_done [OF laws(2), of q1 token "ce_reports ce"] q(3) by auto
    with p run 1 q ready show ?thesis by (simp add: published_def call_ready_def)
  qed (use run ready in \<open>auto simp: call_ready_def on_stats_def\<close>)
qed

context rte_table_room
begin

lemma build_accepts:
  assumes "fits s" "few_deep s"
  shows "\<exists>res st'. dp_snapshot_build ops t (arg_of (flows_of s)) (word_of_nat (length (rs_flows s))) (arg_of (routes_of s))
      (word_of_nat (length (rs_routes s))) g st = Some (rules_code (flows_of s) (routes_of s), res, st')"
  using dp_snapshot_build_exact [OF fits_args(5,1,2) [OF assms(1)], of t g st] assms(2)
  by (simp add: fits_args(3,4) [OF assms(1)] few_deep_def)

lemma native_publish_exact:
  assumes qsbr: "qsbr_laws qs qv" and inv: "rules_inv tv st" "g_active_rules st \<noteq> None" and ready: "call_ready qv ce st"
    and s: "validate_rules s = None" "few_deep s"
  shows "\<exists>g st'. native_publish_rules qs ops ce (to_native_rules s) st = Some (Returned (g, None) st') \<and> call_ready qv ce st'"
proof -
  have fit: "fits s" by (rule valid_fits [OF s(1)])
  note args = fits_args [OF fit]
  obtain q where q: "g_rules_qsbr st = Some q" "qs_inv qv q" "set (ce_reports ce) = qs_online qv q"
    using ready by (auto simp: call_ready_def)
  obtain r st' where p: "dp_publish_rules qs ops (ce_time ce) (ce_reports ce) (arg_of (flows_of s)) (word_of_nat (length (rs_flows s)))
      (arg_of (routes_of s)) (word_of_nat (length (rs_routes s))) (Some 0) st = Some (Returned r st')"
    using publish_not_waiting [OF rte_table_laws_axioms qsbr inv(1) args(1,2) q] by blast
  obtain ret g where r: "r = (ret, g)" by fastforce
  have "g_initialized st" "g_rules_configured st" "g_rules_qsbr st \<noteq> None"
    using inv ready by (auto simp: rules_inv_def call_ready_def)
  from publish_code [OF errno_law args(1,2) _ p [unfolded r] this inv(2)] obtain res st1 where
    b: "dp_snapshot_build ops (ce_time ce) (arg_of (flows_of s)) (word_of_nat (length (rs_flows s))) (arg_of (routes_of s))
      (word_of_nat (length (rs_routes s))) (st_rules_generation (g_stats st) + 1) (publish_enter st) = Some (ret, res, st1)" by blast
  have "ret = 0"
    using build_accepts [OF fit s(2), of "ce_time ce" "st_rules_generation (g_stats st) + 1" "publish_enter st"] b
      valid_code [OF fit] s(1) by simp
  moreover obtain g0 where "g = Some g0"
    using publish_outcome [OF inv(1) args(1,2), of "Some 0" qs "ce_time ce" "ce_reports ce"] p r by (auto split: if_splits)
  moreover obtain live where "new_rule_arrays (ce_flows_ok ce) (ce_routes_ok ce) (ns_flows (to_native_rules s)) (ns_routes (to_native_rules s)) =
      Some (Inr \<lparr>ar_flows = arg_of (flows_of s), ar_routes = arg_of (routes_of s)\<rparr>, live)"
      "release_arrays \<lparr>ar_flows = arg_of (flows_of s), ar_routes = arg_of (routes_of s)\<rparr> live = Some []"
    using arrays_cases [of "ce_flows_ok ce" "ce_routes_ok ce" s] fit ready by (auto simp: call_ready_def)
  moreover have "call_ready qv ce st'"
    by (rule publish_keeps_ready [OF rte_table_laws_axioms qsbr args(1,2) inv(1) _ ready p]) simp
  ultimately show ?thesis using p r by (simp add: native_publish_rules_def native_status_def)
qed

lemma publish_locked_exact:
  assumes "qsbr_laws qs qv" "in_step tv r" "rt_open r" "call_ready qv ce (rt_native r)" "validate_rules s = None" "few_deep s"
  shows "\<exists>r'. publish_snapshot_locked qs ops ce s r = Some (Returned None r') \<and> call_ready qv ce (rt_native r')"
proof -
  have "rules_inv tv (rt_native r)" "g_active_rules (rt_native r) \<noteq> None" using assms(2,3) by (auto simp: in_step_def)
  from native_publish_exact [OF assms(1) this assms(4-6)] assms(3) show ?thesis
    by (fastforce simp: publish_snapshot_locked_def)
qed

end

lemma ex_key: "(\<exists>x \<in> A. f x = k) \<longleftrightarrow> k \<in> f ` A"
  by auto

lemma filter_fresh: "k \<notin> f ` set xs \<Longrightarrow> filter (\<lambda>x. f x \<noteq> k) xs = xs"
  by (induction xs) auto

lemma validate_filter:
  assumes "validate_rules s = None"
  shows "validate_rules (s\<lparr>rs_flows := filter p (rs_flows s)\<rparr>) = None"
    "validate_rules (s\<lparr>rs_routes := filter q (rs_routes s)\<rparr>) = None"
  using assms le_trans [OF length_filter_le [of p "rs_flows s"]] le_trans [OF length_filter_le [of q "rs_routes s"]]
  by (auto simp: validate_rules_valid rules_valid_def flows_of_map keys_distinct list_all_iff distinct_map_filter)

lemma intended_valid: "intended call s = Some s' \<Longrightarrow> validate_rules s = None \<Longrightarrow> validate_rules s' = None"
  by (cases call) (auto dest!: if_validD simp: validate_filter split: if_splits)

context rte_table_room
begin

lemma perform_exact:
  assumes laws: "qsbr_laws qs qv" and r: "in_step tv r" "rt_open r" "call_ready qv ce (rt_native r)"
    and deep: "\<And>s. intended call (rt_rules r) = Some s \<Longrightarrow> few_deep s"
  shows "\<exists>err r'. perform qs ops ce call r = Some (Returned err r') \<and>
    (err = None \<longleftrightarrow> intended call (rt_rules r) \<noteq> None) \<and> (err = None \<longrightarrow> call_ready qv ce (rt_native r'))"
proof (cases "intended call (rt_rules r)")
  case None
  then obtain out where "perform qs ops ce call r = Some out" "control_result tv None r out"
    using perform_result [OF r(1), of qs ce call] by auto
  then show ?thesis using None by (cases out) (auto simp: control_result_def split: if_splits)
next
  case (Some s)
  have valid: "validate_rules (rt_rules r) = None" using r(1,2) by (simp add: in_step_def)
  obtain r' where p: "publish_snapshot_locked qs ops ce s r = Some (Returned None r')" "call_ready qv ce (rt_native r')"
    using publish_locked_exact [OF laws r intended_valid [OF Some valid] deep [OF Some]] by blast
  have keys: "distinct (map control_flow_key_of (rs_flows (rt_rules r)))" "distinct (map control_route_key_of (rs_routes (rt_rules r)))"
    using valid by (simp_all add: validate_rules_valid rules_valid_def flows_of_map keys_distinct)
  have "perform qs ops ce call r = publish_snapshot_locked qs ops ce s r"
  proof (cases call)
    case (Delete_Flow k)
    then show ?thesis using Some remove_at_filter [OF keys(1), of k]
      by (auto simp: delete_flow_def index_where_found Let_def split: if_splits)
  next
    case (Delete_Route k)
    then show ?thesis using Some remove_at_filter [OF keys(2), of k]
      by (auto simp: delete_route_def index_where_found Let_def split: if_splits)
  qed (use Some in \<open>auto dest!: if_validD simp: replace_rules_def add_flow_def add_route_def Let_def ex_key\<close>)
  then show ?thesis using p Some by simp
qed

end

section \<open>A runtime\<close>

definition demo_rule :: flow_rule where
  "demo_rule = \<lparr>cf_src = fr_src_ipv4 demo_flow, cf_dst = fr_dst_ipv4 demo_flow, cf_sport = fr_src_port demo_flow,
     cf_dport = fr_dst_port demo_flow, cf_proto = fr_l4_proto demo_flow,
     cf_action = \<lparr>ct_type = ra_type sample_rewrite, ct_mask = ra_rewrite_mask sample_rewrite, ct_src = ra_src_ipv4 sample_rewrite,
       ct_dst = ra_dst_ipv4 sample_rewrite, ct_sport = ra_src_port sample_rewrite, ct_dport = ra_dst_port sample_rewrite\<rparr>\<rparr>"

definition demo_runtime :: "(ref_hash, ref_lpm, ref_qsbr) runtime" where
  "demo_runtime = \<lparr>rt_rules = \<lparr>rs_flows = [demo_rule], rs_routes = []\<rparr>, rt_generation = sn_generation demo_snapshot,
     rt_open = True, rt_native = demo_up\<rparr>"

definition demo_route :: route_rule where
  "demo_route = \<lparr>cr_prefix = 0x0a000000, cr_depth = 8,
     cr_action = \<lparr>ct_type = DP_ACTION_FORWARD, ct_mask = 0, ct_src = 0, ct_dst = 0, ct_sport = 0, ct_dport = 0\<rparr>\<rparr>"

definition demo_call :: call_env where
  "demo_call = \<lparr>ce_time = 5, ce_reports = [], ce_flows_ok = True, ce_routes_ok = True\<rparr>"

lemma demo_rule_flow: "native_flow demo_rule = demo_flow"
  by (simp add: native_flow_def demo_rule_def demo_flow_def zero_flow_rule_def action_of_def native_action_def sample_rewrite_def)

lemma demo_runtime_rules: "flows_of (rt_rules demo_runtime) = [demo_flow]" "routes_of (rt_rules demo_runtime) = []"
  by (simp_all add: demo_runtime_def flows_of_map demo_rule_flow)

lemma demo_runtime_in_step: "in_step ref_view demo_runtime" "rt_open demo_runtime"
proof -
  have "validate_rules (rt_rules demo_runtime) = None"
    using demo_flow_valid demo_runtime_rules by (simp add: validate_rules_valid DP_MAX_FLOW_RULES_def DP_MAX_ROUTE_RULES_def demo_runtime_def)
  moreover have "g_active_rules demo_up = Some demo_snapshot" "st_rules_generation (g_stats demo_up) = sn_generation demo_snapshot"
    by (simp_all add: demo_defs)
  moreover have "snapshot_repr ref_view [demo_flow] [] demo_snapshot" using demo_represents by (simp add: represents_def)
  ultimately show "in_step ref_view demo_runtime"
    using demo_up_inv(1) demo_runtime_rules by (simp add: in_step_def demo_runtime_def)
qed (simp add: demo_runtime_def)

lemma demo_call_ready: "call_ready (ref_qsbr_view 128) demo_call (rt_native demo_runtime)"
  by (auto simp: call_ready_def demo_call_def demo_runtime_def demo_defs ref_qsbr_view_def rq_inv_def rq_online_def)

lemma depth_mask_8: "depth_mask 8 = 0xff000000"
  by (simp add: depth_mask_def push_bit_eq_mult del: push_bit_minus_one)

lemma demo_route_intended:
  "intended (Add_Route demo_route) (rt_rules demo_runtime) = Some \<lparr>rs_flows = [demo_rule], rs_routes = [demo_route]\<rparr>"
  "few_deep \<lparr>rs_flows = [demo_rule], rs_routes = [demo_route]\<rparr>"
proof -
  let ?s = "\<lparr>rs_flows = [demo_rule], rs_routes = [demo_route]\<rparr>"
  have "route_rule_ok (native_route demo_route)"
    by (simp add: route_ok_go depth_mask_8 demo_route_def validate_rule_action_def action_consts)
  then have "rules_valid (flows_of ?s) (routes_of ?s)"
    using demo_flow_valid by (simp add: rules_valid_def flows_of_map demo_rule_flow)
  then have "validate_rules ?s = None"
    by (simp add: validate_rules_valid DP_MAX_FLOW_RULES_def DP_MAX_ROUTE_RULES_def)
  then show "intended (Add_Route demo_route) (rt_rules demo_runtime) = Some ?s"
    by (simp add: demo_runtime_def if_valid_def)
  have "deep_blocks (route_key ` set (routes_of ?s)) = {}"
    by (simp add: deep_blocks_def flows_of_map route_key_def native_route_def demo_route_def)
  then show "few_deep ?s" by (simp add: few_deep_def)
qed

section \<open>Properties\<close>


definition demo_net :: net_ops where
  "demo_net = \<lparr>net_parse_ip4 = (\<lambda>text. if text = ''192.0.2.1'' then Some 0xc0000201 else None),
     net_parse_cidr = (\<lambda>text. if text = ''10.1.2.3/8'' then Some \<lparr>ci_is_ipv4 = True, ci_depth = 8, ci_bits = 32,
       ci_network = 0x0a000000\<rparr> else None)\<rparr>"

definition demo_document :: rules_document where
  "demo_document = \<lparr>doc_flows = [\<lparr>fd_src = ''192.0.2.1'', fd_dst = ''192.0.2.1'', fd_sport = 80, fd_dport = 443, fd_protocol = ''tcp'',
       fd_action = \<lparr>ad_type = ''rewrite'', ad_src = Some ''192.0.2.1'', ad_dst = None, ad_sport = None, ad_dport = Some 8443\<rparr>\<rparr>],
     doc_routes = [\<lparr>rd_prefix = ''10.1.2.3/8'',
       rd_action = \<lparr>ad_type = ''forward'', ad_src = None, ad_dst = None, ad_sport = None, ad_dport = None\<rparr>\<rparr>]\<rparr>"






text \<open>
  C14. The runtime refines its own rule sets. After any sequence of calls, some accepted and some refused, with
  the native side moving between them as it may, the runtime's rules are those the accepted calls ask for,
  its generation counts them, and every packet is decided by the native lookup as those rules say.
\<close>

theorem control_refines_rules:
  assumes "rte_table_laws ops tv" and "in_step tv r" and "rt_open r" and "control_run qs ops r hist r'"
  shows "in_step tv r' \<and> rt_rules r' = after_calls hist (rt_rules r) \<and>
    rt_generation r' = rt_generation r + word_of_nat (length (filter (\<lambda>c. snd c = None) hist)) \<and>
    native_decision ops (rt_native r') meta =
      policy (flows_of (after_calls hist (rt_rules r))) (routes_of (after_calls hist (rt_rules r))) meta"
  using rte_table_laws.control_run_result [OF assms(1,4,2)] assms(3)
    rte_table_laws.decision_is_policy [OF assms(1), of r' meta] by simp

theorem control_refines_rules_witness:
  "\<exists>r'. control_run (ref_qsbr_ops 128) (ref_tables []) demo_runtime [(Add_Route demo_route, None), (Add_Flow demo_rule, Some Duplicate_Key)] r' \<and>
    rs_routes (rt_rules r') = [demo_route] \<and> rt_generation r' = rt_generation demo_runtime + 1"
proof -
  obtain r' where p: "perform (ref_qsbr_ops 128) (ref_tables []) demo_call (Add_Route demo_route) demo_runtime = Some (Returned None r')"
    "rt_rules r' = \<lparr>rs_flows = [demo_rule], rs_routes = [demo_route]\<rparr>"
    using reft_room.perform_exact [OF refq.qsbr_laws_axioms demo_runtime_in_step demo_call_ready, of "Add_Route demo_route"]
      reft.perform_result [OF demo_runtime_in_step(1), where qs = "ref_qsbr_ops 128" and ce = demo_call and call = "Add_Route demo_route" and fails = "[]"]
      demo_route_intended by (auto simp: control_result_def)
  have "perform (ref_qsbr_ops 128) (ref_tables []) demo_call (Add_Flow demo_rule) r' = Some (Returned (Some Duplicate_Key) r')"
    using p(2) by (simp add: add_flow_def)
  from control_call [OF p(1) control_call [OF this control_nil]]
  have run: "control_run (ref_qsbr_ops 128) (ref_tables []) demo_runtime
    [(Add_Route demo_route, None), (Add_Flow demo_rule, Some Duplicate_Key)] r'" .
  from control_refines_rules [OF reft.rte_table_laws_axioms demo_runtime_in_step run] run demo_route_intended(1)
  show ?thesis by auto
qed



text \<open>
  C29. Adding and deleting cancel. Adding a flow or a route and deleting its key again, both accepted, gives
  back the very rule set, and with it the decision on every packet; only the generation has moved, by two.
\<close>

theorem add_delete_cancel:
  assumes "rte_table_laws ops tv" and "in_step tv r" and "rt_open r"
    and "(add, del) \<in> {(Add_Flow f, Delete_Flow (control_flow_key_of f)), (Add_Route rt, Delete_Route (control_route_key_of rt))}"
    and "perform qs ops ce add r = Some (Returned None r1)" and "perform qs ops ce' del r1 = Some (Returned None r2)"
  shows "rt_rules r2 = rt_rules r \<and> rt_generation r2 = rt_generation r + 2 \<and>
    native_decision ops (rt_native r2) meta = native_decision ops (rt_native r) meta"
proof -
  have c: "control_result tv (intended add (rt_rules r)) r (Returned None r1)"
    using rte_table_laws.perform_result [OF assms(1,2), of qs ce add] assms(5) by simp
  then have r1: "in_step tv r1" "rt_open r1" "intended add (rt_rules r) = Some (rt_rules r1)" "rt_generation r1 = rt_generation r + 1"
    using assms(3) by (simp_all add: control_result_def)
  have c: "control_result tv (intended del (rt_rules r1)) r1 (Returned None r2)"
    using rte_table_laws.perform_result [OF assms(1) r1(1), of qs ce' del] assms(6) by simp
  then have r2: "in_step tv r2" "rt_open r2" "intended del (rt_rules r1) = Some (rt_rules r2)" "rt_generation r2 = rt_generation r1 + 1"
    using r1(2) by (simp_all add: control_result_def)
  note d = rte_table_laws.decision_is_policy [OF assms(1)]
  have "rt_rules r2 = rt_rules r"
    using r1(3) r2(3) assms(4) by (auto dest!: if_validD simp: filter_fresh split: if_splits)
  then show ?thesis
    using r1(4) r2(4) by (simp add: d [OF assms(2,3)] d [OF r2(1,2)])
qed

theorem add_delete_cancel_witness:
  "\<exists>r1 r2. perform (ref_qsbr_ops 128) (ref_tables []) demo_call (Add_Route demo_route) demo_runtime = Some (Returned None r1) \<and>
    perform (ref_qsbr_ops 128) (ref_tables []) demo_call (Delete_Route (control_route_key_of demo_route)) r1 = Some (Returned None r2) \<and>
    rt_rules r2 = rt_rules demo_runtime"
proof -
  obtain r1 where p: "perform (ref_qsbr_ops 128) (ref_tables []) demo_call (Add_Route demo_route) demo_runtime = Some (Returned None r1)"
    "call_ready (ref_qsbr_view 128) demo_call (rt_native r1)"
    using reft_room.perform_exact [OF refq.qsbr_laws_axioms demo_runtime_in_step demo_call_ready, of "Add_Route demo_route"]
      demo_route_intended by auto
  have c: "control_result ref_view (intended (Add_Route demo_route) (rt_rules demo_runtime)) demo_runtime (Returned None r1)"
    using reft.perform_result [OF demo_runtime_in_step(1), where qs = "ref_qsbr_ops 128" and ce = demo_call and
      call = "Add_Route demo_route" and fails = "[]"] p(1) by simp
  then have r1: "in_step ref_view r1" "rt_open r1" "rt_rules r1 = \<lparr>rs_flows = [demo_rule], rs_routes = [demo_route]\<rparr>"
    using demo_runtime_in_step(2) demo_route_intended(1) by (simp_all add: control_result_def)
  have del: "intended (Delete_Route (control_route_key_of demo_route)) (rt_rules r1) = Some \<lparr>rs_flows = [demo_rule], rs_routes = []\<rparr>"
    by (simp add: r1(3))
  moreover have "few_deep \<lparr>rs_flows = [demo_rule], rs_routes = []\<rparr>" by (simp add: few_deep_def flows_of_map deep_blocks_def)
  ultimately obtain r2 where
    p2: "perform (ref_qsbr_ops 128) (ref_tables []) demo_call (Delete_Route (control_route_key_of demo_route)) r1 = Some (Returned None r2)"
    using reft_room.perform_exact [OF refq.qsbr_laws_axioms r1(1,2) p(2), of "Delete_Route (control_route_key_of demo_route)"] by auto
  from add_delete_cancel [OF reft.rte_table_laws_axioms demo_runtime_in_step _ p(1) p2] p(1) p2 show ?thesis by blast
qed

end
