(* ===== verification/Dp_Native.thy ===== *)
theory Dp_Native
  imports Dp_Control
begin

text \<open>
  The life cycle calls of the binding (\<open>binding_linux.go\<close>): \<open>Init\<close> with the C arguments it keeps,
  \<open>GetInfo\<close>, \<open>Setup\<close>, \<open>Run\<close>, \<open>RequestStop\<close>, \<open>Teardown\<close>, \<open>GetStats\<close> and \<open>Cleanup\<close>. Each calls one function
  of the native boundary, turns its status into an error, and copies what it returns into Go data. Go's
  \<open>uint\<close> has 64 bits; an index outside a C array is a fault (\<open>None\<close>).
\<close>

section \<open>The arguments of the environment layer\<close>

text \<open>
  \<open>arguments\<close>: the C strings and the array that \<open>Init\<close> allocates and \<open>Cleanup\<close> frees. \<open>ag_live\<close> is not in
  the code: it is the ledger of the blocks that are allocated. Freeing a block that is not in it is a fault;
  freeing NULL does nothing.
\<close>

datatype c_block = C_String string | C_Argv

record arguments =
  ag_strings :: "string list"
  ag_array :: "string option list option"
  ag_live :: "c_block multiset"

definition arguments_start :: arguments where
  "arguments_start = \<lparr>ag_strings = [], ag_array = None, ag_live = {#}\<rparr>"

text \<open>A C string ends at the first NUL.\<close>

definition c_string :: "string \<Rightarrow> string" where
  "c_string s = takeWhile (\<lambda>c. c \<noteq> CHR 0x00) s"

fun free_strings :: "string list \<Rightarrow> c_block multiset \<Rightarrow> c_block multiset option" where
  "free_strings [] live = Some live"
| "free_strings (s # ss) live =
     (if C_String s \<in># live then free_strings ss (live - {#C_String s#}) else None)"

definition dp_argv_free_array :: "string option list option \<Rightarrow> c_block multiset \<Rightarrow> c_block multiset option" where
  "dp_argv_free_array argv live = (case argv of
     None \<Rightarrow> Some live
   | Some _ \<Rightarrow> if C_Argv \<in># live then Some (live - {#C_Argv#}) else None)"

definition free_arguments :: "arguments \<Rightarrow> arguments option" where
  "free_arguments ag = do {
     live \<leftarrow> free_strings (ag_strings ag) (ag_live ag);
     live \<leftarrow> dp_argv_free_array (ag_array ag) live;
     Some \<lparr>ag_strings = [], ag_array = None, ag_live = live\<rparr> }"

definition native_init ::
  "eal_ops \<Rightarrow> bool \<Rightarrow> string list \<Rightarrow> arguments \<Rightarrow> ('h, 'l, 'q) dp_state \<Rightarrow>
   (native_error option \<times> arguments \<times> ('h, 'l, 'q) dp_state) option" where
  "native_init el calloc_ok args ag st = do {
     let strings = ''flow-router'' # map c_string args;
     let ag = ag\<lparr>ag_strings := strings, ag_live := ag_live ag + image_mset C_String (mset strings)\<rparr>;
     res \<leftarrow> init_argv calloc_ok (map c_string args);
     case res of
       Inl e \<Rightarrow> do {
         ag \<leftarrow> free_arguments (ag\<lparr>ag_array := None\<rparr>);
         Some (Some (Not_Marshalled e), ag, st) }
     | Inr (n, argv) \<Rightarrow> do {
         let ag = ag\<lparr>ag_array := Some argv, ag_live := add_mset C_Argv (ag_live ag)\<rparr>;
         let argc = sint (word_of_nat n :: 32 word);
         argv \<leftarrow> those (take (nat argc) argv);
         let (rc, st) = dp_runtime_init el argc (Some argv) st;
         Some (native_status rc, ag, st) } }"

definition native_cleanup ::
  "eal_ops \<Rightarrow> arguments \<Rightarrow> ('h, 'l, 'q) dp_state \<Rightarrow>
   (native_error option \<times> arguments \<times> ('h, 'l, 'q) dp_state) option" where
  "native_cleanup el ag st = do {
     (rc, st) \<leftarrow> dp_runtime_cleanup el st;
     let err = native_status rc;
     if err = None then do {
       ag \<leftarrow> free_arguments ag;
       Some (err, ag, st) }
     else Some (err, ag, st) }"

section \<open>Information\<close>

record go_worker_info =
  gw_worker_id :: u64
  gw_lcore_id :: u64
  gw_rx_queue_id :: u16
  gw_tx_queue_id :: u16

record go_info =
  gi_initialized :: bool
  gi_main_lcore :: u64
  gi_lcore_count :: u64
  gi_version :: string
  gi_rx_port :: u16
  gi_tx_port :: u16
  gi_rx_desc :: u16
  gi_tx_desc :: u16
  gi_nb_mbuf :: u64
  gi_cache_size :: u64
  gi_socket_id :: int
  gi_workers :: "go_worker_info list"

definition go_worker_info_of :: "dp_worker_info \<Rightarrow> go_worker_info" where
  "go_worker_info_of w = \<lparr>gw_worker_id = ucast (wi_worker_id w), gw_lcore_id = ucast (wi_lcore_id w),
     gw_rx_queue_id = wi_rx_queue_id w, gw_tx_queue_id = wi_tx_queue_id w\<rparr>"

text \<open>The loop that appends the workers, at index \<open>i\<close>, \<open>k\<close> left.\<close>

fun append_infos :: "dp_worker_info list \<Rightarrow> nat \<Rightarrow> nat \<Rightarrow> go_worker_info list \<Rightarrow> go_worker_info list option" where
  "append_infos workers i 0 acc = Some acc"
| "append_infos workers i (Suc k) acc = do {
     w \<leftarrow> idx workers i;
     append_infos workers (i + 1) k (acc @ [go_worker_info_of w]) }"

definition native_get_info :: "('h, 'l, 'q) dp_state \<Rightarrow> (native_error + go_info) option" where
  "native_get_info st =
     (let (rc, out) = dp_runtime_get_info (Some zero_info) st in
      case native_status rc of
        Some e \<Rightarrow> Some (Inl e)
      | None \<Rightarrow> do {
          info \<leftarrow> out;
          workers \<leftarrow> append_infos (ri_workers info) 0 (unat (ri_worker_count info)) [];
          Some (Inr \<lparr>gi_initialized = (ri_initialized info \<noteq> 0), gi_main_lcore = ucast (ri_main_lcore info),
            gi_lcore_count = ucast (ri_lcore_count info),
            gi_version = (case ri_version info of None \<Rightarrow> [] | Some v \<Rightarrow> v),
            gi_rx_port = ri_rx_port info, gi_tx_port = ri_tx_port info, gi_rx_desc = ri_rx_desc info,
            gi_tx_desc = ri_tx_desc info, gi_nb_mbuf = ucast (ri_nb_mbuf info),
            gi_cache_size = ucast (ri_cache_size info), gi_socket_id = ri_socket_id info, gi_workers = workers\<rparr>) })"

section \<open>The dataplane\<close>

definition native_setup ::
  "eal_ops \<Rightarrow> eth_ops \<Rightarrow> test_hooks \<Rightarrow> string \<Rightarrow> string \<Rightarrow> u64 \<Rightarrow> ('h, 'l, 'q) dp_state \<Rightarrow>
   (native_error option \<times> ('h, 'l, 'q) dp_state \<times> port_call list) option" where
  "native_setup el eo th rx_device tx_device worker_count st = do {
     (rc, st, calls) \<leftarrow> dp_dataplane_setup el eo th (Some (c_string rx_device)) (Some (c_string tx_device)) (ucast worker_count) st;
     Some (native_status rc, st, calls) }"

definition native_run ::
  "(u32 \<Rightarrow> int) \<Rightarrow> int \<Rightarrow> ('h, 'l, 'q) executor \<Rightarrow> ('h, 'l, 'q) dp_state \<Rightarrow> mbuf_heap \<Rightarrow>
   (native_error option \<times> ('h, 'l, 'q) dp_state \<times> mbuf_heap) option" where
  "native_run launch failure exec st h = do {
     (rc, st, h) \<leftarrow> dp_dataplane_run launch failure exec st h;
     Some (native_status rc, st, h) }"

definition native_teardown ::
  "eth_ops \<Rightarrow> nat \<Rightarrow> ('h, 'l, 'q) dp_state \<Rightarrow> (native_error option \<times> ('h, 'l, 'q) dp_state \<times> port_call list) option" where
  "native_teardown eo t st = do {
     (rc, st, calls) \<leftarrow> dp_dataplane_teardown eo t st;
     Some (native_status rc, st, calls) }"

section \<open>Statistics\<close>

text \<open>The counters of \<open>PacketStats\<close> are those of \<open>struct dp_packet_stats\<close>, all of 64 bits.\<close>

record go_worker_stats =
  gws_info :: go_worker_info
  gws_packets :: dp_packet_stats

record go_stats =
  gs_packets :: dp_packet_stats
  gs_workers :: "go_worker_stats list"
  gs_rules_generation :: u64
  gs_rules_publish_success :: u64
  gs_rules_publish_failed :: u64
  gs_rules_reclaimed :: u64
  gs_ports_closed :: u64
  gs_pool_in_use :: u64
  gs_pool_freed :: bool
  gs_flow_table_freed :: bool
  gs_route_table_freed :: bool
  gs_action_store_freed :: bool
  gs_snapshot_freed :: bool
  gs_qsbr_freed :: bool

definition zero_go_stats :: go_stats where
  "zero_go_stats = \<lparr>gs_packets = zero_packet_stats, gs_workers = [], gs_rules_generation = 0,
     gs_rules_publish_success = 0, gs_rules_publish_failed = 0, gs_rules_reclaimed = 0, gs_ports_closed = 0,
     gs_pool_in_use = 0, gs_pool_freed = False, gs_flow_table_freed = False, gs_route_table_freed = False,
     gs_action_store_freed = False, gs_snapshot_freed = False, gs_qsbr_freed = False\<rparr>"

fun append_stats :: "dp_worker_stats list \<Rightarrow> nat \<Rightarrow> nat \<Rightarrow> go_worker_stats list \<Rightarrow> go_worker_stats list option" where
  "append_stats workers i 0 acc = Some acc"
| "append_stats workers i (Suc k) acc = do {
     w \<leftarrow> idx workers i;
     append_stats workers (i + 1) k (acc @ [\<lparr>gws_info = go_worker_info_of (ws_info w), gws_packets = ws_packets w\<rparr>]) }"

definition native_get_stats :: "('h, 'l, 'q) dp_state \<Rightarrow> (native_error + go_stats) option" where
  "native_get_stats st = do {
     (rc, out) \<leftarrow> dp_dataplane_get_stats (Some zero_stats) st;
     case native_status rc of
       Some e \<Rightarrow> Some (Inl e)
     | None \<Rightarrow> do {
         s \<leftarrow> out;
         workers \<leftarrow> append_stats (st_workers s) 0 (unat (st_worker_count s)) [];
         Some (Inr \<lparr>gs_packets = dp_packet_stats.truncate s, gs_workers = workers,
           gs_rules_generation = st_rules_generation s, gs_rules_publish_success = st_rules_publish_success s,
           gs_rules_publish_failed = st_rules_publish_failed s, gs_rules_reclaimed = st_rules_reclaimed s,
           gs_ports_closed = ucast (st_ports_closed s), gs_pool_in_use = ucast (st_pool_in_use s),
           gs_pool_freed = (st_pool_freed s \<noteq> 0), gs_flow_table_freed = (st_flow_table_freed s \<noteq> 0),
           gs_route_table_freed = (st_route_table_freed s \<noteq> 0), gs_action_store_freed = (st_action_store_freed s \<noteq> 0),
           gs_snapshot_freed = (st_snapshot_freed s \<noteq> 0), gs_qsbr_freed = (st_qsbr_freed s \<noteq> 0)\<rparr>) } }"

section \<open>The arguments are freed exactly once\<close>

definition arguments_ok :: "arguments \<Rightarrow> bool" where
  "arguments_ok ag \<longleftrightarrow> ag_live ag = image_mset C_String (mset (ag_strings ag)) +
     (if ag_array ag = None then {#} else {#C_Argv#})"

lemma free_strings_all: "free_strings ss (image_mset C_String (mset ss) + live) = Some live"
  by (induction ss) simp_all

lemma free_arguments_ok: "arguments_ok ag \<Longrightarrow> free_arguments ag = Some arguments_start"
  by (auto simp: free_arguments_def arguments_ok_def free_strings_all dp_argv_free_array_def arguments_start_def
      split: option.splits)

lemma those_Some: "those (map Some xs) = Some xs"
  by (induction xs) simp_all

lemma argc_in_range: "nat (sint (word_of_nat n :: 32 word)) \<le> n"
proof -
  let ?w = "word_of_nat n :: 32 word"
  have "sint ?w = signed_take_bit 31 (uint ?w)" by (simp add: sint_uint)
  also have "\<dots> \<le> uint ?w" by (rule signed_take_bit_int_less_eq_self_iff [THEN iffD2]) (rule order_trans [OF _ unsigned_greater_eq], simp)
  also have "uint ?w = take_bit 32 (int n)" by (simp add: unsigned_of_nat of_nat_take_bit)
  also have "\<dots> \<le> int n" by (simp add: take_bit_int_less_eq_self_iff)
  finally show ?thesis by simp
qed

lemma native_init_cases:
  assumes "0 \<le> el_errno el"
  shows "\<exists>e ag st'. native_init el calloc_ok args arguments_start st = Some (e, ag, st') \<and> arguments_ok ag \<and>
    (\<exists>argc argv ret. st' = st \<and> e \<noteq> None \<or> dp_runtime_init el argc argv st = (ret, st') \<and> e = native_status ret)"
proof (cases calloc_ok)
  case False
  then show ?thesis
    by (simp add: native_init_def init_argv_null_terminated free_arguments_ok arguments_ok_def arguments_start_def Let_def)
next
  case True
  let ?n = "Suc (length args)" and ?xs = "''flow-router'' # map c_string args"
  let ?argc = "sint (word_of_nat ?n :: 32 word)"
  have "take (nat ?argc) (map Some ?xs @ [None]) = map Some (take (nat ?argc) ?xs)"
    using argc_in_range [of ?n] by (simp add: take_map del: of_nat_Suc list.map)
  then have "those (take (nat ?argc) (map Some ?xs @ [None])) = Some (take (nat ?argc) ?xs)"
    by (simp add: those_Some del: list.map take_Suc_Cons)
  then show ?thesis
    using True
    by (cases "dp_runtime_init el ?argc (Some (take (nat ?argc) ?xs)) st")
      (auto simp: native_init_def init_argv_null_terminated arguments_ok_def arguments_start_def Let_def
        simp del: of_nat_Suc)
qed

text \<open>Information and statistics are copied without a fault.\<close>

lemma append_infos_runs:
  "i + k \<le> length ws \<Longrightarrow> append_infos ws i k acc = Some (acc @ map go_worker_info_of (take k (drop i ws)))"
proof (induction k arbitrary: i acc)
  case (Suc k)
  then have "take (Suc k) (drop i ws) = ws ! i # take k (drop (i + 1) ws)" by (simp add: Cons_nth_drop_Suc [symmetric])
  with Suc show ?case by (simp add: mem_simps)
qed simp

lemma append_stats_runs:
  "i + k \<le> length ws \<Longrightarrow> append_stats ws i k acc =
    Some (acc @ map (\<lambda>w. \<lparr>gws_info = go_worker_info_of (ws_info w), gws_packets = ws_packets w\<rparr>) (take k (drop i ws)))"
proof (induction k arbitrary: i acc)
  case (Suc k)
  then have "take (Suc k) (drop i ws) = ws ! i # take k (drop (i + 1) ws)" by (simp add: Cons_nth_drop_Suc [symmetric])
  with Suc show ?case by (simp add: mem_simps)
qed simp

lemma native_get_info_runs:
  assumes "unat (ri_worker_count (g_info st)) \<le> length (ri_workers (g_info st))" "g_initialized st"
  shows "\<exists>info. native_get_info st = Some (Inr info) \<and> gi_lcore_count info = ucast (ri_lcore_count (g_info st)) \<and>
    gi_workers info = map go_worker_info_of (take (unat (ri_worker_count (g_info st))) (ri_workers (g_info st)))"
  using assms by (simp add: native_get_info_def dp_runtime_get_info_def native_status_def append_infos_runs)

lemma native_get_stats_runs:
  assumes "ports_inv st"
  shows "\<exists>got. native_get_stats st = Some got"
proof (cases "g_running st")
  case True
  then show ?thesis by (simp add: native_get_stats_def dp_dataplane_get_stats_def native_status_def errno_simps)
next
  case False
  let ?s = "(store_packets zero_packet_stats (g_stats st))\<lparr>st_worker_count := g_worker_count st\<rparr>"
  have len: "0 + unat (g_worker_count st) \<le> length (g_workers st)" "0 + unat (g_worker_count st) \<le> length (st_workers ?s)"
    using assms by (simp_all add: ports_inv_def store_packets_def)
  obtain t where c: "collect_workers (g_workers st) 0 (unat (g_worker_count st)) ?s zero_packet_stats =
      Some (?s\<lparr>st_workers := take 0 (st_workers ?s) @ map worker_entry (take (unat (g_worker_count st)) (drop 0 (g_workers st))) @
        drop (0 + unat (g_worker_count st)) (st_workers ?s)\<rparr>, t)"
    using collect_workers_runs [OF len, of zero_packet_stats] by blast
  with False len show ?thesis
    by (simp add: native_get_stats_def dp_dataplane_get_stats_def native_status_def append_stats_runs Let_def
        store_packets_def)
qed

section \<open>Set-up leaves the workers parked\<close>

text \<open>No worker is launched, registered or counted, and the information counts a number of workers the arrays hold.\<close>

definition parked :: "('h, 'l, 'q) dp_state \<Rightarrow> bool" where
  "parked st \<longleftrightarrow> (\<forall>w \<in> set (g_workers st). \<not> wc_launched w \<and> \<not> wc_reader_registered w) \<and>
     g_active_workers st = 0 \<and> g_registered_readers st = 0 \<and> unat (ri_worker_count (g_info st)) \<le> DP_MAX_WORKERS"

lemma set_idx_all: "set_idx xs i v = Some ys \<Longrightarrow> (\<And>x. x \<in> set xs \<Longrightarrow> P x) \<Longrightarrow> P v \<Longrightarrow> x \<in> set ys \<Longrightarrow> P x"
  using set_update_subset_insert [of xs i v] by (auto simp: set_idx_eq_Some)

lemma assign_lcores_parked:
  "assign_lcores main n lcores k ws = Some (e, next_id, ws') \<Longrightarrow>
     \<forall>w \<in> set ws. \<not> wc_launched w \<and> \<not> wc_reader_registered w \<Longrightarrow>
     \<forall>w \<in> set ws'. \<not> wc_launched w \<and> \<not> wc_reader_registered w"
proof (induction lcores arbitrary: k ws)
  case (Cons c lcores)
  show ?case
  proof (cases "c = main \<or> k \<ge> n")
    case True
    with Cons.prems(1) have "ws' = ws \<or> assign_lcores main n lcores k ws = Some (e, next_id, ws')"
      by (simp split: if_splits)
    then show ?thesis using Cons.IH [OF _ Cons.prems(2)] Cons.prems(2) by blast
  next
    case False
    then obtain w ws1 where s: "idx ws k = Some w" "set_idx ws k (w\<lparr>wc_info := (wc_info w)\<lparr>wi_worker_id := word_of_nat k,
        wi_lcore_id := c\<rparr>\<rparr>) = Some ws1" "assign_lcores main n lcores (k + 1) ws1 = Some (e, next_id, ws')"
      using Cons.prems(1) by (auto split: Option.bind_splits)
    have "w \<in> set ws" using s(1) by (auto simp: idx_eq_Some)
    have "\<forall>w \<in> set ws1. \<not> wc_launched w \<and> \<not> wc_reader_registered w"
      by (intro ballI, rule set_idx_all [OF s(2)]) (use Cons.prems(2) \<open>w \<in> set ws\<close> in auto)
    then show ?thesis by (rule Cons.IH [OF s(3)])
  qed
qed simp

lemma assign_queues_parked:
  "assign_queues el i k st = Some (ret, st') \<Longrightarrow> parked st \<Longrightarrow> parked st'"
proof (induction k arbitrary: i st)
  case (Suc k)
  obtain w where w: "idx (g_workers st) i = Some w" using Suc.prems(1) by (auto split: Option.bind_splits)
  show ?case
  proof (cases "validate_worker_socket (ri_socket_id (g_info st)) (el_lcore_socket el (wi_lcore_id (wc_info w))) < 0")
    case True
    then show ?thesis using Suc.prems w by simp
  next
    case False
    let ?info = "(wc_info w)\<lparr>wi_rx_queue_id := word_of_nat i, wi_tx_queue_id := word_of_nat i\<rparr>"
    obtain infos ws where s: "set_idx (g_workers st) i (w\<lparr>wc_info := ?info, wc_result := 0, wc_launched := False,
         wc_reader_registered := False\<rparr>) = Some ws"
      "assign_queues el (i + 1) k (st\<lparr>g_workers := ws, g_info := (g_info st)\<lparr>ri_workers := infos\<rparr>\<rparr>) = Some (ret, st')"
      using Suc.prems(1) w False by (auto simp: Let_def split: Option.bind_splits)
    have "\<forall>w \<in> set ws. \<not> wc_launched w \<and> \<not> wc_reader_registered w"
      by (intro ballI, rule set_idx_all [OF s(1)]) (use Suc.prems(2) in \<open>auto simp: parked_def\<close>)
    then show ?thesis using Suc.IH [OF s(2)] Suc.prems(2) by (simp add: parked_def)
  qed
qed simp

lemma setup_workers_parked:
  assumes "setup_workers el n st = Some (ret, st')" "parked st"
  shows "parked st'"
proof (cases "n = 0 \<or> unat n > DP_MAX_WORKERS \<or> ri_lcore_count (g_info st) \<noteq> n")
  case True
  then show ?thesis using assms by (simp add: setup_workers_def)
next
  case False
  let ?st = "st\<lparr>g_workers := replicate DP_MAX_WORKERS zero_worker_ctx, g_worker_count := n,
      g_info := (g_info st)\<lparr>ri_worker_count := n\<rparr>\<rparr>"
  obtain ws e next_id ws' where s: "set_idx (replicate DP_MAX_WORKERS zero_worker_ctx) 0
      (zero_worker_ctx\<lparr>wc_info := (wc_info zero_worker_ctx)\<lparr>wi_worker_id := 0, wi_lcore_id := ri_main_lcore (g_info st)\<rparr>\<rparr>) = Some ws"
    "assign_lcores (ri_main_lcore (g_info st)) (unat n) (el_lcores el) 1 ws = Some (e, next_id, ws')"
    and r: "(ret, st') = (case e of Some r \<Rightarrow> r | None \<Rightarrow> - EINVAL, ?st\<lparr>g_workers := ws'\<rparr>) \<or>
      assign_queues el 0 (unat n) (?st\<lparr>g_workers := ws'\<rparr>) = Some (ret, st')"
    using assms(1) False
    by (auto simp: setup_workers_def Let_def idx_eq_Some DP_MAX_WORKERS_def split: Option.bind_splits option.splits if_splits)
  have "\<forall>w \<in> set ws. \<not> wc_launched w \<and> \<not> wc_reader_registered w"
    by (intro ballI, rule set_idx_all [OF s(1)]) (simp_all add: zero_worker_ctx_def)
  from assign_lcores_parked [OF s(2) this] have "parked (?st\<lparr>g_workers := ws'\<rparr>)"
    using False assms(2) by (simp add: parked_def)
  with r show ?thesis using assign_queues_parked by auto
qed

lemma setup_port_parked: "setup_port eo th i st calls = (ret, st', calls') \<Longrightarrow> parked st \<Longrightarrow> parked st'"
  by (auto simp: setup_port_def Let_def parked_def split_beta split: option.splits if_splits)

lemma dp_dataplane_setup_parked:
  assumes "dp_dataplane_setup el eo th rxd txd n st = Some (ret, st', calls)" "parked st"
  shows "parked st'"
proof (cases "\<not> g_initialized st \<or> g_pool st \<noteq> None \<or> g_ready st \<or> \<not> g_rules_configured st \<or> rxd = None \<or> txd = None")
  case True
  then show ?thesis using assms by (auto simp: dp_dataplane_setup_def split: if_splits option.splits)
next
  case False
  then obtain rx tx r1 st1 r2 st2 where s: "setup_workers el n st = Some (r1, st1)" "rxd = Some rx" "txd = Some tx"
    "find_ports eo n rx tx st1 = (r2, st2)"
    and r: "st' = st1 \<or> st' = st2 \<or> claim_ports eo th st2 = (ret, st', calls)"
    using assms(1) by (cases "find_ports eo n (the rxd) (the txd) (snd (the (setup_workers el n st)))")
      (auto simp: dp_dataplane_setup_def split: Option.bind_splits if_splits)
  have 1: "parked st1" by (rule setup_workers_parked [OF s(1) assms(2)])
  have 2: "parked st2" using find_ports_cases [of eo n rx tx st1] s(4) 1 by (auto simp: parked_def)
  have "parked st'" if c: "claim_ports eo th st2 = (ret, st', calls)"
  proof -
    let ?st = "st2\<lparr>g_owned := (g_owned st2)(0 := True, 1 := True), g_info := (g_info st2)\<lparr>ri_rx_port := g_ports st2 0,
        ri_tx_port := g_ports st2 1, ri_nb_mbuf := word_of_nat DP_NB_MBUF, ri_cache_size := word_of_nat DP_CACHE_SIZE\<rparr>,
        g_pool := eo_pool_create eo ''flow_router_pool'' DP_NB_MBUF DP_CACHE_SIZE (ri_socket_id (g_info st2))\<rparr>"
    obtain ra sa ca where a: "setup_port eo th 0 ?st [] = (ra, sa, ca)" by (cases "setup_port eo th 0 ?st []") auto
    obtain rb sb cb where b: "setup_port eo th 1 sa ca = (rb, sb, cb)" by (cases "setup_port eo th 1 sa ca") auto
    have "parked ?st" using 2 by (simp add: parked_def)
    moreover from setup_port_parked [OF a this] have "parked sa" .
    moreover from setup_port_parked [OF b this] have "parked sb" .
    ultimately show ?thesis using c a b
      by (auto simp: claim_ports_def Let_def parked_def split: if_splits)
  qed
  with r 1 2 show ?thesis by blast
qed

end
