(* ===== verification/Dp_Owner.thy ===== *)
theory Dp_Owner
  imports Dp_Serve Dp_Native
begin

text \<open>
  The life cycle of the control plane (\<open>control/dataplane/dataplane.go\<close>): \<open>Start\<close> with its checks, the
  \<open>owner\<close> goroutine from \<open>Init\<close> to \<open>Cleanup\<close>, and \<open>finishLifecycle\<close> over the interface \<open>cleanupAPI\<close>. What
  other goroutines do is an argument: between the owner's steps a function on the handle, while \<open>Run\<close> is
  in progress the passes of the workers.
\<close>

section \<open>Configuration\<close>

record config =
  co_eal_args :: "string list"
  co_rx_device :: string
  co_tx_device :: string
  co_workers :: u64
  co_probe :: bool
  co_rules :: rule_snapshot

datatype config_error =
    Workers_Out_Of_Range
  | Eal_Argument_Nul
  | No_Pci_Missing
  | Bad_Device_Names
  | Device_Name_Nul
  | Static_Rules rules_error

text \<open>The loop over the arguments: whether \<open>--no-pci\<close> is among them.\<close>

fun scan_eal_args :: "bool \<Rightarrow> string list \<Rightarrow> config_error + bool" where
  "scan_eal_args no_pci [] = Inr no_pci"
| "scan_eal_args no_pci (arg # args) =
     (if CHR 0x00 \<in> set arg then Inl Eal_Argument_Nul
      else scan_eal_args (if arg = ''--no-pci'' then True else no_pci) args)"

definition validate_config :: "config \<Rightarrow> config_error option" where
  "validate_config cfg =
     (if co_workers cfg < 1 \<or> co_workers cfg > 4 then Some Workers_Out_Of_Range
      else case scan_eal_args False (co_eal_args cfg) of
        Inl e \<Rightarrow> Some e
      | Inr no_pci \<Rightarrow>
          if \<not> no_pci then Some No_Pci_Missing
          else if \<not> co_probe cfg \<and> (co_rx_device cfg = [] \<or> co_tx_device cfg = [] \<or> co_rx_device cfg = co_tx_device cfg)
          then Some Bad_Device_Names
          else if CHR 0x00 \<in> set (co_rx_device cfg) \<or> CHR 0x00 \<in> set (co_tx_device cfg) then Some Device_Name_Nul
          else case validate_rules (co_rules cfg) of
            Some e \<Rightarrow> Some (Static_Rules e)
          | None \<Rightarrow> None)"

section \<open>The handle\<close>

text \<open>
  \<open>Runtime\<close>: the fields under \<open>rulesMu\<close> with the native state, the C arguments, and the fields the owner
  writes. A channel is whether it is closed.
\<close>

datatype life_error =
    Native_Error native_error
  | Lcore_Mismatch u64 u64
  | Combined life_error life_error

record ('h, 'l, 'q) manager =
  mg_runtime :: "('h, 'l, 'q) runtime"
  mg_arguments :: arguments
  mg_info :: go_info
  mg_stats :: go_stats
  mg_start_err :: "life_error option"
  mg_err :: "life_error option"
  mg_ready :: bool
  mg_done :: bool

definition zero_go_info :: go_info where
  "zero_go_info = \<lparr>gi_initialized = False, gi_main_lcore = 0, gi_lcore_count = 0, gi_version = [], gi_rx_port = 0,
     gi_tx_port = 0, gi_rx_desc = 0, gi_tx_desc = 0, gi_nb_mbuf = 0, gi_cache_size = 0, gi_socket_id = 0, gi_workers = []\<rparr>"

text \<open>What \<open>Start\<close> makes of a configuration, given the native state and the C arguments of the process.\<close>

definition new_manager :: "config \<Rightarrow> ('h, 'l, 'q) dp_state \<Rightarrow> arguments \<Rightarrow> ('h, 'l, 'q) manager" where
  "new_manager cfg st ag = \<lparr>
     mg_runtime = \<lparr>rt_rules = clone_rules (co_rules cfg), rt_generation = 0, rt_open = False, rt_native = st\<rparr>,
     mg_arguments = ag, mg_info = zero_go_info, mg_stats = zero_go_stats, mg_start_err = None, mg_err = None,
     mg_ready = False, mg_done = False\<rparr>"

datatype start_error = Bad_Config config_error | Already_Attempted

text \<open>
  \<open>Start\<close>, up to the \<open>go\<close> statement: the configuration the owner gets, and \<open>lifecycle.attempted\<close>, which
  is \<open>attempted\<close> before.
\<close>

definition start_runtime :: "config \<Rightarrow> bool \<Rightarrow> (start_error + config) \<times> bool" where
  "start_runtime cfg attempted =
     (let cfg = (if co_workers cfg = 0 then cfg\<lparr>co_workers := 1\<rparr> else cfg) in
      case validate_config cfg of
        Some e \<Rightarrow> (Inl (Bad_Config e), attempted)
      | None \<Rightarrow>
          if attempted then (Inl Already_Attempted, attempted)
          else (Inr (cfg\<lparr>co_eal_args := [] @ co_eal_args cfg, co_rules := clone_rules (co_rules cfg)\<rparr>), True))"

section \<open>The end of the life cycle\<close>

fun combine :: "life_error option \<Rightarrow> life_error option \<Rightarrow> life_error option" where
  "combine None next = next"
| "combine first None = first"
| "combine (Some first) (Some next) = Some (Combined first next)"

text \<open>
  \<open>finishLifecycle\<close> over any implementation of \<open>cleanupAPI\<close>, on the state \<open>'s\<close> behind it: the error, the
  statistics and the state it leaves.
\<close>

definition finish_lifecycle ::
  "('s \<Rightarrow> (life_error option \<times> 's) option) \<Rightarrow> ('s \<Rightarrow> (life_error + go_stats) option) \<Rightarrow>
   ('s \<Rightarrow> (life_error option \<times> 's) option) \<Rightarrow> life_error option \<Rightarrow> 's \<Rightarrow>
   (life_error option \<times> go_stats \<times> 's) option" where
  "finish_lifecycle teardown get_stats cleanup run_err s = do {
     (teardown_err, s) \<leftarrow> teardown s;
     got \<leftarrow> get_stats s;
     let (stats, stats_err) = (case got of Inl e \<Rightarrow> (zero_go_stats, Some e) | Inr stats \<Rightarrow> (stats, None));
     let err = combine run_err teardown_err;
     let err = combine err stats_err;
     if teardown_err \<noteq> None then Some (err, stats, s)
     else do {
       (cleanup_err, s) \<leftarrow> cleanup s;
       Some (combine err cleanup_err, stats, s) } }"

text \<open>\<open>nativeCleanupAPI\<close>: the state is that of the C arguments and the native side.\<close>

definition api_teardown ::
  "eth_ops \<Rightarrow> nat \<Rightarrow> arguments \<times> ('h, 'l, 'q) dp_state \<Rightarrow> (life_error option \<times> arguments \<times> ('h, 'l, 'q) dp_state) option" where
  "api_teardown eo t s = do {
     let (ag, st) = s;
     (e, st, calls) \<leftarrow> native_teardown eo t st;
     Some (map_option Native_Error e, ag, st) }"

definition api_get_stats :: "arguments \<times> ('h, 'l, 'q) dp_state \<Rightarrow> (life_error + go_stats) option" where
  "api_get_stats s = map_option (\<lambda>got. case got of Inl e \<Rightarrow> Inl (Native_Error e) | Inr stats \<Rightarrow> Inr stats)
     (native_get_stats (snd s))"

definition api_cleanup ::
  "eal_ops \<Rightarrow> arguments \<times> ('h, 'l, 'q) dp_state \<Rightarrow> (life_error option \<times> arguments \<times> ('h, 'l, 'q) dp_state) option" where
  "api_cleanup el s = do {
     (e, ag, st) \<leftarrow> native_cleanup el (fst s) (snd s);
     Some (map_option Native_Error e, ag, st) }"

section \<open>The owner\<close>

text \<open>
  What the owner meets: DPDK, the injected failures, the outcomes of allocations, and the other goroutines.
  \<open>mc_before\<close> and \<open>mc_after\<close> are what they do to the handle between \<open>close(r.ready)\<close> and \<open>Run\<close>, and after
  \<open>Run\<close>. While \<open>Run\<close> is in progress their calls reach the native state in the workers' passes \<open>mc_polls\<close>;
  \<open>mc_during\<close> is what these calls do to the Go fields.
\<close>

record ('h, 'l, 'q) machine =
  mc_eal :: eal_ops
  mc_eth :: eth_ops
  mc_hooks :: test_hooks
  mc_cksum :: rte_cksum_ops
  mc_qsbr :: "'q qsbr_ops"
  mc_tables :: "('h, 'l) rte_table_ops"
  mc_argv_ok :: bool
  mc_configure :: call_env
  mc_launch_failure :: int
  mc_worker_failure :: int
  mc_register :: "nat \<Rightarrow> nat"
  mc_polls :: "nat \<Rightarrow> ('h, 'l, 'q) poll list"
  mc_teardown :: nat
  mc_before :: "('h, 'l, 'q) runtime \<Rightarrow> ('h, 'l, 'q) runtime"
  mc_during :: "('h, 'l, 'q) runtime \<Rightarrow> ('h, 'l, 'q) runtime"
  mc_after :: "('h, 'l, 'q) runtime \<Rightarrow> ('h, 'l, 'q) runtime"

abbreviation mg_native :: "('h, 'l, 'q) manager \<Rightarrow> ('h, 'l, 'q) dp_state" where
  "mg_native m \<equiv> rt_native (mg_runtime m)"

definition set_native :: "('h, 'l, 'q) dp_state \<Rightarrow> ('h, 'l, 'q) manager \<Rightarrow> ('h, 'l, 'q) manager" where
  "set_native st m = m\<lparr>mg_runtime := (mg_runtime m)\<lparr>rt_native := st\<rparr>\<rparr>"

text \<open>\<open>r.info, err = native.GetInfo()\<close>\<close>

definition read_info :: "('h, 'l, 'q) manager \<Rightarrow> (life_error option \<times> ('h, 'l, 'q) manager) option" where
  "read_info m = do {
     got \<leftarrow> native_get_info (mg_native m);
     (case got of
        Inl e \<Rightarrow> Some (Some (Native_Error e), m\<lparr>mg_info := zero_go_info\<rparr>)
      | Inr info \<Rightarrow> Some (None, m\<lparr>mg_info := info\<rparr>)) }"

text \<open>
  \<open>owner\<close> up to \<open>close(r.ready)\<close>: the error so far and whether the environment layer is initialised. Each
  block is one \<open>if\<close> of the code.
\<close>

definition owner_init ::
  "('h, 'l, 'q) machine \<Rightarrow> config \<Rightarrow> ('h, 'l, 'q) manager \<Rightarrow>
   (life_error option \<times> bool \<times> ('h, 'l, 'q) manager) option" where
  "owner_init mc cfg m = do {
     (e, ag, st) \<leftarrow> native_init (mc_eal mc) (mc_argv_ok mc) (co_eal_args cfg) (mg_arguments m) (mg_native m);
     let m = set_native st (m\<lparr>mg_arguments := ag\<rparr>);
     let err = map_option Native_Error e;
     let initialized = (err = None);
     (err, m) \<leftarrow>
       (if err = None then do {
          (err, m) \<leftarrow> read_info m;
          Some (if err = None \<and> gi_lcore_count (mg_info m) \<noteq> co_workers cfg
            then Some (Lcore_Mismatch (gi_lcore_count (mg_info m)) (co_workers cfg)) else err, m) }
        else Some (err, m));
     Some (err, initialized, m) }"

definition owner_configure ::
  "('h, 'l, 'q) machine \<Rightarrow> config \<Rightarrow> life_error option \<Rightarrow> ('h, 'l, 'q) manager \<Rightarrow>
   (life_error option \<times> ('h, 'l, 'q) manager) option" where
  "owner_configure mc cfg err m =
     (if err = None \<and> \<not> co_probe cfg then do {
        (e, st) \<leftarrow> native_configure_rules (mc_qsbr mc) (mc_tables mc) (mc_configure mc) (to_native_rules (co_rules cfg)) (mg_native m);
        Some (map_option Native_Error e, set_native st m) }
      else Some (err, m))"

definition owner_setup ::
  "('h, 'l, 'q) machine \<Rightarrow> config \<Rightarrow> life_error option \<Rightarrow> ('h, 'l, 'q) manager \<Rightarrow>
   (life_error option \<times> ('h, 'l, 'q) manager) option" where
  "owner_setup mc cfg err m =
     (if err = None \<and> \<not> co_probe cfg then do {
        (e, st, calls) \<leftarrow> native_setup (mc_eal mc) (mc_eth mc) (mc_hooks mc) (co_rx_device cfg) (co_tx_device cfg)
          (co_workers cfg) (mg_native m);
        let m = set_native st m;
        if e = None then read_info m else Some (map_option Native_Error e, m) }
      else Some (err, m))"

definition owner_boot ::
  "('h, 'l, 'q) machine \<Rightarrow> config \<Rightarrow> ('h, 'l, 'q) manager \<Rightarrow>
   (life_error option \<times> bool \<times> ('h, 'l, 'q) manager) option" where
  "owner_boot mc cfg m = do {
     (err, initialized, m) \<leftarrow> owner_init mc cfg m;
     (err, m) \<leftarrow> owner_configure mc cfg err m;
     (err, m) \<leftarrow> owner_setup mc cfg err m;
     let m = (if err = None \<and> \<not> co_probe cfg
       then m\<lparr>mg_runtime := (mg_runtime m)\<lparr>rt_generation := 1, rt_open := True\<rparr>\<rparr> else m);
     Some (err, initialized, m\<lparr>mg_start_err := err, mg_ready := True\<rparr>) }"

definition owner_run ::
  "('h, 'l, 'q) machine \<Rightarrow> config \<Rightarrow> life_error option \<Rightarrow> ('h, 'l, 'q) manager \<Rightarrow> mbuf_heap \<Rightarrow>
   (life_error option \<times> ('h, 'l, 'q) manager \<times> mbuf_heap) option" where
  "owner_run mc cfg err m h =
     (if err = None \<and> \<not> co_probe cfg then do {
        (e, st, h) \<leftarrow> native_run (el_launch (mc_eal mc)) (mc_launch_failure mc)
          (exec_worker (mc_cksum mc) (mc_tables mc) (mc_qsbr mc) (mc_worker_failure mc) (mc_register mc) (mc_polls mc))
          (mg_native m) h;
        Some (map_option Native_Error e, set_native st (m\<lparr>mg_runtime := mc_during mc (mg_runtime m)\<rparr>), h) }
      else Some (err, m, h))"

definition owner_finish ::
  "('h, 'l, 'q) machine \<Rightarrow> bool \<Rightarrow> life_error option \<Rightarrow> ('h, 'l, 'q) manager \<Rightarrow> ('h, 'l, 'q) manager option" where
  "owner_finish mc initialized err m = do {
     (err, m) \<leftarrow>
       (if initialized then do {
          let m = m\<lparr>mg_runtime := (mg_runtime m)\<lparr>rt_open := False\<rparr>\<rparr>;
          (err, stats, ag, st) \<leftarrow> finish_lifecycle (api_teardown (mc_eth mc) (mc_teardown mc)) api_get_stats
            (api_cleanup (mc_eal mc)) err (mg_arguments m, mg_native m);
          Some (err, set_native st (m\<lparr>mg_arguments := ag, mg_stats := stats\<rparr>)) }
        else Some (err, m));
     Some (m\<lparr>mg_err := err, mg_done := True\<rparr>) }"

definition owner ::
  "('h, 'l, 'q) machine \<Rightarrow> config \<Rightarrow> ('h, 'l, 'q) manager \<Rightarrow> mbuf_heap \<Rightarrow> (('h, 'l, 'q) manager \<times> mbuf_heap) option" where
  "owner mc cfg m h = do {
     (err, initialized, m) \<leftarrow> owner_boot mc cfg m;
     let m = m\<lparr>mg_runtime := mc_before mc (mg_runtime m)\<rparr>;
     (err, m, h) \<leftarrow> owner_run mc cfg err m h;
     let m = m\<lparr>mg_runtime := mc_after mc (mg_runtime m)\<rparr>;
     m \<leftarrow> owner_finish mc initialized err m;
     Some (m, h) }"

text \<open>
  A step of another goroutine on the handle once \<open>ready\<close> is closed: a rule call that returns, or \<open>Stop\<close>.
\<close>

inductive managed ::
  "'q qsbr_ops \<Rightarrow> ('h, 'l) rte_table_ops \<Rightarrow> ('h, 'l, 'q) runtime \<Rightarrow> ('h, 'l, 'q) runtime \<Rightarrow> bool" for qs ops where
  managed_call: "perform qs ops ce call r = Some (Returned err r') \<Longrightarrow> managed qs ops r r'"
| managed_stop: "managed qs ops r (r\<lparr>rt_native := dp_dataplane_request_stop (rt_native r)\<rparr>)"

section \<open>What the rule operations do to the workers\<close>

text \<open>Everything the run depends on is as it was.\<close>

definition workers_kept :: "('h, 'l, 'q) dp_state \<Rightarrow> ('h, 'l, 'q) dp_state \<Rightarrow> bool" where
  "workers_kept st st' \<longleftrightarrow> same_fleet st st' \<and> head_count st' = head_count st \<and> g_running st' = g_running st \<and> rules_only st st'"

lemma workers_kept_refl: "workers_kept st st"
  by (simp add: workers_kept_def same_fleet_def rules_only_refl)

lemma publish_workers_kept:
  assumes "\<And>t. 0 \<le> rte_errno ops t" "array_arg flows nf" "array_arg routes nr" "rules_inv tv st"
    and "dp_publish_rules qs ops t reports flows nf routes nr generation st = Some (Returned r st')"
  shows "workers_kept st st' \<and> (g_active_rules st \<noteq> None \<longrightarrow> g_active_rules st' \<noteq> None) \<and>
    (qsbr_laws qs qv \<longrightarrow> readers qv st = Some {} \<longrightarrow> readers qv st' = Some {})"
proof (cases "generation = None")
  case True
  then show ?thesis using assms(5) workers_kept_refl by (simp add: dp_publish_rules_def)
next
  case False
  note only = publish_rules_only [OF assms]
  from dp_publish_rules_cases [OF assms(1-4) False, of qs t reports] show ?thesis
  proof (elim disjE exE conjE)
    fix s old q token q1
    assume q: "g_rules_qsbr st = Some q" "qsbr_start qs q = (token, q1)"
      and p: "dp_publish_rules qs ops t reports flows nf routes nr generation st =
         Some (case await_grace qs token reports q1 of
           None \<Rightarrow> Still_Waiting ((publish_enter st)\<lparr>g_active_rules := Some s, g_rules_qsbr := Some q1,
             g_live := g_live st + snapshot_objs s, g_stats := count_published (g_stats st)\<rparr>)
         | Some q2 \<Rightarrow> Returned (0, Some (st_rules_generation (g_stats st) + 1)) (published old q2 s st))"
    then obtain q2 where q2: "await_grace qs token reports q1 = Some q2" "st' = published old q2 s st"
      using assms(5) by (auto split: option.splits)
    have "qs_inv qv q2 \<and> qs_online qv q2 = {}" if "qsbr_laws qs qv" "readers qv st = Some {}"
    proof -
      have i: "qs_inv qv q" "qs_online qv q = {}" using that(2) q(1) by (auto simp: readers_def split: if_splits)
      have "qs_inv qv q1" "qs_online qv q1 = {}" "qs_waits qv q1 = {}" "qs_token qv q1 = token"
        using qsbr_laws.start_law [OF that(1) i(1) q(2)] i(2) by simp_all
      moreover from this have "q2 = q1"
        using qsbr_laws.check_law [OF that(1), of q1] q2(1) by (cases reports) simp_all
      ultimately show ?thesis by simp
    qed
    then show ?thesis using q2(2) only by (auto simp: published_def workers_kept_def same_fleet_def head_count_def readers_def)
  qed (use assms(5) only in \<open>auto simp: workers_kept_def same_fleet_def head_count_def readers_def on_stats_def\<close>)
qed

lemma native_publish_native:
  assumes "native_publish_rules qs ops ce (to_native_rules s) st = Some (Returned r st')"
  shows "st' = st \<or> meanwhile qs ops st st'"
proof (cases rule: disjE [OF arrays_cases [of "ce_flows_ok ce" "ce_routes_ok ce" s]])
  case 1
  then show ?thesis using assms by (auto simp: native_publish_rules_def)
next
  case 2
  then obtain live where l: "new_rule_arrays (ce_flows_ok ce) (ce_routes_ok ce) (ns_flows (to_native_rules s)) (ns_routes (to_native_rules s)) =
      Some (Inr \<lparr>ar_flows = arg_of (flows_of s), ar_routes = arg_of (routes_of s)\<rparr>, live)" "fits s"
      "release_arrays \<lparr>ar_flows = arg_of (flows_of s), ar_routes = arg_of (routes_of s)\<rparr> live = Some []" by blast
  then obtain x where "dp_publish_rules qs ops (ce_time ce) (ce_reports ce) (arg_of (flows_of s)) (word_of_nat (length (rs_flows s)))
      (arg_of (routes_of s)) (word_of_nat (length (rs_routes s))) (Some 0) st = Some (Returned x st')"
    using assms by (auto simp: native_publish_rules_def split: Option.bind_splits publish_outcome.splits prod.splits)
  from mw_publish [OF fits_args(1,2) [OF l(2)] this] show ?thesis by blast
qed

lemma publish_locked_native:
  "publish_snapshot_locked qs ops ce s r = Some (Returned err r') \<Longrightarrow>
     rt_native r' = rt_native r \<or> meanwhile qs ops (rt_native r) (rt_native r')"
  using native_publish_native [of qs ops ce s "rt_native r"]
  by (auto simp: publish_snapshot_locked_def Let_def split: if_splits Option.bind_splits publish_outcome.splits option.splits)

lemma perform_native:
  assumes "perform qs ops ce call r = Some (Returned err r')"
  shows "rt_native r' = rt_native r \<or> meanwhile qs ops (rt_native r) (rt_native r')"
proof -
  have "r' = r \<or> (\<exists>s. publish_snapshot_locked qs ops ce s r = Some (Returned err r'))"
    using assms by (cases call)
      (auto simp: replace_rules_def add_flow_def delete_flow_def add_route_def delete_route_def Let_def split: option.splits if_splits)
  then show ?thesis using publish_locked_native by blast
qed

lemma managed_native: "managed qs ops r r' \<Longrightarrow> (meanwhile qs ops)\<^sup>*\<^sup>* (rt_native r) (rt_native r')"
  by (induction rule: managed.induct) (auto dest!: perform_native intro: mw_stop)

lemma managed_many: "(managed qs ops)\<^sup>*\<^sup>* r r' \<Longrightarrow> (meanwhile qs ops)\<^sup>*\<^sup>* (rt_native r) (rt_native r')"
  by (induction rule: rtranclp_induct) (auto dest: managed_native)

section \<open>The native side between the owner's steps\<close>

text \<open>Initialised and with no worker at work; and, in service, ready for the one run with \<open>n\<close> workers.\<close>

definition at_rest :: "('h, 'l) table_view \<Rightarrow> ('h, 'l, 'q) dp_state \<Rightarrow> bool" where
  "at_rest tv st \<longleftrightarrow> life_inv tv st \<and> g_initialized st \<and> \<not> g_running st \<and> all_idle st"

definition in_service :: "('h, 'l) table_view \<Rightarrow> 'q qsbr_view \<Rightarrow> nat \<Rightarrow> ('h, 'l, 'q) dp_state \<Rightarrow> bool" where
  "in_service tv qv n st \<longleftrightarrow> at_rest tv st \<and> g_ready st \<and> \<not> g_ran st \<and> fleet tv qv n st"

context process_env
begin

lemma meanwhile_kept:
  assumes "meanwhile qs ops st st'" "life_inv tv st"
  shows "life_inv tv st' \<and> workers_kept st st' \<and> (g_active_rules st \<noteq> None \<longrightarrow> g_active_rules st' \<noteq> None) \<and>
    (qsbr_laws qs qv \<longrightarrow> readers qv st = Some {} \<longrightarrow> readers qv st' = Some {})"
  using assms(1)
proof (cases rule: meanwhile.cases)
  case (mw_publish flows nf routes nr t reports generation r)
  have "rules_inv tv st" using assms(2) by (simp add: life_inv_def)
  from publish_workers_kept [OF errno_law mw_publish(1,2) this mw_publish(3)] life_inv_meanwhile [OF assms]
  show ?thesis by blast
next
  case mw_stop
  then show ?thesis using life_inv_meanwhile [OF assms]
    by (simp add: workers_kept_def same_fleet_def head_count_def readers_def rules_only_def dp_dataplane_request_stop_def)
qed

lemma kept_at_rest: "at_rest tv st \<Longrightarrow> life_inv tv st' \<Longrightarrow> workers_kept st st' \<Longrightarrow> at_rest tv st'"
  by (simp add: at_rest_def workers_kept_def same_fleet_def head_count_def rules_only_def all_idle_def)

lemma meanwhile_at_rest: "(meanwhile qs ops)\<^sup>*\<^sup>* st st' \<Longrightarrow> at_rest tv st \<Longrightarrow> at_rest tv st'"
proof (induction rule: rtranclp_induct)
  case (step s s')
  then have "at_rest tv s" by blast
  moreover from this have "life_inv tv s" by (simp add: at_rest_def)
  ultimately show ?case using meanwhile_kept [OF step(2)] kept_at_rest by blast
qed

lemma meanwhile_in_service:
  assumes "qsbr_laws qs qv"
  shows "(meanwhile qs ops)\<^sup>*\<^sup>* st st' \<Longrightarrow> in_service tv qv n st \<Longrightarrow> in_service tv qv n st'"
proof (induction rule: rtranclp_induct)
  case (step s s')
  then have s: "at_rest tv s" "g_ready s" "\<not> g_ran s" "fleet tv qv n s" "life_inv tv s" by (auto simp: in_service_def at_rest_def)
  have "g_active_rules s \<noteq> None" using s(2,5) by (auto simp: life_inv_def rules_inv_def)
  then have k: "life_inv tv s'" "workers_kept s s'" "g_active_rules s' \<noteq> None" "readers qv s' = Some {}"
    using meanwhile_kept [OF step(2) s(5), of qv] assms s(4) by (auto simp: fleet_def)
  have "rules_live tv s'" using k(1,3) by (auto simp: life_inv_def rules_inv_def rules_live_def represents_def)
  then have "fleet tv qv n s'" using s(4) k(2,4) by (simp add: fleet_def workers_kept_def same_fleet_def)
  with kept_at_rest [OF s(1) k(1,2)] s k(2) show ?case
    by (simp add: in_service_def workers_kept_def same_fleet_def rules_only_def)
qed

end

section \<open>The owner's steps\<close>

lemma parked_idle: "parked st \<Longrightarrow> all_idle st"
  by (auto simp: parked_def all_idle_def dest: in_set_takeD)

lemma parked_kept: "parked st \<Longrightarrow> workers_kept st st' \<Longrightarrow> parked st'"
  by (simp add: parked_def workers_kept_def same_fleet_def head_count_def rules_only_def)

lemma configure_workers_kept:
  assumes e: "\<And>t. 0 \<le> rte_errno ops t" and arr: "array_arg flows nf" "array_arg routes nr"
    and run: "dp_configure_rules qs ops t flows nf routes nr st = Some (ret, st')"
  shows "workers_kept st st' \<and> (qsbr_laws qs qv \<longrightarrow> g_rules_qsbr st = None \<longrightarrow> ret = 0 \<longrightarrow> readers qv st' = Some {})"
proof (cases "g_initialized st \<and> \<not> (g_rules_configured st \<or> g_ready st \<or> g_running st \<or> g_ran st)")
  case False
  then have "st' = st \<and> ret \<noteq> 0" using run by (auto simp: dp_configure_rules_def errno_simps split: if_splits)
  then show ?thesis by (simp add: workers_kept_refl)
next
  case True
  note only = configure_rules_only [OF assms, THEN conjunct1]
  have snap: "same_fleet st1 st' \<and> head_count st' = head_count st1 \<and> g_running st' = g_running st1 \<and> g_rules_qsbr st' = g_rules_qsbr st1"
    if c: "configure_snapshot ops (t + 3) flows nf routes nr st1 = Some (ret, st')" for st1
    using dp_snapshot_build_cases [OF e arr, of "t + 3" 1 st1] c
    by (auto simp: configure_snapshot_def same_fleet_def head_count_def on_stats_def)
  from dp_qsbr_create_cases [OF e, of qs t st] show ?thesis
  proof (elim disjE exE conjE)
    fix q t' n
    assume c: "dp_qsbr_create qs ops t st = Some (0, st\<lparr>g_live := add_mset Obj_Qsbr (g_live st), g_rules_qsbr := Some q\<rparr>)"
      and i: "qsbr_init qs t' n = (0, q)"
    have "configure_snapshot ops (t + 3) flows nf routes nr
        (st\<lparr>g_live := add_mset Obj_Qsbr (g_live st), g_rules_qsbr := Some q\<rparr>) = Some (ret, st')"
      using run True c by (simp add: dp_configure_rules_def)
    from snap [OF this] only qsbr_laws.init_law [of qs qv, OF _ i] show ?thesis
      by (auto simp: workers_kept_def same_fleet_def head_count_def readers_def)
  next
    assume "dp_qsbr_create qs ops t st = Some (0, st)" "g_rules_qsbr st \<noteq> None"
    then show ?thesis using run True snap [of st] only by (auto simp: dp_configure_rules_def workers_kept_def)
  next
    fix r
    assume "dp_qsbr_create qs ops t st = Some (r, st)" "r < 0"
    then have "st' = st \<and> ret \<noteq> 0" using run True by (auto simp: dp_configure_rules_def)
    then show ?thesis by (simp add: workers_kept_refl)
  qed
qed

text \<open>The states before set-up.\<close>

definition booting :: "('h, 'l) table_view \<Rightarrow> ('h, 'l, 'q) dp_state \<Rightarrow> bool" where
  "booting tv st \<longleftrightarrow> at_rest tv st \<and> parked st \<and> \<not> g_ran st"

lemma booting_init:
  assumes "0 \<le> el_errno el" "dp_runtime_init el argc argv dp_start = (ret, st)"
  shows "life_inv tv st \<and> (ret = 0 \<longrightarrow> booting tv st \<and> g_rules_qsbr st = None) \<and> (ret \<noteq> 0 \<longrightarrow> \<not> g_initialized st)"
proof -
  note c = dp_runtime_init_cases [OF assms]
  have inv: "life_inv tv st" by (rule life_inv_init [OF assms(1) life_inv_start assms(2)])
  show ?thesis
  proof (cases "ret < 0")
    case True
    then show ?thesis using c inv by (auto simp: dp_start_def)
  next
    case False
    have "ri_worker_count (g_info st) = 0"
      using False assms(2) by (auto simp: dp_runtime_init_def Let_def dp_start_def zero_info_def errno_simps split: if_splits option.splits)
    moreover obtain i where "ret = 0" "st = dp_start\<lparr>g_attempted := True, g_initialized := True, g_info := i\<rparr>" using False c by auto
    ultimately have "parked st" "g_initialized st" "\<not> g_running st" "\<not> g_ran st" "g_rules_qsbr st = None"
      by (simp_all add: parked_def dp_start_def zero_worker_ctx_def)
    then show ?thesis using inv \<open>ret = 0\<close> parked_idle by (auto simp: booting_def at_rest_def)
  qed
qed

context rte_table_laws
begin

lemma native_configure_runs:
  assumes boot: "booting tv st" "g_rules_qsbr st = None" and qsbr: "qsbr_laws qs qv" and valid: "validate_rules s = None"
  shows "\<exists>e st'. native_configure_rules qs ops ce (to_native_rules s) st = Some (e, st') \<and> booting tv st' \<and> workers_kept st st' \<and>
    (e = None \<longrightarrow> readers qv st' = Some {} \<and> st_rules_generation (g_stats st') = 1 \<and>
      (\<exists>x. g_active_rules st' = Some x \<and> snapshot_repr tv (flows_of s) (routes_of s) x))"
proof (cases rule: disjE [OF arrays_cases [of "ce_flows_ok ce" "ce_routes_ok ce" s]])
  case 1
  then show ?thesis using boot(1) workers_kept_refl by (auto simp: native_configure_rules_def)
next
  case 2
  have fit: "fits s" by (rule valid_fits [OF valid])
  note args = fits_args [OF fit]
  obtain live where l: "new_rule_arrays (ce_flows_ok ce) (ce_routes_ok ce) (ns_flows (to_native_rules s)) (ns_routes (to_native_rules s)) =
      Some (Inr \<lparr>ar_flows = arg_of (flows_of s), ar_routes = arg_of (routes_of s)\<rparr>, live)"
      "release_arrays \<lparr>ar_flows = arg_of (flows_of s), ar_routes = arg_of (routes_of s)\<rparr> live = Some []"
    using 2 by blast
  have inv: "life_inv tv st" "rules_inv tv st" using boot(1) by (auto simp: booting_def at_rest_def life_inv_def)
  obtain ret st' where c: "dp_configure_rules qs ops (ce_time ce) (arg_of (flows_of s)) (word_of_nat (length (rs_flows s)))
      (arg_of (routes_of s)) (word_of_nat (length (rs_routes s))) st = Some (ret, st')"
    "if ret = 0 then (\<exists>x. g_active_rules st' = Some x \<and> snapshot_repr tv (flows_of s) (routes_of s) x) \<and>
       st_rules_generation (g_stats st') = 1 else ret < 0"
    using dp_configure_rules_cases [OF args(1,2) inv(2), of qs "ce_time ce"] args(3,4) by (fastforce split: if_splits)
  have k: "workers_kept st st'" "ret = 0 \<longrightarrow> readers qv st' = Some {}"
    using configure_workers_kept [OF errno_law args(1,2) c(1), of qv] qsbr boot(2) by simp_all
  moreover have "life_inv tv st'" by (rule life_inv_configure [OF inv(1) args(1,2) c(1)])
  moreover have "parked st'" using parked_kept boot(1) k(1) by (auto simp: booting_def)
  ultimately have "booting tv st'" using boot(1) parked_idle
    by (auto simp: booting_def at_rest_def workers_kept_def same_fleet_def rules_only_def)
  then show ?thesis using l c k by (auto simp: native_configure_rules_def native_status_def)
qed

end

context process_env
begin

lemma native_setup_runs:
  assumes boot: "booting tv st" "readers qv st = Some {}" "g_active_rules st = Some x"
  shows "\<exists>e st' calls. native_setup el eo th rxd txd n st = Some (e, st', calls) \<and> rules_frame st st' \<and> at_rest tv st' \<and> parked st' \<and>
    (e = None \<longrightarrow> in_service tv qv (unat (ucast n :: u32)) st')"
proof -
  have inv: "life_inv tv st" "ports_inv st" using boot(1) by (auto simp: booting_def at_rest_def life_inv_def)
  obtain ret st' calls where s: "dp_dataplane_setup el eo th (Some (c_string rxd)) (Some (c_string txd)) (ucast n) st = Some (ret, st', calls)"
    "ret \<le> 0" "runs_frame st st'"
    "ret = 0 \<longrightarrow> g_ready st' \<and> workers_fit el (ucast n) st \<and> g_worker_count st' = ucast n \<and>
       (\<exists>s. workers_ready el (ucast n) st s \<and> g_workers st' = g_workers s)"
    using dp_dataplane_setup_cases [OF inv(2), of el th "Some (c_string rxd)" "Some (c_string txd)" "ucast n"] by blast
  have inv': "life_inv tv st'" by (rule life_inv_setup [OF inv(1) s(1)])
  have parked: "parked st'" using dp_dataplane_setup_parked [OF s(1)] boot(1) by (simp add: booting_def)
  have rest: "at_rest tv st'" "\<not> g_ran st'"
    using inv' parked_idle [OF parked] boot(1) s(3) by (auto simp: at_rest_def booting_def runs_frame_def)
  have "fleet tv qv (unat (ucast n :: u32)) st'" if "ret = 0"
  proof -
    have w: "ucast n \<noteq> (0 :: u32)" "unat (ucast n :: u32) \<le> DP_MAX_WORKERS" "g_worker_count st' = ucast n"
      "\<exists>s. workers_ready el (ucast n) st s \<and> g_workers st' = g_workers s"
      using s(4) that by (simp_all add: workers_fit_def)
    then obtain ls where ws: "g_workers st' = map (\<lambda>i. fresh_worker i (ls ! i)) [0..<unat (ucast n :: u32)] @
        replicate (DP_MAX_WORKERS - unat (ucast n :: u32)) zero_worker_ctx" by (auto simp: workers_ready_def Let_def)
    have "readers qv st' = Some {}" "g_active_rules st' = Some x" using boot(2,3) s(3) by (simp_all add: runs_frame_def rules_frame_def readers_def)
    moreover from this have "rules_live tv st'" using inv' by (auto simp: life_inv_def rules_inv_def rules_live_def represents_def)
    moreover have "unat (wi_worker_id (wc_info (fresh_worker i l))) = i \<and> balanced (wc_stats (fresh_worker i l)) \<and> \<not> wc_reader_registered (fresh_worker i l)"
      if "i < unat (ucast n :: u32)" for i l
      using that w(2) zero_stats_balanced
      by (simp add: fresh_worker_def worker_info_of_def zero_worker_ctx_def DP_MAX_WORKERS_def unat_of_nat)
    ultimately show ?thesis using w(1-3) ws by (simp add: fleet_def Let_def nth_append unat_gt_0)
  qed
  then show ?thesis using s rest parked by (auto simp: native_setup_def native_status_def in_service_def runs_frame_def)
qed

end

lemma validate_config_None:
  "validate_config cfg = None \<Longrightarrow> co_workers cfg \<noteq> 0 \<and> co_workers cfg \<le> 4 \<and> validate_rules (co_rules cfg) = None"
  by (auto simp: validate_config_def not_less split: if_splits sum.splits option.splits)

lemma start_runtime_handle:
  "start_runtime cfg attempted = (Inr cfg', attempted') \<Longrightarrow> validate_config cfg' = None \<and> \<not> attempted \<and> attempted'"
  by (auto simp: start_runtime_def Let_def split: option.splits if_splits)

lemma workers_count: "n \<noteq> 0 \<Longrightarrow> n \<le> 4 \<Longrightarrow> unat (ucast (n :: u64) :: u32) = unat n \<and> 0 < unat n"
proof -
  assume n: "n \<noteq> 0" "n \<le> 4"
  have "unat n \<le> 4" using n(2) by (simp add: word_le_nat_alt)
  moreover have "0 < unat n" using n(1) by (simp add: unat_gt_0)
  ultimately show ?thesis by (simp add: unsigned_ucast_eq take_bit_nat_eq_self)
qed

lemma combine_None [simp]: "combine a b = None \<longleftrightarrow> a = None \<and> b = None"
  by (cases a; cases b) simp_all

text \<open>A handle while the owner boots: publication is closed and the rules are those of the configuration.\<close>

definition closed_handle :: "config \<Rightarrow> ('h, 'l, 'q) manager \<Rightarrow> bool" where
  "closed_handle cfg m \<longleftrightarrow> arguments_ok (mg_arguments m) \<and> rt_rules (mg_runtime m) = co_rules cfg \<and>
     \<not> rt_open (mg_runtime m)"

lemma closed_handle_set [simp]:
  "closed_handle cfg (set_native st m) = closed_handle cfg m" "mg_native (set_native st m) = st"
  "closed_handle cfg (m\<lparr>mg_info := i\<rparr>) = closed_handle cfg m"
  by (simp_all add: closed_handle_def set_native_def)

lemma read_info_runs:
  assumes "parked st" "ports_inv st" "g_initialized st" "mg_native m = st"
  shows "\<exists>info. read_info m = Some (None, m\<lparr>mg_info := info\<rparr>) \<and> gi_lcore_count info = ucast (ri_lcore_count (g_info st))"
  using native_get_info_runs [of st] assms by (auto simp: read_info_def parked_def ports_inv_def)

context process_env
begin

lemma owner_init_runs:
  fixes mc :: "('h, 'l, 'q) machine"
  assumes "mc_eal mc = el"
  shows "\<exists>err initialized m. owner_init mc cfg (new_manager cfg dp_start arguments_start) = Some (err, initialized, m) \<and>
    closed_handle cfg m \<and> life_inv tv (mg_native m) \<and> (\<not> initialized \<longrightarrow> err \<noteq> None \<and> \<not> g_initialized (mg_native m)) \<and>
    (initialized \<longrightarrow> booting tv (mg_native m) \<and> g_rules_qsbr (mg_native m) = None)"
proof -
  let ?m = "new_manager cfg dp_start arguments_start"
  obtain e ag and st :: "('h, 'l, 'q) dp_state" where n: "native_init el (mc_argv_ok mc) (co_eal_args cfg) arguments_start dp_start = Some (e, ag, st)" "arguments_ok ag"
    and c: "\<exists>argc argv ret. st = dp_start \<and> e \<noteq> None \<or> dp_runtime_init el argc argv dp_start = (ret, st) \<and> e = native_status ret"
    using native_init_cases [OF eal_errno] by blast
  have "life_inv tv st \<and> (e = None \<longrightarrow> booting tv st \<and> g_rules_qsbr st = None) \<and> (e \<noteq> None \<longrightarrow> \<not> g_initialized st)"
    using c
  proof (elim exE disjE conjE)
    fix argc argv ret
    assume "dp_runtime_init el argc argv dp_start = (ret, st)" "e = native_status ret"
    with booting_init [OF eal_errno this(1), of tv] show ?thesis by (simp add: native_status_def split: if_splits)
  next
    assume "st = dp_start" "e \<noteq> None"
    moreover have "\<not> g_initialized (dp_start :: ('h, 'l, 'q) dp_state)" by (simp add: dp_start_def)
    ultimately show ?thesis using life_inv_start by auto
  qed
  note inv = this [THEN conjunct1] this [THEN conjunct2, THEN conjunct1] this [THEN conjunct2, THEN conjunct2]
  show ?thesis
  proof (cases "e = None")
    case True
    then have "parked st" "ports_inv st" "g_initialized st"
      using inv(2) by (auto simp: booting_def at_rest_def life_inv_def)
    then obtain info where "read_info (set_native st (?m\<lparr>mg_arguments := ag\<rparr>)) =
        Some (None, (set_native st (?m\<lparr>mg_arguments := ag\<rparr>))\<lparr>mg_info := info\<rparr>)"
      using read_info_runs [of st "set_native st (?m\<lparr>mg_arguments := ag\<rparr>)"] by auto
    with True n inv assms show ?thesis
      by (auto simp: owner_init_def new_manager_def closed_handle_def set_native_def)
  next
    case False
    with n inv assms show ?thesis
      by (auto simp: owner_init_def new_manager_def closed_handle_def set_native_def)
  qed
qed

lemma owner_configure_runs:
  assumes "mc_qsbr mc = qs" "mc_tables mc = ops" "validate_rules (co_rules cfg) = None" "qsbr_laws qs qv"
    and "closed_handle cfg m" "booting tv (mg_native m)" "g_rules_qsbr (mg_native m) = None"
  shows "\<exists>err' m'. owner_configure mc cfg err m = Some (err', m') \<and> closed_handle cfg m' \<and> booting tv (mg_native m') \<and>
    (err \<noteq> None \<longrightarrow> err' \<noteq> None) \<and>
    (err' = None \<and> \<not> co_probe cfg \<longrightarrow> readers qv (mg_native m') = Some {} \<and> st_rules_generation (g_stats (mg_native m')) = 1 \<and>
      (\<exists>x. g_active_rules (mg_native m') = Some x \<and> snapshot_repr tv (flows_of (co_rules cfg)) (routes_of (co_rules cfg)) x))"
proof (cases "err = None \<and> \<not> co_probe cfg")
  case True
  obtain e st where "native_configure_rules qs ops (mc_configure mc) (to_native_rules (co_rules cfg)) (mg_native m) = Some (e, st)"
    "booting tv st" "e = None \<longrightarrow> readers qv st = Some {} \<and> st_rules_generation (g_stats st) = 1 \<and>
      (\<exists>x. g_active_rules st = Some x \<and> snapshot_repr tv (flows_of (co_rules cfg)) (routes_of (co_rules cfg)) x)"
    using native_configure_runs [OF assms(6,7,4,3)] by blast
  with True assms(1,2,5) show ?thesis by (auto simp: owner_configure_def)
next
  case False
  then show ?thesis using assms(5,6) by (auto simp: owner_configure_def)
qed

lemma owner_setup_runs:
  assumes "mc_eal mc = el" "mc_eth mc = eo" "closed_handle cfg m" "booting tv (mg_native m)"
    and "err = None \<and> \<not> co_probe cfg \<longrightarrow> readers qv (mg_native m) = Some {} \<and> g_active_rules (mg_native m) \<noteq> None"
  shows "\<exists>err' m'. owner_setup mc cfg err m = Some (err', m') \<and> closed_handle cfg m' \<and> at_rest tv (mg_native m') \<and>
    rules_frame (mg_native m) (mg_native m') \<and> (err \<noteq> None \<longrightarrow> err' \<noteq> None) \<and>
    (err' = None \<and> \<not> co_probe cfg \<longrightarrow> in_service tv qv (unat (ucast (co_workers cfg) :: u32)) (mg_native m'))"
proof (cases "err = None \<and> \<not> co_probe cfg")
  case True
  then obtain x where x: "readers qv (mg_native m) = Some {}" "g_active_rules (mg_native m) = Some x" using assms(5) by auto
  obtain e st calls where s: "native_setup el eo (mc_hooks mc) (co_rx_device cfg) (co_tx_device cfg) (co_workers cfg) (mg_native m) =
      Some (e, st, calls)" "rules_frame (mg_native m) st" "at_rest tv st" "parked st"
      "e = None \<longrightarrow> in_service tv qv (unat (ucast (co_workers cfg) :: u32)) st"
    using native_setup_runs [OF assms(4) x] by blast
  obtain info where "read_info (set_native st m) = Some (None, (set_native st m)\<lparr>mg_info := info\<rparr>)"
    using read_info_runs [OF s(4), of "set_native st m"] s(3) by (auto simp: at_rest_def life_inv_def)
  with True s assms(1-3) show ?thesis by (cases e) (auto simp: owner_setup_def set_native_def closed_handle_def)
next
  case False
  then show ?thesis using assms(3,4) by (auto simp: owner_setup_def booting_def rules_frame_def)
qed

text \<open>The whole boot: the handle opens exactly on success, and then in step with the native side.\<close>

lemma owner_boot_runs:
  assumes mc: "mc_eal mc = el" "mc_eth mc = eo" "mc_qsbr mc = qs" "mc_tables mc = ops"
    and qsbr: "qsbr_laws qs qv" and valid: "validate_config cfg = None"
  shows "\<exists>err initialized m. owner_boot mc cfg (new_manager cfg dp_start arguments_start) = Some (err, initialized, m) \<and>
    arguments_ok (mg_arguments m) \<and> mg_ready m \<and> mg_start_err m = err \<and> rt_rules (mg_runtime m) = co_rules cfg \<and>
    life_inv tv (mg_native m) \<and> (rt_open (mg_runtime m) \<longleftrightarrow> err = None \<and> \<not> co_probe cfg) \<and> in_step tv (mg_runtime m) \<and>
    (if initialized then at_rest tv (mg_native m) else err \<noteq> None \<and> \<not> g_initialized (mg_native m)) \<and>
    (err = None \<and> \<not> co_probe cfg \<longrightarrow> rt_generation (mg_runtime m) = 1 \<and>
      in_service tv qv (unat (co_workers cfg)) (mg_native m))"
proof -
  note v = validate_config_None [OF valid]
  note n = workers_count [of "co_workers cfg"]
  obtain e0 initialized m0 where i: "owner_init mc cfg (new_manager cfg dp_start arguments_start) = Some (e0, initialized, m0)"
    "closed_handle cfg m0" "life_inv tv (mg_native m0)" "\<not> initialized \<longrightarrow> e0 \<noteq> None \<and> \<not> g_initialized (mg_native m0)"
    "initialized \<longrightarrow> booting tv (mg_native m0) \<and> g_rules_qsbr (mg_native m0) = None"
    using owner_init_runs [OF mc(1)] by blast
  show ?thesis
  proof (cases initialized)
    case False
    then obtain e where "e0 = Some e" "\<not> g_initialized (mg_native m0)" using i(4) by auto
    then show ?thesis using False i(1-3)
      by (auto simp: owner_boot_def owner_configure_def owner_setup_def closed_handle_def in_step_def life_inv_def)
  next
    case True
    then have b: "booting tv (mg_native m0)" "g_rules_qsbr (mg_native m0) = None" using i(5) by simp_all
    obtain e1 m1 where c: "owner_configure mc cfg e0 m0 = Some (e1, m1)" "closed_handle cfg m1" "booting tv (mg_native m1)"
      "e1 = None \<and> \<not> co_probe cfg \<longrightarrow> readers qv (mg_native m1) = Some {} \<and> st_rules_generation (g_stats (mg_native m1)) = 1 \<and>
        (\<exists>x. g_active_rules (mg_native m1) = Some x \<and> snapshot_repr tv (flows_of (co_rules cfg)) (routes_of (co_rules cfg)) x)"
      using owner_configure_runs [OF mc(3,4) _ qsbr i(2) b] v by blast
    have "e1 = None \<and> \<not> co_probe cfg \<longrightarrow> readers qv (mg_native m1) = Some {} \<and> g_active_rules (mg_native m1) \<noteq> None"
      using c(4) by auto
    from owner_setup_runs [OF mc(1,2) c(2,3) this] obtain e2 m2 where s: "owner_setup mc cfg e1 m1 = Some (e2, m2)" "closed_handle cfg m2" "at_rest tv (mg_native m2)"
      "rules_frame (mg_native m1) (mg_native m2)" "e1 \<noteq> None \<longrightarrow> e2 \<noteq> None"
      "e2 = None \<and> \<not> co_probe cfg \<longrightarrow> in_service tv qv (unat (ucast (co_workers cfg) :: u32)) (mg_native m2)"
      by (elim exE conjE) (rule that)
    have inv: "life_inv tv (mg_native m2)" "rules_inv tv (mg_native m2)" using s(3) by (auto simp: at_rest_def life_inv_def)
    show ?thesis
    proof (cases "e2 = None \<and> \<not> co_probe cfg")
      case True
      then have "e1 = None" using s(5) by blast
      then have "st_rules_generation (g_stats (mg_native m2)) = 1"
        "\<exists>x. g_active_rules (mg_native m2) = Some x \<and> snapshot_repr tv (flows_of (co_rules cfg)) (routes_of (co_rules cfg)) x"
        using True c(4) s(4) by (simp_all add: rules_frame_def)
      then show ?thesis using True \<open>initialized\<close> i(1) c(1) s inv v n
        by (auto simp: owner_boot_def closed_handle_def in_step_def)
    next
      case False
      then show ?thesis using \<open>initialized\<close> i(1) c(1) s inv
        by (auto simp: owner_boot_def closed_handle_def in_step_def)
    qed
  qed
qed

end

end
