(* ===== verification/Dp_Shutdown.thy ===== *)
theory Dp_Shutdown
  imports Dp_Owner
begin

text \<open>
  The end of the control plane's life: \<open>finishLifecycle\<close> over the interface \<open>cleanupAPI\<close> as a locale, which the
  native side implements; the run; and the composition of the owner's steps. The properties of the
  owner follow.
\<close>

section \<open>Calls do not open or close publication\<close>

lemma managed_open: "(managed qs ops)\<^sup>*\<^sup>* r r' \<Longrightarrow> rt_open r' = rt_open r"
proof (induction rule: rtranclp_induct)
  case (step r1 r2)
  have locked: "rt_open r2' = rt_open r1" if "publish_snapshot_locked qs ops ce s r1 = Some (Returned err r2')" for ce s err r2'
    using that by (auto simp: publish_snapshot_locked_def Let_def split: if_splits Option.bind_splits publish_outcome.splits option.splits)
  have "rt_open r2' = rt_open r1" if "perform qs ops ce call r1 = Some (Returned err r2')" for ce call err r2'
    using that locked by (cases call)
      (auto simp: replace_rules_def add_flow_def delete_flow_def add_route_def delete_route_def Let_def split: option.splits if_splits)
  with step show ?case by (auto elim: managed.cases)
qed simp

section \<open>The end of the life cycle\<close>

text \<open>
  What \<open>finishLifecycle\<close> needs of an implementation of \<open>cleanupAPI\<close>: on a sound state a teardown returns, and
  without an error it leaves the resources released; the statistics can be read; and on a sound state with
  its resources released the clean-up returns, the environment is gone, and without an error its
  memory is freed. Nothing is promised of a clean-up before a successful teardown.
\<close>

locale cleanup_api =
  fixes teardown :: "'s \<Rightarrow> (life_error option \<times> 's) option"
    and get_stats :: "'s \<Rightarrow> (life_error + go_stats) option"
    and cleanup :: "'s \<Rightarrow> (life_error option \<times> 's) option"
    and sound :: "'s \<Rightarrow> bool" and released :: "'s \<Rightarrow> bool" and gone :: "'s \<Rightarrow> bool" and freed :: "'s \<Rightarrow> bool"
  assumes teardown_law: "sound s \<Longrightarrow> \<exists>e s'. teardown s = Some (e, s') \<and> sound s' \<and> (e = None \<longrightarrow> released s')"
    and stats_law: "sound s \<Longrightarrow> \<exists>got. get_stats s = Some got"
    and cleanup_law: "sound s \<Longrightarrow> released s \<Longrightarrow> \<exists>e s'. cleanup s = Some (e, s') \<and> gone s' \<and> (e = None \<longrightarrow> freed s')"
begin

lemma finish_returns:
  assumes "sound s"
  shows "\<exists>err stats s' te s1. finish_lifecycle teardown get_stats cleanup run_err s = Some (err, stats, s') \<and>
    teardown s = Some (te, s1) \<and> (run_err \<noteq> None \<longrightarrow> err \<noteq> None) \<and>
    (if te = None then gone s' \<and> (err = None \<longrightarrow> freed s') else err \<noteq> None \<and> s' = s1 \<and> sound s1)"
proof -
  obtain te s1 where t: "teardown s = Some (te, s1)" "sound s1" "te = None \<longrightarrow> released s1" using teardown_law [OF assms] by blast
  obtain got where g: "get_stats s1 = Some got" using stats_law [OF t(2)] by blast
  obtain stats se where got: "(case got of Inl e \<Rightarrow> (zero_go_stats, Some e) | Inr stats \<Rightarrow> (stats, None)) = (stats, se)" by fastforce
  show ?thesis
  proof (cases te)
    case None
    then obtain ce s2 where "cleanup s1 = Some (ce, s2)" "gone s2" "ce = None \<longrightarrow> freed s2" using cleanup_law t(2,3) by blast
    then show ?thesis using t(1) g got None by (simp add: finish_lifecycle_def del: not_None_eq)
  next
    case (Some e)
    then show ?thesis using t(1,2) g got by (simp add: finish_lifecycle_def del: not_None_eq)
  qed
qed

end

text \<open>The native side provides that interface.\<close>

definition life_sound :: "('h, 'l) table_view \<Rightarrow> arguments \<times> ('h, 'l, 'q) dp_state \<Rightarrow> bool" where
  "life_sound tv = (\<lambda>(ag, st). arguments_ok ag \<and> at_rest tv st)"

definition life_gone :: "arguments \<times> ('h, 'l, 'q) dp_state \<Rightarrow> bool" where
  "life_gone = (\<lambda>(ag, st). \<not> g_initialized st \<and> resources_gone st \<and> g_live st = {#})"

definition life_freed :: "arguments \<times> ('h, 'l, 'q) dp_state \<Rightarrow> bool" where
  "life_freed s \<longleftrightarrow> ag_live (fst s) = {#}"

lemma gone_live: "rules_inv tv st \<Longrightarrow> resources_gone st \<Longrightarrow> g_live st = {#}"
  by (simp add: rules_inv_def rule_objs_def resources_gone_def)

context process_env
begin

lemma native_cleanup_api:
  "cleanup_api (api_teardown eo t :: arguments \<times> ('h, 'l, 'q) dp_state \<Rightarrow> _) api_get_stats (api_cleanup el) (life_sound tv) (\<lambda>s. resources_gone (snd s)) life_gone life_freed"
proof
  show "\<exists>e s'. api_teardown eo t s = Some (e, s') \<and> life_sound tv s' \<and> (e = None \<longrightarrow> resources_gone (snd s'))"
    if sound: "life_sound tv s" for s :: "arguments \<times> ('h, 'l, 'q) dp_state"
  proof -
    obtain ag st where s: "s = (ag, st)" "arguments_ok ag" "at_rest tv st" using sound by (cases s) (auto simp: life_sound_def)
    then have st: "ports_inv st" "rules_inv tv st" "life_inv tv st" "g_initialized st" "\<not> g_running st" "all_idle st"
      by (auto simp: at_rest_def life_inv_def)
    obtain ret st' calls where t: "dp_dataplane_teardown eo t st = Some (ret, st', calls)" "g_initialized st' = g_initialized st"
      "g_running st' = g_running st" "all_idle st'" "ret = 0 \<longrightarrow> resources_gone st'"
      using dp_dataplane_teardown_cases [OF st(1,2), of t] st(5,6) by blast
    have "life_inv tv st'" by (rule life_inv_teardown [OF st(3) t(1)])
    then show ?thesis using s t st
      by (auto simp: api_teardown_def native_teardown_def native_status_def life_sound_def at_rest_def)
  qed
  show "\<exists>got. api_get_stats s = Some got" if sound: "life_sound tv s" for s :: "arguments \<times> ('h, 'l, 'q) dp_state"
  proof -
    have "ports_inv (snd s)" using sound by (auto simp: life_sound_def at_rest_def life_inv_def)
    then show ?thesis using native_get_stats_runs by (auto simp: api_get_stats_def)
  qed
  show "\<exists>e s'. api_cleanup el s = Some (e, s') \<and> life_gone s' \<and> (e = None \<longrightarrow> life_freed s')"
    if sound: "life_sound tv s" and gone: "resources_gone (snd s)" for s :: "arguments \<times> ('h, 'l, 'q) dp_state"
  proof -
    obtain ag st where s: "s = (ag, st)" "arguments_ok ag" "at_rest tv st" using sound by (cases s) (auto simp: life_sound_def)
    then have st: "ports_inv st" "rules_inv tv st" "g_initialized st" "\<not> g_running st" "all_idle st"
      by (auto simp: at_rest_def life_inv_def)
    have "unat (g_worker_count st) \<le> length (g_workers st)" using st(1) by (simp add: ports_inv_def)
    then have "dp_runtime_cleanup el st = Some (el_cleanup el, st\<lparr>g_initialized := False\<rparr>)"
      using dp_runtime_cleanup_cases [of st el] st gone s(1) by simp
    moreover have "resources_gone (st\<lparr>g_initialized := False\<rparr>)" using gone s(1) by (simp add: resources_gone_def)
    ultimately show ?thesis using s gone_live [OF st(2)] gone
      by (auto simp: api_cleanup_def native_cleanup_def native_status_def free_arguments_ok life_gone_def life_freed_def arguments_start_def)
  qed
qed

end

interpretation ref_cleanup: cleanup_api "api_teardown (ref_eth fails) t" api_get_stats "api_cleanup demo_eal" "life_sound ref_view"
  "\<lambda>s :: arguments \<times> (ref_hash, ref_lpm, ref_qsbr) dp_state. resources_gone (snd s)" life_gone life_freed
  by (rule ref_process.native_cleanup_api)

section \<open>The run\<close>

interpretation alive: worker_invariant qs ops "\<lambda>st. life_inv tv st \<and> g_initialized st"
  for qs :: "'q qsbr_ops" and ops :: "('h, 'l) rte_table_ops" and tv
proof
  show "life_inv tv st' \<and> g_initialized st'" if "life_inv tv st \<and> g_initialized st" "dp_rules_reader_register qs ops t r st = (ret, st')"
    for st st' :: "('h, 'l, 'q) dp_state" and t r ret
    using life_inv_reader(1) [OF _ that(2), of tv] that by (auto simp: dp_rules_reader_register_def Let_def split_beta split: option.splits if_splits)
  show "life_inv tv st' \<and> g_initialized st'" if "life_inv tv st \<and> g_initialized st" "dp_rules_reader_quiescent qs r st = Some st'"
    for st st' :: "('h, 'l, 'q) dp_state" and r
    using life_inv_reader(2) [OF _ that(2), of tv] that by (auto simp: dp_rules_reader_quiescent_def split: option.splits Option.bind_splits)
  show "life_inv tv st' \<and> g_initialized st'" if "life_inv tv st \<and> g_initialized st" "dp_rules_reader_unregister qs r st = Some st'"
    for st st' :: "('h, 'l, 'q) dp_state" and r
    using life_inv_reader(3) [OF _ that(2), of tv] that by (auto simp: dp_rules_reader_unregister_def Let_def split_beta split: option.splits if_splits Option.bind_splits)
qed (auto intro: life_inv_worker_fields)

context process_env
begin

lemma interferes_alive:
  assumes "interferes qs ops po" "life_inv tv st \<and> g_initialized st"
  shows "(life_inv tv (po_others po st) \<and> g_initialized (po_others po st)) \<and>
    (life_inv tv (po_during po st) \<and> g_initialized (po_during po st))"
proof -
  have "life_inv tv st' \<and> g_initialized st'" if "(meanwhile qs ops)\<^sup>*\<^sup>* st st'" for st'
    using that assms(2)
    by (induction rule: rtranclp_induct) (auto dest: meanwhile_kept simp: workers_kept_def rules_only_def)
  then show ?thesis using assms(1) by (simp add: interferes_def)
qed

lemma native_run_runs:
  assumes "qsbr_laws qs qv" and st: "in_service tv qv n st"
    and polls: "\<And>i po. po \<in> set (polls i) \<Longrightarrow> calm tv qv po \<and> interferes qs ops po"
    and stop: "\<And>i. i < n \<Longrightarrow> \<exists>po \<in> set (polls i). \<forall>st. g_stop (po_others po st)"
    and fresh: "\<And>i p. i < n \<Longrightarrow> p \<in> set (received (polls i)) \<Longrightarrow> mh_live h p = None"
  shows "\<exists>e st' h'. native_run launch failure (exec_worker ck ops qs failed t polls) st h = Some (e, st', h') \<and> at_rest tv st'"
proof -
  have s: "fleet tv qv n st" "g_ready st" "\<not> g_ran st" "life_inv tv st \<and> g_initialized st" "all_idle st"
    using st by (auto simp: in_service_def at_rest_def)
  obtain ret st' h' where r: "dp_dataplane_run launch failure (exec_worker ck ops qs failed t polls) st h = Some (ret, st', h')"
    "\<not> g_running st'" "all_idle st'"
    using dataplane_run_result [where launch = launch and failure = failure and ck = ck and failed = failed and t = t and polls = polls and h = h,
        OF rte_table_laws_axioms assms(1) s(1-3)] polls stop fresh s(5) by blast
  have "life_inv tv st' \<and> g_initialized st'"
  proof (rule alive.dp_dataplane_run_keeps [OF _ r(1) s(4)])
    show "life_inv tv s' \<and> g_initialized s'"
      if "life_inv tv s1 \<and> g_initialized s1" "exec_worker ck ops qs failed t polls i (s1, h1) = Some (x, s', h2)" for i s1 h1 x s' h2
      by (rule alive.exec_worker_keeps [OF _ that(2,1)]) (use interferes_alive polls in blast)
  qed
  then show ?thesis using r by (simp add: native_run_def at_rest_def)
qed

end

section \<open>The whole life\<close>

text \<open>
  What the other goroutines may do, and what the workers meet: calls and stop requests only, and on every
  worker a pass that sees a stop.
\<close>

definition companions ::
  "('h, 'l) table_view \<Rightarrow> 'q qsbr_view \<Rightarrow> nat \<Rightarrow> ('h, 'l, 'q) machine \<Rightarrow> mbuf_heap \<Rightarrow> bool" where
  "companions tv qv n mc h \<longleftrightarrow>
     (\<forall>r. (managed (mc_qsbr mc) (mc_tables mc))\<^sup>*\<^sup>* r (mc_before mc r)) \<and>
     (\<forall>r. (managed (mc_qsbr mc) (mc_tables mc))\<^sup>*\<^sup>* r (mc_after mc r)) \<and>
     (\<forall>i. \<forall>po \<in> set (mc_polls mc i). calm tv qv po \<and> interferes (mc_qsbr mc) (mc_tables mc) po) \<and>
     (\<forall>i < n. (\<exists>po \<in> set (mc_polls mc i). \<forall>st. g_stop (po_others po st)) \<and>
        (\<forall>p \<in> set (received (mc_polls mc i)). mh_live h p = None))"

text \<open>
  The end: either the environment is gone with everything in it, or the teardown failed, which is
  reported, and the process still holds it.
\<close>

definition ended :: "('h, 'l, 'q) manager \<Rightarrow> bool" where
  "ended m \<longleftrightarrow> mg_done m \<and> \<not> rt_open (mg_runtime m) \<and>
     (if g_initialized (mg_native m) then mg_err m \<noteq> None \<and> all_idle (mg_native m) \<and> \<not> g_running (mg_native m)
      else resources_gone (mg_native m) \<and> g_live (mg_native m) = {#}) \<and>
     (mg_err m = None \<longrightarrow> \<not> g_initialized (mg_native m) \<and> ag_live (mg_arguments m) = {#})"

context process_env
begin

lemma managed_life_inv: "(managed qs ops)\<^sup>*\<^sup>* r r' \<Longrightarrow> life_inv tv (rt_native r) \<Longrightarrow>
    life_inv tv (rt_native r') \<and> g_initialized (rt_native r') = g_initialized (rt_native r)"
proof -
  have "life_inv tv st' \<and> g_initialized st' = g_initialized st" if "(meanwhile qs ops)\<^sup>*\<^sup>* st st'" "life_inv tv st" for st st'
    using that by (induction rule: rtranclp_induct) (auto dest: meanwhile_kept simp: workers_kept_def rules_only_def)
  then show "(managed qs ops)\<^sup>*\<^sup>* r r' \<Longrightarrow> life_inv tv (rt_native r) \<Longrightarrow>
    life_inv tv (rt_native r') \<and> g_initialized (rt_native r') = g_initialized (rt_native r)" using managed_many by blast
qed

lemma owner_run_runs:
  assumes mc: "mc_eal mc = el" "mc_qsbr mc = qs" "mc_tables mc = ops"
    and qsbr: "qsbr_laws qs qv" and comp: "companions tv qv n mc h" and rest: "at_rest tv (mg_native m)" "arguments_ok (mg_arguments m)"
    and ready: "err = None \<and> \<not> co_probe cfg \<longrightarrow> in_service tv qv n (mg_native m)"
  shows "\<exists>err' m' h'. owner_run mc cfg err m h = Some (err', m', h') \<and> at_rest tv (mg_native m') \<and>
    arguments_ok (mg_arguments m') \<and> mg_ready m' = mg_ready m"
proof (cases "err = None \<and> \<not> co_probe cfg")
  case False
  then show ?thesis using rest by (auto simp: owner_run_def)
next
  case True
  note c = comp [unfolded companions_def]
  have "\<exists>e st' h'. native_run (el_launch el) (mc_launch_failure mc)
      (exec_worker (mc_cksum mc) ops qs (mc_worker_failure mc) (mc_register mc) (mc_polls mc)) (mg_native m) h = Some (e, st', h') \<and>
      at_rest tv st'"
    by (rule native_run_runs [OF qsbr]) (use True ready c mc in auto)
  then obtain e st' h' where r: "native_run (el_launch el) (mc_launch_failure mc)
      (exec_worker (mc_cksum mc) ops qs (mc_worker_failure mc) (mc_register mc) (mc_polls mc)) (mg_native m) h = Some (e, st', h')"
      "at_rest tv st'" by blast
  then show ?thesis using True rest(2) mc by (simp add: owner_run_def set_native_def)
qed

lemma owner_finish_runs:
  fixes mc :: "('h, 'l, 'q) machine"
  assumes mc: "mc_eal mc = el" "mc_eth mc = eo"
    and st: "if initialized then at_rest tv (mg_native m) \<and> arguments_ok (mg_arguments m)
      else life_inv tv (mg_native m) \<and> \<not> g_initialized (mg_native m) \<and> err \<noteq> None \<and> \<not> rt_open (mg_runtime m)"
  shows "\<exists>m'. owner_finish mc initialized err m = Some m' \<and> ended m' \<and> mg_ready m' = mg_ready m \<and>
    (device_ok eo (mc_teardown mc) \<longrightarrow> \<not> g_initialized (mg_native m'))"
proof (cases initialized)
  case False
  then show ?thesis using st gone_live
    by (auto simp: owner_finish_def ended_def life_inv_def)
next
  case True
  let ?m = "m\<lparr>mg_runtime := (mg_runtime m)\<lparr>rt_open := False\<rparr>\<rparr>"
  have "life_sound tv (mg_arguments ?m, mg_native ?m)" using True st by (simp add: life_sound_def)
  from cleanup_api.finish_returns [OF native_cleanup_api this, of "mc_teardown mc" err]
  obtain err' stats s' te s1 where f: "finish_lifecycle (api_teardown eo (mc_teardown mc)) api_get_stats (api_cleanup el) err
      (mg_arguments m, mg_native m) = Some (err', stats, s')" "api_teardown eo (mc_teardown mc) (mg_arguments m, mg_native m) = Some (te, s1)"
    "if te = None then life_gone s' \<and> (err' = None \<longrightarrow> life_freed s') else err' \<noteq> None \<and> s' = s1 \<and> life_sound tv s1"
    by (simp del: not_None_eq) blast
  obtain ag st' where s': "s' = (ag, st')" by fastforce
  have e: "ended ((set_native st' (?m\<lparr>mg_arguments := ag, mg_stats := stats\<rparr>))\<lparr>mg_err := err', mg_done := True\<rparr>)"
    using f(3) s' by (auto simp: ended_def set_native_def life_gone_def life_freed_def life_sound_def at_rest_def split: if_splits)
  have "\<not> g_initialized st'" if "device_ok eo (mc_teardown mc)"
  proof -
    have a: "at_rest tv (mg_native m)" using True st by simp
    then have "dp_workers_stopped (mg_native m) = Some True" "\<not> g_running (mg_native m)" "rules_inv tv (mg_native m)"
      using dp_workers_stopped_idle [of "mg_native m"] by (auto simp: at_rest_def life_inv_def ports_inv_def)
    from teardown_ok [OF that this(2,1,3)] have "te = None"
      using f(2) by (auto simp: api_teardown_def native_teardown_def native_status_def)
    then show ?thesis using f(3) s' by (simp add: life_gone_def)
  qed
  then show ?thesis using True f(1) s' e mc
    by (simp add: owner_finish_def set_native_def)
qed

lemma owner_runs:
  assumes mc: "mc_eal mc = el" "mc_eth mc = eo" "mc_qsbr mc = qs" "mc_tables mc = ops"
    and qsbr: "qsbr_laws qs qv" and valid: "validate_config cfg = None"
    and comp: "companions tv qv (unat (co_workers cfg)) mc h"
  shows "\<exists>m h'. owner mc cfg (new_manager cfg dp_start arguments_start) h = Some (m, h') \<and> ended m \<and> mg_ready m \<and>
    (device_ok eo (mc_teardown mc) \<longrightarrow> \<not> g_initialized (mg_native m))"
proof -
  obtain err initialized m where b: "owner_boot mc cfg (new_manager cfg dp_start arguments_start) = Some (err, initialized, m)"
    "arguments_ok (mg_arguments m)" "mg_ready m" "life_inv tv (mg_native m)" "rt_open (mg_runtime m) \<longleftrightarrow> err = None \<and> \<not> co_probe cfg"
    "if initialized then at_rest tv (mg_native m) else err \<noteq> None \<and> \<not> g_initialized (mg_native m)"
    "err = None \<and> \<not> co_probe cfg \<longrightarrow> in_service tv qv (unat (co_workers cfg)) (mg_native m)"
    using owner_boot_runs [OF mc qsbr valid] by blast
  define m1 where "m1 = m\<lparr>mg_runtime := mc_before mc (mg_runtime m)\<rparr>"
  have before: "(managed qs ops)\<^sup>*\<^sup>* (mg_runtime m) (mg_runtime m1)" and after: "\<And>r. (managed qs ops)\<^sup>*\<^sup>* r (mc_after mc r)"
    using comp mc(3,4) by (simp_all add: companions_def m1_def)
  have k1: "life_inv tv (mg_native m1)" "g_initialized (mg_native m1) = g_initialized (mg_native m)"
    "rt_open (mg_runtime m1) = rt_open (mg_runtime m)" "arguments_ok (mg_arguments m1)" "mg_ready m1"
    using managed_life_inv [OF before b(4)] managed_open [OF before] b(2,3) by (simp_all add: m1_def)
  have "\<exists>err' m2 h'. owner_run mc cfg err m1 h = Some (err', m2, h') \<and> mg_ready m2 \<and>
    (if initialized then at_rest tv (mg_native m2) \<and> arguments_ok (mg_arguments m2)
      else life_inv tv (mg_native m2) \<and> \<not> g_initialized (mg_native m2) \<and> err' \<noteq> None \<and> \<not> rt_open (mg_runtime m2))"
  proof (cases initialized)
    case True
    have rest: "at_rest tv (mg_native m1)" using meanwhile_at_rest [OF managed_many [OF before]] True b(6) by simp
    have "err = None \<and> \<not> co_probe cfg \<longrightarrow> in_service tv qv (unat (co_workers cfg)) (mg_native m1)"
      using meanwhile_in_service [OF qsbr managed_many [OF before]] b(7) by blast
    from owner_run_runs [OF mc(1,3,4) qsbr comp rest k1(4) this] show ?thesis
      using k1(5) True by (elim exE conjE) (intro exI conjI, assumption, simp_all)
  next
    case False
    then show ?thesis using b(5,6) k1 by (auto simp: owner_run_def)
  qed
  then obtain err' m2 h' where r: "owner_run mc cfg err m1 h = Some (err', m2, h')" "mg_ready m2"
    "if initialized then at_rest tv (mg_native m2) \<and> arguments_ok (mg_arguments m2)
      else life_inv tv (mg_native m2) \<and> \<not> g_initialized (mg_native m2) \<and> err' \<noteq> None \<and> \<not> rt_open (mg_runtime m2)" by blast
  define m3 where "m3 = m2\<lparr>mg_runtime := mc_after mc (mg_runtime m2)\<rparr>"
  have "(managed qs ops)\<^sup>*\<^sup>* (mg_runtime m2) (mg_runtime m3)" using after by (simp add: m3_def)
  note k3 = managed_life_inv [OF this] managed_open [OF this] meanwhile_at_rest [OF managed_many [OF this]]
  have "if initialized then at_rest tv (mg_native m3) \<and> arguments_ok (mg_arguments m3)
      else life_inv tv (mg_native m3) \<and> \<not> g_initialized (mg_native m3) \<and> err' \<noteq> None \<and> \<not> rt_open (mg_runtime m3)"
    using r(3) k3 by (cases initialized) (simp_all add: m3_def)
  from owner_finish_runs [OF mc(1,2) this] obtain m4 where f: "owner_finish mc initialized err' m3 = Some m4" "ended m4"
    "mg_ready m4 = mg_ready m3" "device_ok eo (mc_teardown mc) \<longrightarrow> \<not> g_initialized (mg_native m4)" by blast
  have "owner mc cfg (new_manager cfg dp_start arguments_start) h = Some (m4, h')"
    using b(1) r(1) f(1) by (simp add: owner_def m1_def m3_def)
  then show ?thesis using f r(2) by (simp add: m3_def)
qed

end

section \<open>A process\<close>

definition demo_config :: config where
  "demo_config = \<lparr>co_eal_args = [''--no-pci''], co_rx_device = ''net_tap0'', co_tx_device = ''net_tap1'', co_workers = 2,
     co_probe = False, co_rules = \<lparr>rs_flows = [demo_rule], rs_routes = [demo_route]\<rparr>\<rparr>"

definition demo_machine :: "(ref_hash, ref_lpm, ref_qsbr) machine" where
  "demo_machine = \<lparr>mc_eal = demo_eal, mc_eth = ref_eth [], mc_hooks = test_hooks_start, mc_cksum = rfc_cksum,
     mc_qsbr = ref_qsbr_ops 128, mc_tables = ref_tables [], mc_argv_ok = True, mc_configure = demo_call,
     mc_launch_failure = - 1, mc_worker_failure = - 1, mc_register = (\<lambda>_. 0), mc_polls = (\<lambda>_. demo_polls), mc_teardown = 0,
     mc_before = (\<lambda>r. r), mc_during = (\<lambda>r. r), mc_after = (\<lambda>r. r\<lparr>rt_native := dp_dataplane_request_stop (rt_native r)\<rparr>)\<rparr>"

lemma demo_start: "start_runtime demo_config False = (Inr demo_config, True)"
proof -
  have "validate_rules (co_rules demo_config) = None"
    using demo_route_intended(1) by (auto simp: demo_config_def dest: if_validD split: if_splits)
  then show ?thesis
    by (simp add: start_runtime_def validate_config_def Let_def demo_config_def del: clone_rules_def)
qed

lemma demo_companions: "companions ref_view (ref_qsbr_view 128) (unat (co_workers demo_config)) demo_machine (demo_heap [])"
proof -
  have "(managed qs ops)\<^sup>*\<^sup>* r (r\<lparr>rt_native := dp_dataplane_request_stop (rt_native r)\<rparr>)" for qs ops and r :: "(ref_hash, ref_lpm, ref_qsbr) runtime"
    by (rule r_into_rtranclp [of "managed qs ops", OF managed_stop])
  moreover have "(meanwhile qs ops)\<^sup>*\<^sup>* st (dp_dataplane_request_stop st)" for qs ops and st :: "(ref_hash, ref_lpm, ref_qsbr) dp_state"
    by (rule r_into_rtranclp [of "meanwhile qs ops", OF mw_stop])
  ultimately show ?thesis
    using demo_calm demo_stop demo_fresh
    by (auto simp: companions_def demo_machine_def demo_polls_def interferes_def)
qed

lemma demo_configure:
  fixes st :: "(ref_hash, ref_lpm, ref_qsbr) dp_state"
  assumes "booting ref_view st" "g_rules_qsbr st = None" "\<not> g_rules_configured st" "\<not> g_ready st"
    and s: "validate_rules s = None" "few_deep s"
  shows "\<exists>st'. native_configure_rules (ref_qsbr_ops 128) (ref_tables []) demo_call (to_native_rules s) st = Some (None, st')"
proof -
  have fit: "fits s" by (rule valid_fits [OF s(1)])
  obtain live where l: "new_rule_arrays True True (ns_flows (to_native_rules s)) (ns_routes (to_native_rules s)) =
      Some (Inr \<lparr>ar_flows = arg_of (flows_of s), ar_routes = arg_of (routes_of s)\<rparr>, live)"
      "release_arrays \<lparr>ar_flows = arg_of (flows_of s), ar_routes = arg_of (routes_of s)\<rparr> live = Some []"
    using arrays_cases [of True True s] fit by auto
  obtain st1 where q: "dp_qsbr_create (ref_qsbr_ops 128) (ref_tables []) 5 st = Some (0, st1)"
    using assms(2) by (simp add: dp_qsbr_create_def ref_qsbr_ops_def ref_tables_def Let_def)
  have "g_initialized st" "\<not> g_running st" "\<not> g_ran st" using assms(1) by (simp_all add: booting_def at_rest_def)
  moreover obtain res st2 where "dp_snapshot_build (ref_tables []) 8 (arg_of (flows_of s)) (word_of_nat (length (rs_flows s)))
      (arg_of (routes_of s)) (word_of_nat (length (rs_routes s))) 1 st1 = Some (0, res, st2)"
    using reft_room.build_accepts [OF fit s(2), of 8 1 st1] valid_code [OF fit] s(1) by auto
  ultimately show ?thesis using l q assms(3,4)
    by (simp add: native_configure_rules_def demo_call_def dp_configure_rules_def configure_snapshot_def native_status_def)
qed

lemma demo_setup_any:
  fixes st :: "(ref_hash, ref_lpm, ref_qsbr) dp_state"
  assumes "g_initialized st" "g_pool st = None" "\<not> g_ready st" "g_rules_configured st" "ri_lcore_count (g_info st) = 2"
    "ri_main_lcore (g_info st) = 0" "ri_socket_id (g_info st) = 0" "length (ri_workers (g_info st)) = DP_MAX_WORKERS"
  shows "\<exists>st' calls. dp_dataplane_setup demo_eal (ref_eth []) test_hooks_start (Some ''net_tap0'') (Some ''net_tap1'') 2 st =
    Some (0, st', calls)"
  using assms
  by (simp add: dp_dataplane_setup_def setup_workers_def demo_eal_def DP_MAX_WORKERS_def mem_simps Let_def
    validate_worker_socket_def find_ports_def ref_eth_def check_device_def validate_queue_capacity_def
    claim_ports_def setup_port_def test_hooks_start_def queue_loops)

lemma demo_boot:
  "\<exists>m. owner_boot demo_machine demo_config (new_manager demo_config dp_start arguments_start) = Some (None, True, m)"
proof -
  let ?m = "new_manager demo_config dp_start arguments_start :: (ref_hash, ref_lpm, ref_qsbr) manager"
  let ?argv = "[''flow-router'', ''--no-pci'']"
  define st1 :: "(ref_hash, ref_lpm, ref_qsbr) dp_state" where "st1 = snd (dp_runtime_init demo_eal 2 (Some ?argv) dp_start)"
  have r: "dp_runtime_init demo_eal 2 (Some ?argv) (dp_start :: (ref_hash, ref_lpm, ref_qsbr) dp_state) = (0, st1)"
    by (simp add: st1_def dp_runtime_init_def demo_eal_def dp_start_def)
  have f: "ri_lcore_count (g_info st1) = 2" "ri_main_lcore (g_info st1) = 0" "ri_socket_id (g_info st1) = 0"
    "\<not> g_rules_configured st1" "\<not> g_ready st1" "g_pool st1 = None"
    by (simp_all add: st1_def dp_runtime_init_def demo_eal_def dp_start_def)
  note b = booting_init [OF ref_process.eal_errno r, of ref_view]
  then have st1: "parked st1" "ports_inv st1" "g_initialized st1" by (auto simp: booting_def at_rest_def life_inv_def)
  obtain ag where i: "native_init demo_eal True [''--no-pci''] arguments_start dp_start = Some (None, ag, st1)"
    using r by (simp add: native_init_def init_argv_null_terminated native_status_def c_string_def Let_def)
  define m1 where "m1 = set_native st1 (?m\<lparr>mg_arguments := ag\<rparr>)"
  obtain info where g: "read_info m1 = Some (None, m1\<lparr>mg_info := info\<rparr>)" "gi_lcore_count info = 2"
    using read_info_runs [OF st1, of m1] f(1) by (auto simp: m1_def)
  have init: "owner_init demo_machine demo_config ?m = Some (None, True, m1\<lparr>mg_info := info\<rparr>)"
    using i g by (simp add: owner_init_def demo_machine_def demo_config_def new_manager_def m1_def)
  have v: "validate_rules (co_rules demo_config) = None" "few_deep (co_rules demo_config)"
    using demo_route_intended by (auto simp: demo_config_def dest: if_validD split: if_splits)
  obtain st2 where c: "native_configure_rules (ref_qsbr_ops 128) (ref_tables []) demo_call (to_native_rules (co_rules demo_config)) st1 =
      Some (None, st2)" using demo_configure [OF _ _ f(4,5) v] b by auto
  have b2: "booting ref_view st2" "readers (ref_qsbr_view 128) st2 = Some {}" "\<exists>x. g_active_rules st2 = Some x" "workers_kept st1 st2"
    using rte_table_laws.native_configure_runs [where ce = demo_call and st = st1,
        OF reft.rte_table_laws_axioms [of "[]"] _ _ refq.qsbr_laws_axioms [of 128] v(1)] c b
    by auto
  define m2 where "m2 = set_native st2 (m1\<lparr>mg_info := info\<rparr>)"
  have configured: "owner_configure demo_machine demo_config None (m1\<lparr>mg_info := info\<rparr>) = Some (None, m2)"
    using c by (simp add: owner_configure_def demo_machine_def demo_config_def m1_def m2_def set_native_def)
  have f2: "g_rules_configured st2" "g_initialized st2" "ports_inv st2" "\<not> g_ready st2" "g_pool st2 = None" "g_info st2 = g_info st1"
    using b2 f by (auto simp: booting_def at_rest_def life_inv_def rules_inv_def workers_kept_def rules_only_def)
  then obtain st3 calls where s: "dp_dataplane_setup demo_eal (ref_eth []) test_hooks_start (Some ''net_tap0'') (Some ''net_tap1'') 2 st2 =
      Some (0, st3, calls)" using demo_setup_any [of st2] f by (auto simp: ports_inv_def)
  have "parked st3" using dp_dataplane_setup_parked [OF s] b2(1) by (simp add: booting_def)
  moreover have "ports_inv st3" "g_initialized st3"
    using eth_laws.dp_dataplane_setup_cases [OF ref_eth.eth_laws_axioms [of "[]"] f2(3), of demo_eal test_hooks_start "Some ''net_tap0''" "Some ''net_tap1''" 2] s f2(2)
    by (auto simp: runs_frame_def)
  ultimately obtain info3 where "read_info (set_native st3 m2) = Some (None, (set_native st3 m2)\<lparr>mg_info := info3\<rparr>)"
    using read_info_runs [of st3 "set_native st3 m2"] by auto
  then have "owner_setup demo_machine demo_config None m2 = Some (None, (set_native st3 m2)\<lparr>mg_info := info3\<rparr>)"
    using s by (simp add: owner_setup_def demo_machine_def demo_config_def native_setup_def native_status_def c_string_def m2_def)
  with init configured show ?thesis by (simp add: owner_boot_def)
qed

lemma demo_machine_laws:
  "rte_table_laws (mc_tables demo_machine) ref_view" "qsbr_laws (mc_qsbr demo_machine) (ref_qsbr_view 128)"
  "eth_laws (mc_eth demo_machine)" "0 \<le> el_errno (mc_eal demo_machine)"
  using reft.rte_table_laws_axioms refq.qsbr_laws_axioms ref_eth.eth_laws_axioms ref_process.eal_errno
  by (simp_all add: demo_machine_def)

section \<open>Properties\<close>

text \<open>
  C15. The runtime opens in step. From the start of the process the owner's boot never faults, closes \<open>ready\<close>
  and leaves its result for \<open>Ready\<close>. It opens publication exactly when every step succeeded and it is not a
  probe. Then the generation is 1, every packet is decided by the native lookup as the configured rules
  say, and the configured number of workers waits, idle and unregistered, for the one run. In any
  case the runtime satisfies the invariant on which all later rule calls rest.
\<close>

theorem owner_opens_in_step:
  assumes "rte_table_laws (mc_tables mc) tv" and "qsbr_laws (mc_qsbr mc) qv" and "eth_laws (mc_eth mc)"
    and "0 \<le> el_errno (mc_eal mc)" and "start_runtime config attempted = (Inr cfg, attempted')"
  shows "\<exists>err initialized m. owner_boot mc cfg (new_manager cfg dp_start arguments_start) = Some (err, initialized, m) \<and>
    mg_ready m \<and> mg_start_err m = err \<and> in_step tv (mg_runtime m) \<and>
    (rt_open (mg_runtime m) \<longleftrightarrow> err = None \<and> \<not> co_probe cfg) \<and>
    (rt_open (mg_runtime m) \<longrightarrow> rt_rules (mg_runtime m) = co_rules cfg \<and> rt_generation (mg_runtime m) = 1 \<and>
      (\<forall>meta. native_decision (mc_tables mc) (mg_native m) meta =
         policy (flows_of (co_rules cfg)) (routes_of (co_rules cfg)) meta) \<and>
      g_ready (mg_native m) \<and> \<not> g_ran (mg_native m) \<and> fleet tv qv (unat (co_workers cfg)) (mg_native m) \<and>
      all_idle (mg_native m))"
proof -
  have env: "process_env (mc_tables mc) tv (mc_eth mc) (mc_eal mc)"
    using assms(1,3,4) by (simp add: process_env_def process_env_axioms_def)
  have v: "validate_config cfg = None" using start_runtime_handle [OF assms(5)] by blast
  obtain err initialized m where b: "owner_boot mc cfg (new_manager cfg dp_start arguments_start) = Some (err, initialized, m)"
    "mg_ready m" "mg_start_err m = err" "rt_rules (mg_runtime m) = co_rules cfg" "in_step tv (mg_runtime m)"
    "rt_open (mg_runtime m) \<longleftrightarrow> err = None \<and> \<not> co_probe cfg"
    "err = None \<and> \<not> co_probe cfg \<longrightarrow> rt_generation (mg_runtime m) = 1 \<and> in_service tv qv (unat (co_workers cfg)) (mg_native m)"
    using process_env.owner_boot_runs [OF env refl refl refl refl assms(2) v] by blast
  note d = rte_table_laws.decision_is_policy [OF assms(1) b(5)]
  show ?thesis
    by (intro exI conjI, rule b(1)) (use b d in \<open>auto simp: in_service_def at_rest_def\<close>)
qed

theorem owner_opens_in_step_witness:
  "\<exists>m. start_runtime demo_config False = (Inr demo_config, True) \<and>
    owner_boot demo_machine demo_config (new_manager demo_config dp_start arguments_start) = Some (None, True, m) \<and>
    rt_open (mg_runtime m) \<and> fleet ref_view (ref_qsbr_view 128) 2 (mg_native m)"
proof -
  from owner_opens_in_step [OF demo_machine_laws demo_start] demo_boot demo_start show ?thesis
    by (auto simp: demo_config_def)
qed



end
