(* ===== verification/Spec2Isabelle.thy ===== *)
theory Spec2Isabelle
  imports Dp_Action Dp_Rcu Dp_Shutdown
begin

text \<open>
  A verification development for a DPDK flow router (\<open>dataplane/native\<close> with the cgo binding
  \<open>binding_linux.go\<close>, and above it \<open>control/dataplane\<close> in Go): the native data plane that receives packets on one port, decides on each by
  an exact-match flow table and a longest-prefix route table, rewrites where the rule says so, and
  sends on the other port, while the control plane may replace all rules at run time.

  \<^bold>\<open>Parts and how they interact.\<close>
  The owner goroutine of the control plane initialises the environment layer (\<open>dp_runtime_init\<close>), hands over the first
  rules (\<open>dp_configure_rules\<close>), sets up ports, queues and pool (\<open>dp_dataplane_setup\<close>) and calls
  \<open>dp_dataplane_run\<close>, which runs one worker per core until a stop request. A worker polls its queue;
  for each burst it loads the active rule snapshot once, sends every packet through parser, lookup and
  action, transmits what is kept, frees what the driver does not take, and reports a quiescent state.
  Meanwhile \<open>dp_publish_rules\<close> may build a new snapshot, exchange it for the active one, wait for a grace
  period and free the old one: the runtime's calls \<open>ReplaceRules\<close>, \<open>AddFlow\<close>, \<open>DeleteFlow\<close>, \<open>AddRoute\<close> and
  \<open>DeleteRoute\<close> validate a candidate rule set, marshal it into C arrays and publish it, under one mutex.
  Afterwards come \<open>dp_dataplane_teardown\<close>, \<open>dp_dataplane_get_stats\<close> and, if the teardown succeeded,
  \<open>dp_runtime_cleanup\<close>.

  \<^bold>\<open>Theories.\<close>
  \<^item> \<open>Dp_Prelude\<close>: machine integers, errno values, bounds-checked memory (\<open>None\<close> is an access outside
    the buffer), byte order, lists by index, shared lemmas.
  \<^item> \<open>Dp_Api\<close>: the records, enums and limits of \<open>dp_api.h\<close> and \<open>dp_packet.h\<close>, every integer at its width.
  \<^item> \<open>Dp_Parser\<close>: \<open>dp_parser.c\<close>; a reference classification of frames, the encoder, memory safety.
  \<^item> \<open>Dp_Action\<close>: \<open>dp_action.c\<close>; the checksum routines of DPDK are a parameter (\<open>rte_cksum_laws\<close>), with an
    implementation by RFC 1071 that obeys the laws.
  \<^item> \<open>Dp_Binding\<close>: \<open>dp_binding.c\<close> and the Go functions \<open>Init\<close>, \<open>newRuleArrays\<close> and \<open>release\<close> over a C heap.
  \<^item> \<open>Dp_Tables\<close>, \<open>Dp_Qsbr\<close>: the interfaces \<open>rte_table_laws\<close>, \<open>rte_table_room\<close> and \<open>qsbr_laws\<close> of the
    DPDK tables, heap and reclamation as this code uses them, each with a reference instance.
  \<^item> \<open>Dp_State\<close>: \<open>struct dp_state\<close> (\<open>dp_internal.h\<close>) and its value at program start.
  \<^item> \<open>Dp_Rules\<close>, \<open>Dp_Snapshot\<close>, \<open>Dp_Publish\<close>: \<open>dp_lookup.c\<close>. Definitions; what build, free and lookup
    do; the state invariant and the outcomes of configuration, publication and teardown.
  \<^item> \<open>Dp_Worker\<close>: one packet, one burst, the polling loop, the worker's entry and exits (\<open>dp_worker.c\<close>,
    \<open>dp_tx.c\<close>). \<open>Dp_Burst\<close>: the pass for any packet stage under a contract. \<open>Dp_Path\<close>:
    \<open>dp_process_packet\<close> obeys it. \<open>Dp_Poll\<close>: the loop. \<open>Dp_Forward\<close>: the properties of the packet path.
  \<^item> \<open>Dp_Runtime\<close>: \<open>dp_runtime.c\<close>. \<open>Dp_Port\<close>, \<open>Dp_Setup\<close>: \<open>dp_port.c\<close>, definitions and results.
  \<^item> \<open>Dp_Run\<close>, \<open>Dp_Fleet\<close>: \<open>dp_dataplane_run\<close>, for any way the workers execute.
  \<^item> \<open>Dp_Lifecycle\<close>: every operation of the boundary in any order, the invariant of the process.
  \<^item> \<open>Dp_Rcu\<close>: workers and publishers interleaved, step by step.
  \<^item> \<open>Dp_Control\<close>, \<open>Dp_Manage\<close>, \<open>Dp_Serve\<close>: \<open>rules.go\<close> with \<open>ConfigureRules\<close> and \<open>PublishRules\<close>. Definitions; the
    two validators, the runtime's rules in step with the native ones, what a call does to decisions; the
    properties of the rule calls.
  \<^item> \<open>Dp_Native\<close>: the life cycle calls of \<open>binding_linux.go\<close>. \<open>Dp_Owner\<close>, \<open>Dp_Shutdown\<close>: \<open>dataplane.go\<close>. \<open>Start\<close> and
    the owner's boot; \<open>finishLifecycle\<close> over the interface \<open>cleanup_api\<close>, the run, the whole owner.

  \<^bold>\<open>Conventions.\<close>
  A definition keeps the name of its C function. State is the record \<open>dp_state\<close> passed explicitly; a pure
  error code is a negative \<open>int\<close>, as in C; an option around a result is a fault (a read or write
  out of bounds, a NULL dereference, a free of what is not allocated), so \<open>\<noteq> None\<close> is memory safety.
  \<open>g_live\<close> is the multiset of the DPDK objects of the rules that are allocated, \<open>mbuf_heap\<close> the packet
  buffers by pointer, \<open>ag_live\<close> the blocks of the C arguments. A Go \<open>error\<close> is an option, \<open>None\<close> for nil, a
  result with an error a sum. A pointer into an action array is an index into the array of its snapshot. What
  fails by chance (allocations, drivers, launches) is decided by the parameters; a moment \<open>t\<close> passed
  along lets each call answer differently.

  \<^bold>\<open>What the properties show.\<close>
  \<^item> Parser: no access outside the buffer; the verdict and the metadata of a reference classification;
    round trip with the encoder; only the packet's own bytes matter.
  \<^item> Action: the reference rewrite; the rewritten packet parses to the rewritten metadata, has valid
    checksums, and differs nowhere else.
  \<^item> Snapshots: building never faults, is all or nothing, and answers the first error of the rules; the
    snapshot implements the policy of its rules (exact flow, then longest prefix, else drop).
  \<^item> Packet path: each packet is kept, rewritten or freed as the rules say; a burst is sent in
    order; only permitted packets are sent; no buffer is lost or freed twice; the counters balance.
  \<^item> Publication, as one operation: it replaces the snapshot or changes nothing, and returns
    when the readers have reported. Interleaved (\<open>Dp_Rcu\<close>): in every interleaving a worker only uses allocated
    and complete snapshots, no thread is stuck, a grace period ends once each active worker has
    finished its pass, the reader counts are exact, and the system refines a policy in which publication is
    atomic; the sequential operation is a path of the interleaved steps.
  \<^item> Life of the process: set-up, run, teardown and clean-up in any order keep an invariant; the run ends
    when a stop is seen; teardown closes ports before it frees the pool; clean-up refuses while anything is live.
  \<^item> Rule calls: parsed rules pass the validation; the Go and the native validation agree; a call is accepted
    exactly when the rules allow it, and then changes exactly the decisions it should; any history
    of calls leaves the runtime and the native side with the same rules under the same generation.
  \<^item> Owner: it opens publication exactly on success, in step with the native side; it ends whatever
    fails, with nothing left, or with a reported teardown error and the environment untouched.

  \<^bold>\<open>Bounds.\<close>
  No fuel: all loops are recursions over what is left to do. The polling loop of a worker runs over
  a list of polls, each with what the driver delivers and accepts and how far other threads have moved
  the state, and says whether the list ran out first; the theorems that it returns assume a poll
  that sees the stop request. The wait for a grace period runs over the list of reports of readers and
  answers that it still waits when the list ends. The workers are at most \<open>DP_MAX_WORKERS\<close> = 4, as in the
  code; \<open>Dp_Rcu\<close> has any number of workers and publishers, the exactness of the counts below \<open>2 ^ 32\<close> workers.

  \<^bold>\<open>Not modelled.\<close>
  \<^item> Of the Go control plane: the JSON decoder and file reading (\<open>normalizeRules\<close> starts from the decoded
    document), \<open>net.ParseIP\<close> and \<open>net.ParseCIDR\<close> (a parameter, with the law that a network's number has its
    host bits clear), the texts of errors, \<open>Probe\<close>, \<open>Ready\<close> and \<open>Wait\<close>, which wait and return fields, and \<open>main\<close>.
    The owner's steps are atomic; what other goroutines do between them and during the run is an argument.
  \<^item> The test fixtures \<open>dp_parser_test.c\<close> and \<open>dp_lookup_action_test.c\<close>, and the scripts: they build inputs
    and call what is modelled here.
  \<^item> DPDK itself: its functions are parameters with their documented behaviour as hypotheses.
  \<^item> Weak memory: atomic accesses are interleaved in one order. \<open>Dp_Rcu\<close> cuts the operations between
    their accesses to shared state; the packet work of a burst touches only what its worker owns and the
    snapshot it has loaded, and is one part of the step that ends with the report.
  \<^item> In \<open>dp_dataplane_run\<close> the workers execute one after the other, the changes of other threads entering
    through the state each poll starts from; the interleaving proper is in \<open>Dp_Rcu\<close>.
\<close>

end
